(* ===== verification/Prelude.thy ===== *)
theory Prelude
  imports Main "HOL-Library.Word"
begin

text \<open>
  What every other theory shares: the machine types of the code, the ways a C++ call can
  end, loops over containers that may stop with an error, and byte regions.

  A call that returns is \<open>Inr\<close>, a throw, a failed \<open>assert\<close> or undefined
  behaviour is \<open>Inl\<close>; where a loop of the code may run for ever the result is an
  option and \<open>None\<close> is "does not return". The build sets no \<open>NDEBUG\<close>, so
  \<open>assert\<close> is live.
\<close>

section \<open>Types\<close>

type_synonym byte = "8 word"
type_synonym u64 = "64 word"
type_synonym u32 = "32 word"

text \<open>How a call ends abnormally: the exception classes the code throws, a failed
  \<open>assert\<close>, an access through \<open>std::get\<close> to the wrong alternative, and accesses that
  C++ leaves undefined.\<close>

datatype error =
    InvalidArgument string
  | RuntimeError string
  | LogicError string
  | OutOfRange string
  | BadVariantAccess
  | AssertionFailed string
  | Undefined string

type_synonym 'a result = "error + 'a"
type_synonym 'a outcome = "(error + 'a) option"

named_theorems result_simps \<open>inversion of sequenced calls\<close>
named_theorems region_simps \<open>reading and writing byte regions\<close>

section \<open>Sequencing\<close>

definition bindE :: "'a result \<Rightarrow> ('a \<Rightarrow> 'b result) \<Rightarrow> 'b result" where
  "bindE r f = (case r of Inl e \<Rightarrow> Inl e | Inr x \<Rightarrow> f x)"

definition assertE :: "bool \<Rightarrow> string \<Rightarrow> unit result" where
  "assertE b what = (if b then Inr () else Inl (AssertionFailed what))"

definition definedE :: "bool \<Rightarrow> string \<Rightarrow> unit result" where
  "definedE b what = (if b then Inr () else Inl (Undefined what))"

text \<open>The loop \<open>for (x : xs) body\<close> over a state, left at the first error.\<close>

primrec foldE :: "('x \<Rightarrow> 's \<Rightarrow> 's result) \<Rightarrow> 'x list \<Rightarrow> 's \<Rightarrow> 's result" where
  "foldE f [] s = Inr s"
| "foldE f (x # xs) s = bindE (f x s) (foldE f xs)"

definition bindO :: "'a outcome \<Rightarrow> ('a \<Rightarrow> 'b outcome) \<Rightarrow> 'b outcome" where
  "bindO r f = (case r of None \<Rightarrow> None | Some (Inl e) \<Rightarrow> Some (Inl e) | Some (Inr x) \<Rightarrow> f x)"

abbreviation returns :: "'a result \<Rightarrow> 'a outcome" where
  "returns r \<equiv> Some r"

text \<open>The loop that updates the elements of a container in place, over a state.\<close>

primrec traverseE :: "('x \<Rightarrow> 's \<Rightarrow> ('y \<times> 's) result) \<Rightarrow> 'x list \<Rightarrow> 's \<Rightarrow> ('y list \<times> 's) result" where
  "traverseE f [] s = Inr ([], s)"
| "traverseE f (x # xs) s =
     bindE (f x s) (\<lambda>(y, s1). bindE (traverseE f xs s1) (\<lambda>(ys, s2). Inr (y # ys, s2)))"

lemma bindE_simps [simp]:
  "bindE (Inl e) f = Inl e"
  "bindE (Inr x) f = f x"
  by (simp_all add: bindE_def)

lemma bindE_eq_Inr [result_simps]: "bindE r f = Inr y \<longleftrightarrow> (\<exists>x. r = Inr x \<and> f x = Inr y)"
  by (cases r) simp_all

lemma bindE_eq_Inl [result_simps]:
  "bindE r f = Inl e \<longleftrightarrow> r = Inl e \<or> (\<exists>x. r = Inr x \<and> f x = Inl e)"
  by (cases r) simp_all

lemma assertE_eq [result_simps]:
  "assertE b s = Inr u \<longleftrightarrow> b"
  "assertE b s = Inl e \<longleftrightarrow> \<not> b \<and> e = AssertionFailed s"
  by (auto simp: assertE_def)

lemma assertE_simps [simp]:
  "assertE True s = Inr ()"
  "assertE False s = Inl (AssertionFailed s)"
  by (simp_all add: assertE_def)

lemma definedE_eq [result_simps]:
  "definedE b s = Inr u \<longleftrightarrow> b"
  "definedE b s = Inl e \<longleftrightarrow> \<not> b \<and> e = Undefined s"
  by (auto simp: definedE_def)

lemma definedE_simps [simp]:
  "definedE True s = Inr ()"
  "definedE False s = Inl (Undefined s)"
  by (simp_all add: definedE_def)

lemma bindO_simps [simp]:
  "bindO None f = None"
  "bindO (Some (Inl e)) f = Some (Inl e)"
  "bindO (Some (Inr x)) f = f x"
  by (simp_all add: bindO_def)

lemma bindO_eq_Inr [result_simps]:
  "bindO r f = Some (Inr y) \<longleftrightarrow> (\<exists>x. r = Some (Inr x) \<and> f x = Some (Inr y))"
  by (auto simp: bindO_def split: option.splits sum.splits)

lemma foldE_append [simp]: "foldE f (xs @ ys) s = bindE (foldE f xs s) (foldE f ys)"
proof (induction xs arbitrary: s)
  case (Cons x xs)
  then show ?case by (cases "f x s") simp_all
qed simp

text \<open>Loop rules: what every iteration keeps holds at the end, and a loop whose
  iterations succeed under an invariant succeeds.\<close>

lemma foldE_invariant:
  assumes "foldE f xs s = Inr t" and "P s"
    and "\<And>x s s'. x \<in> set xs \<Longrightarrow> P s \<Longrightarrow> f x s = Inr s' \<Longrightarrow> P s'"
  shows "P t"
  using assms
proof (induction xs arbitrary: s)
  case (Cons x xs)
  from Cons.prems(1) obtain s' where "f x s = Inr s'" and "foldE f xs s' = Inr t"
    by (auto simp: result_simps)
  with Cons show ?case by (metis list.set_intros)
qed simp

lemma foldE_total:
  assumes "P s" and "\<And>x s. x \<in> set xs \<Longrightarrow> P s \<Longrightarrow> \<exists>s'. f x s = Inr s' \<and> P s'"
  shows "\<exists>t. foldE f xs s = Inr t \<and> P t"
  using assms
proof (induction xs arbitrary: s)
  case (Cons x xs)
  from Cons.prems obtain s' where "f x s = Inr s'" and "P s'"
    by (metis list.set_intros(1))
  with Cons show ?case by (metis bindE_simps(2) foldE.simps(2) list.set_intros(2))
qed simp

lemma traverseE_Cons [result_simps]:
  "traverseE f (x # xs) s = Inr (zs, t) \<longleftrightarrow>
    (\<exists>y ys s1. zs = y # ys \<and> f x s = Inr (y, s1) \<and> traverseE f xs s1 = Inr (ys, t))"
  by (auto simp: result_simps)

lemma traverseE_append:
  "traverseE f (xs @ ys) s = Inr (zs, t) \<longleftrightarrow>
    (\<exists>zs1 zs2 s1. zs = zs1 @ zs2 \<and> traverseE f xs s = Inr (zs1, s1) \<and> traverseE f ys s1 = Inr (zs2, t))"
  by (induction xs arbitrary: s zs) (fastforce simp: traverseE_Cons simp del: traverseE.simps(2))+

text \<open>An invariant of the state and a relation between old and new elements.\<close>

lemma traverseE_invariant:
  assumes "traverseE f xs s = Inr (ys, t)" and "P s"
    and "\<And>x s y s'. x \<in> set xs \<Longrightarrow> P s \<Longrightarrow> f x s = Inr (y, s') \<Longrightarrow> P s' \<and> R x y"
  shows "P t \<and> list_all2 R xs ys"
  using assms
proof (induction xs arbitrary: s ys)
  case (Cons x xs)
  obtain y ys' s1 where y: "ys = y # ys'" "f x s = Inr (y, s1)" "traverseE f xs s1 = Inr (ys', t)"
    using Cons.prems(1) by (auto simp: traverseE_Cons simp del: traverseE.simps)
  have one: "P s1 \<and> R x y" using Cons.prems(3) [OF _ Cons.prems(2) y(2)] by simp
  moreover have "P t \<and> list_all2 R xs ys'"
    by (rule Cons.IH [OF y(3)]) (use one Cons.prems(3) in \<open>auto intro: list.set_intros\<close>)
  ultimately show ?case using y(1) by simp
qed simp

lemma traverseE_total:
  assumes "P s" and "\<And>x s. x \<in> set xs \<Longrightarrow> P s \<Longrightarrow> \<exists>y s'. f x s = Inr (y, s') \<and> P s'"
  shows "\<exists>ys t. traverseE f xs s = Inr (ys, t) \<and> P t"
  using assms
proof (induction xs arbitrary: s)
  case (Cons x xs)
  obtain y s1 where "f x s = Inr (y, s1)" "P s1" using Cons.prems by (metis list.set_intros(1))
  moreover from Cons.IH [OF this(2)] Cons.prems(2) obtain ys t where "traverseE f xs s1 = Inr (ys, t)" "P t"
    by (metis list.set_intros(2))
  ultimately show ?case by simp
qed simp

section \<open>Byte regions\<close>

text \<open>\<open>region off n xs\<close> are the \<open>n\<close> bytes from \<open>off\<close>; \<open>splice off ys xs\<close> is \<open>xs\<close> with
  \<open>ys\<close> stored at \<open>off\<close>, used where \<open>off + length ys \<le> length xs\<close>.\<close>

definition region :: "nat \<Rightarrow> nat \<Rightarrow> 'a list \<Rightarrow> 'a list" where
  "region off n xs = take n (drop off xs)"

definition overlay :: "nat \<Rightarrow> 'a list \<Rightarrow> 'a list \<Rightarrow> 'a list" where
  "overlay off ys xs = take off xs @ ys @ drop (off + length ys) xs"

lemma length_region [region_simps]: "off + n \<le> length xs \<Longrightarrow> length (region off n xs) = n"
  by (simp add: region_def)

lemma length_overlay [region_simps]:
  "off + length ys \<le> length xs \<Longrightarrow> length (overlay off ys xs) = length xs"
  by (simp add: overlay_def)

lemma nth_region [region_simps]: "off + n \<le> length xs \<Longrightarrow> i < n \<Longrightarrow> region off n xs ! i = xs ! (off + i)"
  by (simp add: region_def)

lemma nth_overlay:
  assumes "off + length ys \<le> length xs" and "i < length xs"
  shows "overlay off ys xs ! i =
    (if off \<le> i \<and> i < off + length ys then ys ! (i - off) else xs ! i)"
  using assms by (auto simp: overlay_def nth_append min_def)

lemma region_overlay_same [region_simps]:
  "off + length ys \<le> length xs \<Longrightarrow> n = length ys \<Longrightarrow> region off n (overlay off ys xs) = ys"
  by (simp add: region_def overlay_def)

lemma region_overlay_other:
  assumes "off + length ys \<le> length xs" and "off' + n \<le> length xs"
    and "off' + n \<le> off \<or> off + length ys \<le> off'"
  shows "region off' n (overlay off ys xs) = region off' n xs"
  using assms
  by (intro nth_equalityI)
    (auto simp: length_region length_overlay nth_region nth_overlay)

lemma overlay_region [region_simps]:
  "off + n \<le> length xs \<Longrightarrow> overlay off (region off n xs) xs = xs"
  by (intro nth_equalityI)
    (auto simp: length_region length_overlay nth_region nth_overlay)

lemma region_region [region_simps]:
  "off' + n' \<le> n \<Longrightarrow> region off' n' (region off n xs) = region (off + off') n' xs"
  by (simp add: region_def drop_take add.commute min_def)

text \<open>A write inside a region, seen from the region.\<close>

lemma region_overlay_inside:
  assumes "base + n \<le> length xs" and "off + length ys \<le> n"
  shows "region base n (overlay (base + off) ys xs) = overlay off ys (region base n xs)"
  using assms
  by (intro nth_equalityI)
    (auto simp: length_region length_overlay nth_region nth_overlay)

section \<open>Raw memory\<close>

text \<open>An allocation of the program, accessed through offsets: an access that leaves it is
  undefined behaviour.\<close>

type_synonym memory = "byte list"

definition mem_load :: "nat \<Rightarrow> nat \<Rightarrow> memory \<Rightarrow> byte list result" where
  "mem_load off n m =
     (if off + n \<le> length m then Inr (region off n m) else Inl (Undefined ''read outside the buffer''))"

definition mem_store :: "nat \<Rightarrow> byte list \<Rightarrow> memory \<Rightarrow> memory result" where
  "mem_store off bs m =
     (if off + length bs \<le> length m then Inr (overlay off bs m)
      else Inl (Undefined ''write outside the buffer''))"

lemma mem_load_inside [simp]: "off + n \<le> length m \<Longrightarrow> mem_load off n m = Inr (region off n m)"
  by (simp add: mem_load_def)

lemma mem_store_inside [simp]:
  "off + length bs \<le> length m \<Longrightarrow> mem_store off bs m = Inr (overlay off bs m)"
  by (simp add: mem_store_def)

lemma mem_store_length: "mem_store off bs m = Inr m' \<Longrightarrow> length m' = length m"
  by (auto simp: mem_store_def length_overlay split: if_splits)

end
