(* ===== verification/Clock_Cache.thy ===== *)
theory Clock_Cache
  imports Prelude
begin

text \<open>
  \<open>src/buffer_pool/clock_cache.h\<close>: the replacement policy of the frame pool. A table maps
  keys to buffer numbers, an array of descriptors holds for each buffer its key, a usage
  count and a lock; a cursor sweeps the array like a clock hand. \<open>put\<close> looks for an unlocked
  buffer with usage 0, taking one off every unlocked buffer it passes.

  The interface the frame pool relies on is the locale \<open>replacement_cache\<close>; it is
  interpreted here on the clock cache.
\<close>

section \<open>The cache\<close>

record 'k descriptor =
  tag :: 'k
  usage :: u64
  lock :: bool

record 'k clock_cache =
  buffer_table_layer :: "'k \<rightharpoonup> nat"
  buffer_descriptors_layer :: "'k descriptor list"
  capacity :: nat
  cursor :: nat

text \<open>The constructor; \<open>k0\<close> is the value-initialised key of a fresh descriptor.\<close>

definition cc_init :: "'k \<Rightarrow> nat \<Rightarrow> 'k clock_cache" where
  "cc_init k0 n = \<lparr>buffer_table_layer = Map.empty,
     buffer_descriptors_layer = replicate n \<lparr>tag = k0, usage = 0, lock = False\<rparr>,
     capacity = n, cursor = 0\<rparr>"

definition cc_increase :: "'k clock_cache \<Rightarrow> 'k clock_cache" where
  "cc_increase c =
     (let cur = cursor c + 1 in c\<lparr>cursor := if cur = capacity c then 0 else cur\<rparr>)"

definition cc_get :: "'k \<Rightarrow> 'k clock_cache \<Rightarrow> ((nat \<times> bool) \<times> 'k clock_cache) result" where
  "cc_get key c =
     (case buffer_table_layer c key of
        None \<Rightarrow> Inr ((0, False), c)
      | Some b \<Rightarrow>
          (let ds = buffer_descriptors_layer c in
           if b < length ds
           then Inr ((b, True), c\<lparr>buffer_descriptors_layer :=
                  ds[b := (ds ! b)\<lparr>usage := usage (ds ! b) + 1\<rparr>]\<rparr>)
           else Inl (Undefined ''buffer_descriptors_layer_[buf_id]'')))"

definition cc_age :: "'k clock_cache \<Rightarrow> 'k clock_cache" where
  "cc_age c =
     (let ds = buffer_descriptors_layer c; cur = cursor c in
      c\<lparr>buffer_descriptors_layer := ds[cur := (ds ! cur)\<lparr>usage := usage (ds ! cur) - 1\<rparr>]\<rparr>)"

text \<open>The loop of \<open>put\<close>: it stops at an unlocked descriptor with usage 0, and may not stop.\<close>

partial_function (option) cc_sweep :: "'k clock_cache \<Rightarrow> 'k clock_cache outcome" where
  "cc_sweep c =
     (let ds = buffer_descriptors_layer c; cur = cursor c in
      if \<not> cur < length ds then Some (Inl (Undefined ''buffer_descriptors_layer_[cursor_]''))
      else if lock (ds ! cur) then cc_sweep (cc_increase c)
      else if usage (ds ! cur) = 0 then Some (Inr c)
      else cc_sweep (cc_increase (cc_age c)))"

definition cc_put :: "'k \<Rightarrow> 'k clock_cache \<Rightarrow> (nat \<times> 'k clock_cache) outcome" where
  "cc_put key c =
     bindO (cc_sweep c) (\<lambda>c1.
       let ds = buffer_descriptors_layer c1; cur = cursor c1; old_key = tag (ds ! cur) in
       Some (Inr (cur, cc_increase (c1\<lparr>
         buffer_table_layer := ((buffer_table_layer c1)(old_key := None))(key \<mapsto> cur),
         buffer_descriptors_layer := ds[cur := (ds ! cur)\<lparr>tag := key, usage := 1\<rparr>]\<rparr>))))"

definition cc_lock :: "nat \<Rightarrow> 'k clock_cache \<Rightarrow> 'k clock_cache result" where
  "cc_lock i c =
     bindE (assertE (i < capacity c) ''index < capacity_'') (\<lambda>_.
       let ds = buffer_descriptors_layer c in
       Inr (c\<lparr>buffer_descriptors_layer := ds[i := (ds ! i)\<lparr>lock := True\<rparr>]\<rparr>))"

definition cc_unlock :: "nat \<Rightarrow> 'k clock_cache \<Rightarrow> 'k clock_cache result" where
  "cc_unlock i c =
     bindE (assertE (i < capacity c) ''index < capacity_'') (\<lambda>_.
       let ds = buffer_descriptors_layer c in
       Inr (c\<lparr>buffer_descriptors_layer := ds[i := (ds ! i)\<lparr>lock := False\<rparr>]\<rparr>))"

section \<open>What holds between calls\<close>

definition cc_shape :: "'k clock_cache \<Rightarrow> bool" where
  "cc_shape c \<longleftrightarrow> length (buffer_descriptors_layer c) = capacity c \<and> cursor c < capacity c"

text \<open>Table and tags agree, except on the key \<open>k0\<close> that fresh descriptors carry without
  being in the table: it must never be cached.\<close>

definition cc_inv :: "'k \<Rightarrow> 'k clock_cache \<Rightarrow> bool" where
  "cc_inv k0 c \<longleftrightarrow> cc_shape c \<and> buffer_table_layer c k0 = None \<and>
     (\<forall>k i. k \<noteq> k0 \<longrightarrow> (buffer_table_layer c k = Some i \<longleftrightarrow>
        i < capacity c \<and> tag (buffer_descriptors_layer c ! i) = k))"

definition cc_locked :: "'k clock_cache \<Rightarrow> nat \<Rightarrow> bool" where
  "cc_locked c i \<longleftrightarrow> i < capacity c \<and> lock (buffer_descriptors_layer c ! i)"

text \<open>What the sweep may change: usage counts of unlocked descriptors, and the cursor.\<close>

definition swept :: "'k descriptor \<Rightarrow> 'k descriptor \<Rightarrow> bool" where
  "swept d d' \<longleftrightarrow> tag d' = tag d \<and> lock d' = lock d \<and> (lock d \<longrightarrow> d' = d)"

definition cc_swept :: "'k clock_cache \<Rightarrow> 'k clock_cache \<Rightarrow> bool" where
  "cc_swept c c' \<longleftrightarrow> buffer_table_layer c' = buffer_table_layer c \<and> capacity c' = capacity c \<and>
     list_all2 swept (buffer_descriptors_layer c) (buffer_descriptors_layer c')"

definition cc_work :: "'k clock_cache \<Rightarrow> nat" where
  "cc_work c = sum_list (map (unat \<circ> usage) (buffer_descriptors_layer c))"

lemma cc_shape_init: "0 < n \<Longrightarrow> cc_shape (cc_init k0 n)"
  by (simp add: cc_shape_def cc_init_def)

lemma cc_inv_init: "0 < n \<Longrightarrow> cc_inv k0 (cc_init k0 n)"
  using cc_shape_init [of n k0] by (auto simp: cc_inv_def cc_init_def)

lemma cc_increase_simps [simp]:
  "buffer_table_layer (cc_increase c) = buffer_table_layer c"
  "buffer_descriptors_layer (cc_increase c) = buffer_descriptors_layer c"
  "capacity (cc_increase c) = capacity c"
  by (simp_all add: cc_increase_def Let_def)

lemma cursor_increase: "cursor c < capacity c \<Longrightarrow> cursor (cc_increase c) = (cursor c + 1) mod capacity c"
  by (auto simp: cc_increase_def Let_def)

lemma cc_shape_increase: "cc_shape c \<Longrightarrow> cc_shape (cc_increase c)"
  by (auto simp: cc_shape_def cursor_increase)

lemma swept_refl: "swept d d"
  by (simp add: swept_def)

lemma swept_trans: "swept a b \<Longrightarrow> swept b c \<Longrightarrow> swept a c"
  by (auto simp: swept_def)

lemma cc_swept_refl: "cc_swept c c"
  by (simp add: cc_swept_def list_all2_refl swept_refl)

lemma cc_swept_trans: "cc_swept a b \<Longrightarrow> cc_swept b c \<Longrightarrow> cc_swept a c"
  unfolding cc_swept_def using list_all2_trans [of swept swept swept, OF swept_trans] by fastforce

lemma cc_swept_increase: "cc_swept c (cc_increase c)"
  by (simp add: cc_swept_def list_all2_refl swept_refl)

lemma cc_swept_nth:
  assumes "cc_swept c c'" and "i < length (buffer_descriptors_layer c)"
  shows "swept (buffer_descriptors_layer c ! i) (buffer_descriptors_layer c' ! i)"
  using assms by (simp add: cc_swept_def list_all2_nthD)

lemma cc_swept_shape: "cc_swept c c' \<Longrightarrow> cc_shape c \<Longrightarrow> cursor c' < capacity c \<Longrightarrow> cc_shape c'"
  by (auto simp: cc_swept_def cc_shape_def dest: list_all2_lengthD)

lemma cc_age_simps [simp]:
  "buffer_table_layer (cc_age c) = buffer_table_layer c"
  "length (buffer_descriptors_layer (cc_age c)) = length (buffer_descriptors_layer c)"
  "capacity (cc_age c) = capacity c"
  "cursor (cc_age c) = cursor c"
  by (simp_all add: cc_age_def Let_def)

lemma cc_shape_age: "cc_shape c \<Longrightarrow> cc_shape (cc_age c)"
  by (simp add: cc_shape_def)

lemma lock_age:
  "i < length (buffer_descriptors_layer c) \<Longrightarrow>
    lock (buffer_descriptors_layer (cc_age c) ! i) = lock (buffer_descriptors_layer c ! i)"
  by (cases "cursor c = i") (simp_all add: cc_age_def Let_def)

lemma cc_swept_age:
  assumes "cc_shape c" and "\<not> lock (buffer_descriptors_layer c ! cursor c)"
  shows "cc_swept c (cc_increase (cc_age c))"
  using assms
  by (auto simp: cc_swept_def list_all2_conv_all_nth cc_age_def Let_def nth_list_update swept_def
      cc_shape_def)

lemma sum_list_update_less:
  fixes xs :: "nat list"
  assumes "i < length xs" and "y < xs ! i"
  shows "sum_list (xs[i := y]) < sum_list xs"
  using assms
proof (induction xs arbitrary: i)
  case (Cons x xs)
  then show ?case by (cases i) auto
qed simp

lemma cc_work_age:
  assumes "cc_shape c" and "usage (buffer_descriptors_layer c ! cursor c) \<noteq> 0"
  shows "cc_work (cc_increase (cc_age c)) < cc_work c"
proof -
  let ?u = "usage (buffer_descriptors_layer c ! cursor c)"
  from assms(2) have "unat (?u - 1) < unat ?u"
    by (simp add: unat_minus_one unat_gt_0)
  with assms(1) show ?thesis
    by (simp add: cc_work_def cc_age_def Let_def map_update sum_list_update_less cc_shape_def)
qed

section \<open>The sweep\<close>

text \<open>With an unlocked descriptor the sweep ends: each full turn takes one off a usage count
  (outer induction on the counts), and within a turn the distance to the unlocked
  descriptor shrinks (inner induction).\<close>

lemma cc_sweep_unfold:
  assumes "cc_shape c"
  shows "cc_sweep c =
    (if lock (buffer_descriptors_layer c ! cursor c) then cc_sweep (cc_increase c)
     else if usage (buffer_descriptors_layer c ! cursor c) = 0 then Some (Inr c)
     else cc_sweep (cc_increase (cc_age c)))"
  using assms by (subst cc_sweep.simps) (simp add: cc_shape_def Let_def)

lemma cc_sweep_near:
  fixes c :: "'k clock_cache"
  assumes outer: "\<And>c' :: 'k clock_cache. cc_work c' < w \<Longrightarrow> cc_shape c' \<Longrightarrow> j < capacity c' \<Longrightarrow>
      \<not> lock (buffer_descriptors_layer c' ! j) \<Longrightarrow>
      \<exists>r. cc_sweep c' = Some (Inr r)"
    and "cc_work c = w" and "cc_shape c" and "j = (cursor c + d) mod capacity c"
    and "\<not> lock (buffer_descriptors_layer c ! j)"
  shows "\<exists>r. cc_sweep c = Some (Inr r)"
  using assms(2-)
proof (induction d arbitrary: c)
  case (0 c)
  then have j: "j < capacity c" "cursor c = j" "j < length (buffer_descriptors_layer c)"
    by (auto simp: cc_shape_def)
  with 0 show ?case
    using outer [of "cc_increase (cc_age c)"] cc_work_age [of c]
    by (auto simp: cc_sweep_unfold cc_shape_increase cc_shape_age lock_age)
next
  case (Suc d c)
  then have j: "j < capacity c" "j < length (buffer_descriptors_layer c)"
    by (auto simp: cc_shape_def)
  have pass: "\<exists>r. cc_sweep (cc_increase c) = Some (Inr r)"
  proof (rule Suc.IH)
    show "cc_work (cc_increase c) = w" using Suc.prems(1) by (simp add: cc_work_def)
    show "cc_shape (cc_increase c)" using Suc.prems(2) by (rule cc_shape_increase)
    show "j = (cursor (cc_increase c) + d) mod capacity (cc_increase c)"
      using Suc.prems(2,3) by (simp add: cc_shape_def cursor_increase mod_simps)
    show "\<not> lock (buffer_descriptors_layer (cc_increase c) ! j)" using Suc.prems(4) by simp
  qed
  have "\<exists>r. cc_sweep (cc_increase (cc_age c)) = Some (Inr r)"
    if "usage (buffer_descriptors_layer c ! cursor c) \<noteq> 0"
    using outer [of "cc_increase (cc_age c)"] that Suc.prems(1,2,4) j cc_work_age [of c]
    by (simp add: cc_shape_increase cc_shape_age lock_age)
  with pass Suc.prems(2) show ?case by (simp add: cc_sweep_unfold)
qed

lemma cc_sweep_ends:
  assumes "cc_shape c" and "j < capacity c" and "\<not> lock (buffer_descriptors_layer c ! j)"
  shows "\<exists>r. cc_sweep c = Some (Inr r)"
  using assms
proof (induction "cc_work c" arbitrary: c rule: less_induct)
  case less
  have "j = (cursor c + (capacity c - cursor c + j)) mod capacity c"
    using less.prems by (simp add: cc_shape_def)
  then show ?case
    using less.hyps less.prems by (rule_tac cc_sweep_near [OF _ refl])
qed

text \<open>Partial correctness: where it ends, and what it leaves alone.\<close>

definition sweep_done :: "'k clock_cache \<Rightarrow> 'k clock_cache result \<Rightarrow> bool" where
  "sweep_done c r \<longleftrightarrow> (\<exists>c'. r = Inr c' \<and> cc_swept c c' \<and> cursor c' < capacity c \<and>
    \<not> lock (buffer_descriptors_layer c' ! cursor c') \<and>
    usage (buffer_descriptors_layer c' ! cursor c') = 0)"

lemma sweep_done_step:
  assumes "cc_swept c c1" and "sweep_done c1 r"
  shows "sweep_done c r"
proof -
  have "capacity c1 = capacity c" using assms(1) by (simp add: cc_swept_def)
  with assms(2) cc_swept_trans [OF assms(1)] show ?thesis by (auto simp: sweep_done_def)
qed

lemma cc_sweep_result:
  assumes "cc_sweep c = Some r" and "cc_shape c"
  shows "sweep_done c r"
proof -
  have "cc_shape c \<longrightarrow> sweep_done c r"
  proof (rule cc_sweep.raw_induct [OF _ assms(1), where P = "\<lambda>c r. cc_shape c \<longrightarrow> sweep_done c r"],
      intro impI)
    fix f c r
    assume IH: "\<And>c r. f c = Some r \<Longrightarrow> cc_shape c \<longrightarrow> sweep_done c r"
      and step: "(let ds = buffer_descriptors_layer c; cur = cursor c in
        if \<not> cur < length ds then Some (Inl (Undefined ''buffer_descriptors_layer_[cursor_]''))
        else if lock (ds ! cur) then f (cc_increase c)
        else if usage (ds ! cur) = 0 then Some (Inr c)
        else f (cc_increase (cc_age c))) = Some r"
      and sh: "cc_shape c"
    from sh have cur: "cursor c < length (buffer_descriptors_layer c)" "cursor c < capacity c"
      by (auto simp: cc_shape_def)
    show "sweep_done c r"
    proof (cases "lock (buffer_descriptors_layer c ! cursor c)")
      case True
      with step cur have "f (cc_increase c) = Some r" by (simp add: Let_def)
      with IH sh show ?thesis
        by (meson cc_shape_increase cc_swept_increase sweep_done_step)
    next
      case unlocked: False
      show ?thesis
      proof (cases "usage (buffer_descriptors_layer c ! cursor c) = 0")
        case True
        with step cur unlocked have "r = Inr c" by (simp add: Let_def)
        with cur unlocked True show ?thesis by (simp add: sweep_done_def cc_swept_refl)
      next
        case False
        with step cur unlocked have "f (cc_increase (cc_age c)) = Some r" by (simp add: Let_def)
        with IH sh unlocked show ?thesis
          by (meson cc_shape_age cc_shape_increase cc_swept_age sweep_done_step)
      qed
    qed
  qed
  with assms(2) show ?thesis by blast
qed

lemma cc_sweep_all_locked:
  assumes "cc_shape c" and "\<forall>i < capacity c. lock (buffer_descriptors_layer c ! i)"
  shows "cc_sweep c = None"
proof (cases "cc_sweep c")
  case (Some r)
  from cc_sweep_result [OF Some assms(1)] obtain c' where
    "cc_swept c c'" "cursor c' < capacity c" "\<not> lock (buffer_descriptors_layer c' ! cursor c')"
    by (auto simp: sweep_done_def)
  with assms show ?thesis using cc_swept_nth [of c c' "cursor c'"]
    by (auto simp: cc_shape_def swept_def)
qed

section \<open>The operations under the invariant\<close>

lemma cc_locked_swept:
  assumes "cc_swept c c'" and "cc_shape c"
  shows "cc_locked c' i = cc_locked c i"
  using cc_swept_nth [OF assms(1), of i] assms
  by (auto simp: cc_locked_def cc_shape_def swept_def cc_swept_def)

lemma cc_inv_swept:
  assumes "cc_inv k0 c" and "cc_swept c c'" and "cursor c' < capacity c"
  shows "cc_inv k0 c'"
proof -
  have "tag (buffer_descriptors_layer c' ! i) = tag (buffer_descriptors_layer c ! i)"
    if "i < capacity c" for i
    using cc_swept_nth [OF assms(2), of i] assms(1) that
    by (simp add: cc_inv_def cc_shape_def swept_def)
  with assms cc_swept_shape [OF assms(2)] show ?thesis
    by (auto simp: cc_inv_def cc_swept_def)
qed

lemma cc_inv_shape: "cc_inv k0 c \<Longrightarrow> cc_shape c"
  by (simp add: cc_inv_def)

lemma cc_lookup_bound: "cc_inv k0 c \<Longrightarrow> buffer_table_layer c k = Some i \<Longrightarrow> i < capacity c"
  by (cases "k = k0") (auto simp: cc_inv_def)

lemma cc_lookup_inj:
  assumes "cc_inv k0 c" and "buffer_table_layer c k = Some i" and "buffer_table_layer c k' = Some i"
  shows "k = k'"
proof -
  have "k \<noteq> k0" and "k' \<noteq> k0" using assms by (auto simp: cc_inv_def)
  with assms show ?thesis by (auto simp: cc_inv_def)
qed

text \<open>Installing a key in an unlocked descriptor: the write part of \<open>put\<close>.\<close>

definition cc_install :: "'k \<Rightarrow> 'k clock_cache \<Rightarrow> 'k clock_cache" where
  "cc_install key c = c\<lparr>
     buffer_table_layer := ((buffer_table_layer c)
       (tag (buffer_descriptors_layer c ! cursor c) := None))(key \<mapsto> cursor c),
     buffer_descriptors_layer := (buffer_descriptors_layer c)
       [cursor c := (buffer_descriptors_layer c ! cursor c)\<lparr>tag := key, usage := 1\<rparr>]\<rparr>"

lemma cc_put_install:
  "cc_put key c = bindO (cc_sweep c) (\<lambda>c1. Some (Inr (cursor c1, cc_increase (cc_install key c1))))"
  by (simp add: cc_put_def cc_install_def Let_def)

lemma cc_install_shape: "cc_shape c \<Longrightarrow> cc_shape (cc_install key c)"
  by (simp add: cc_install_def cc_shape_def)

lemma cc_install_locked: "cc_shape c \<Longrightarrow> cc_locked (cc_install key c) = cc_locked c"
  by (auto simp: cc_install_def cc_locked_def cc_shape_def nth_list_update fun_eq_iff)

lemma cc_install_table:
  assumes "cc_inv k0 c" and "buffer_table_layer c key = None"
  shows "buffer_table_layer (cc_install key c) = (\<lambda>k. if k = key then Some (cursor c)
    else if buffer_table_layer c k = Some (cursor c) then None else buffer_table_layer c k)"
proof (rule ext)
  fix k
  let ?t = "tag (buffer_descriptors_layer c ! cursor c)"
  have "buffer_table_layer c k = Some (cursor c) \<longleftrightarrow> k = ?t \<and> ?t \<noteq> k0"
    using assms by (cases "k = k0") (auto simp: cc_inv_def cc_shape_def)
  moreover have "?t = k0 \<Longrightarrow> buffer_table_layer c ?t = None"
    using assms by (simp add: cc_inv_def)
  ultimately show "buffer_table_layer (cc_install key c) k = (if k = key then Some (cursor c)
    else if buffer_table_layer c k = Some (cursor c) then None else buffer_table_layer c k)"
    by (auto simp: cc_install_def)
qed

lemma cc_install_inv:
  assumes inv: "cc_inv k0 c" and "buffer_table_layer c key = None" and "key \<noteq> k0"
  shows "cc_inv k0 (cc_install key c)"
  unfolding cc_inv_def
proof (intro conjI allI impI)
  show "cc_shape (cc_install key c)" using inv by (simp add: cc_inv_def cc_install_shape)
  show "buffer_table_layer (cc_install key c) k0 = None"
    using assms by (simp add: cc_install_table) (simp add: cc_inv_def)
  fix k i assume k: "k \<noteq> k0"
  then have old: "buffer_table_layer c k = Some i \<longleftrightarrow>
      i < capacity c \<and> tag (buffer_descriptors_layer c ! i) = k"
    using inv by (simp add: cc_inv_def)
  have tags: "tag (buffer_descriptors_layer (cc_install key c) ! i) =
      (if i = cursor c then key else tag (buffer_descriptors_layer c ! i))"
    using inv by (auto simp: cc_inv_def cc_shape_def cc_install_def nth_list_update)
  have cap: "capacity (cc_install key c) = capacity c" by (simp add: cc_install_def)
  have cur: "cursor c < capacity c" using inv by (simp add: cc_inv_def cc_shape_def)
  have at_cur: "buffer_table_layer c k = Some (cursor c) \<longleftrightarrow>
      tag (buffer_descriptors_layer c ! cursor c) = k"
    using inv k cur by (simp add: cc_inv_def)
  show "buffer_table_layer (cc_install key c) k = Some i \<longleftrightarrow>
      i < capacity (cc_install key c) \<and> tag (buffer_descriptors_layer (cc_install key c) ! i) = k"
    using old tags cap cur assms(2) at_cur
    by (auto simp: cc_install_table [OF inv assms(2)])
qed

lemma cc_inv_increase: "cc_inv k0 c \<Longrightarrow> cc_inv k0 (cc_increase c)"
  by (simp add: cc_inv_def cc_shape_increase)

lemma cc_put_works:
  assumes inv: "cc_inv k0 c" and key: "key \<noteq> k0" "buffer_table_layer c key = None"
    and free: "j < capacity c" "\<not> cc_locked c j"
  shows "\<exists>i c'. cc_put key c = Some (Inr (i, c')) \<and> i < capacity c \<and> \<not> cc_locked c i \<and>
    cc_inv k0 c' \<and> capacity c' = capacity c \<and> cc_locked c' = cc_locked c \<and>
    buffer_table_layer c' = (\<lambda>k. if k = key then Some i
      else if buffer_table_layer c k = Some i then None else buffer_table_layer c k)"
proof -
  have sh: "cc_shape c" using inv by (rule cc_inv_shape)
  obtain c1 where c1: "cc_sweep c = Some (Inr c1)"
    using cc_sweep_ends [OF sh free(1)] free by (auto simp: cc_locked_def)
  from cc_sweep_result [OF c1 sh] have sw: "cc_swept c c1" "cursor c1 < capacity c"
      "\<not> lock (buffer_descriptors_layer c1 ! cursor c1)"
    by (auto simp: sweep_done_def)
  have inv1: "cc_inv k0 c1" using inv sw(1,2) by (rule cc_inv_swept)
  have same: "buffer_table_layer c1 = buffer_table_layer c" "capacity c1 = capacity c"
    using sw(1) by (auto simp: cc_swept_def)
  have locked: "cc_locked c1 = cc_locked c" using cc_locked_swept [OF sw(1) sh] by blast
  with sw(3) have "\<not> cc_locked c (cursor c1)" by (metis cc_locked_def)
  moreover have "cc_locked (cc_increase (cc_install key c1)) = cc_locked c"
    using cc_install_locked [OF cc_inv_shape [OF inv1], of key] locked
    by (simp add: cc_locked_def fun_eq_iff)
  moreover have "cc_inv k0 (cc_increase (cc_install key c1))"
    using inv1 key same by (intro cc_inv_increase cc_install_inv) simp_all
  moreover have table: "buffer_table_layer (cc_install key c1) = (\<lambda>k. if k = key then Some (cursor c1)
      else if buffer_table_layer c k = Some (cursor c1) then None else buffer_table_layer c k)"
    using cc_install_table [OF inv1, of key] key(2) unfolding same by simp
  moreover have cap: "capacity (cc_install key c1) = capacity c"
    using same by (simp add: cc_install_def)
  ultimately show ?thesis
    using c1 sw(2)
    by (intro exI [of _ "cursor c1"] exI [of _ "cc_increase (cc_install key c1)"])
      (simp add: cc_put_install table cap)
qed

lemma cc_get_works:
  assumes "cc_inv k0 c" and "buffer_table_layer c key = Some i"
  shows "\<exists>c'. cc_get key c = Inr ((i, True), c') \<and> cc_inv k0 c' \<and> capacity c' = capacity c \<and>
    cc_locked c' = cc_locked c \<and> buffer_table_layer c' = buffer_table_layer c"
proof -
  have i: "i < length (buffer_descriptors_layer c)"
    using assms cc_lookup_bound by (metis cc_inv_def cc_shape_def)
  with assms show ?thesis
    by (auto simp: cc_get_def Let_def cc_inv_def cc_shape_def cc_locked_def nth_list_update fun_eq_iff
        split: if_splits)
qed

lemma cc_lock_works:
  assumes "cc_inv k0 c" and "i < capacity c"
  shows "\<exists>c'. cc_lock i c = Inr c' \<and> cc_inv k0 c' \<and> capacity c' = capacity c \<and>
    cc_locked c' = (cc_locked c)(i := True) \<and> buffer_table_layer c' = buffer_table_layer c"
  using assms
  by (auto simp: cc_lock_def Let_def cc_inv_def cc_shape_def cc_locked_def nth_list_update fun_eq_iff)

lemma cc_unlock_works:
  assumes "cc_inv k0 c" and "i < capacity c"
  shows "\<exists>c'. cc_unlock i c = Inr c' \<and> cc_inv k0 c' \<and> capacity c' = capacity c \<and>
    cc_locked c' = (cc_locked c)(i := False) \<and> buffer_table_layer c' = buffer_table_layer c"
  using assms
  by (auto simp: cc_unlock_def Let_def cc_inv_def cc_shape_def cc_locked_def nth_list_update fun_eq_iff)

section \<open>The interface the frame pool relies on\<close>

text \<open>A cache of at most \<open>size_of c\<close> keys in numbered buffers, some of them pinned: \<open>get\<close> finds
  the buffer of a cached key, \<open>put\<close> gives a new key the buffer of an unpinned one, and
  returns as soon as there is an unpinned buffer.\<close>

locale replacement_cache =
  fixes cached :: "'c \<Rightarrow> 'k \<Rightarrow> nat option"
    and size_of :: "'c \<Rightarrow> nat"
    and pinned :: "'c \<Rightarrow> nat \<Rightarrow> bool"
    and wf :: "'c \<Rightarrow> bool"
    and key_ok :: "'k \<Rightarrow> bool"
    and get_op :: "'k \<Rightarrow> 'c \<Rightarrow> ((nat \<times> bool) \<times> 'c) result"
    and put_op :: "'k \<Rightarrow> 'c \<Rightarrow> (nat \<times> 'c) outcome"
    and lock_op :: "nat \<Rightarrow> 'c \<Rightarrow> 'c result"
    and unlock_op :: "nat \<Rightarrow> 'c \<Rightarrow> 'c result"
  assumes bound: "wf c \<Longrightarrow> cached c k = Some i \<Longrightarrow> i < size_of c"
    and one_key: "wf c \<Longrightarrow> cached c k = Some i \<Longrightarrow> cached c k' = Some i \<Longrightarrow> k = k'"
    and get_miss: "cached c k = None \<Longrightarrow> get_op k c = Inr ((0, False), c)"
    and get_hit: "wf c \<Longrightarrow> cached c k = Some i \<Longrightarrow>
      \<exists>c'. get_op k c = Inr ((i, True), c') \<and> wf c' \<and> size_of c' = size_of c \<and>
        pinned c' = pinned c \<and> cached c' = cached c"
    and put_new: "wf c \<Longrightarrow> key_ok k \<Longrightarrow> cached c k = None \<Longrightarrow> j < size_of c \<Longrightarrow> \<not> pinned c j \<Longrightarrow>
      \<exists>i c'. put_op k c = Some (Inr (i, c')) \<and> i < size_of c \<and> \<not> pinned c i \<and>
        wf c' \<and> size_of c' = size_of c \<and> pinned c' = pinned c \<and>
        cached c' = (\<lambda>k'. if k' = k then Some i
          else if cached c k' = Some i then None else cached c k')"
    and lock_pins: "wf c \<Longrightarrow> i < size_of c \<Longrightarrow> \<exists>c'. lock_op i c = Inr c' \<and> wf c' \<and>
        size_of c' = size_of c \<and> pinned c' = (pinned c)(i := True) \<and> cached c' = cached c"
    and unlock_unpins: "wf c \<Longrightarrow> i < size_of c \<Longrightarrow> \<exists>c'. unlock_op i c = Inr c' \<and> wf c' \<and>
        size_of c' = size_of c \<and> pinned c' = (pinned c)(i := False) \<and> cached c' = cached c"
begin

text \<open>A pinned buffer keeps its key when another key is cached.\<close>

lemma put_keeps_pinned:
  assumes "wf c" and "key_ok k" and "cached c k = None" and "j < size_of c" and "\<not> pinned c j"
    and "put_op k c = Some (Inr (i, c'))" and "pinned c b" and "cached c k' = Some b"
  shows "cached c' k' = Some b"
  using put_new [OF assms(1-5)] assms(3,6-8) by auto

text \<open>Looking a key up and, where it is missing, caching it: the key then has a buffer, and no
  pinned buffer changed hands.\<close>

lemma get_or_put:
  assumes "wf c" and "key_ok k" and "j < size_of c" and "\<not> pinned c j"
  obtains (hit) i c' where "cached c k = Some i" and "get_op k c = Inr ((i, True), c')"
      and "wf c'" and "size_of c' = size_of c" and "pinned c' = pinned c" and "cached c' = cached c"
    | (miss) i c' where "cached c k = None" and "get_op k c = Inr ((0, False), c)"
      and "put_op k c = Some (Inr (i, c'))" and "i < size_of c" and "\<not> pinned c i"
      and "wf c'" and "size_of c' = size_of c" and "pinned c' = pinned c"
      and "cached c' = (\<lambda>k'. if k' = k then Some i
          else if cached c k' = Some i then None else cached c k')"
  using get_hit [OF assms(1)] get_miss put_new [OF assms(1,2) _ assms(3,4)]
  by (cases "cached c k") (blast, blast)

end

interpretation cc: replacement_cache buffer_table_layer capacity cc_locked "cc_inv k0" "\<lambda>k. k \<noteq> k0"
    cc_get cc_put cc_lock cc_unlock
  for k0 :: 'k
proof unfold_locales
  show "cc_get k c = Inr ((0, False), c)" if "buffer_table_layer c k = None" for k and c :: "'k clock_cache"
    using that by (simp add: cc_get_def)
qed (auto intro: cc_lookup_bound cc_lookup_inj cc_get_works cc_put_works cc_lock_works cc_unlock_works)

section \<open>Properties\<close>

text \<open>C23. \<open>put\<close> comes back exactly when some buffer is unlocked: with every frame pinned its loop
  turns for ever, otherwise it ends whatever the usage counts are.\<close>

theorem cc_put_returns_iff:
  assumes "cc_shape c"
  shows "(\<exists>r. cc_put key c = Some r) \<longleftrightarrow> (\<exists>i < capacity c. \<not> cc_locked c i)"
proof (cases "\<exists>i < capacity c. \<not> cc_locked c i")
  case True
  then obtain j where "j < capacity c" and "\<not> lock (buffer_descriptors_layer c ! j)"
    by (auto simp: cc_locked_def)
  with cc_sweep_ends [OF assms] have "\<exists>r. cc_sweep c = Some (Inr r)" by blast
  with True show ?thesis by (auto simp: cc_put_install)
next
  case False
  then have "cc_sweep c = None"
    using assms by (intro cc_sweep_all_locked) (auto simp: cc_locked_def)
  with False show ?thesis by (simp add: cc_put_install)
qed

theorem cc_put_returns_iff_witness:
  "(\<exists>r. cc_put (7::nat) (cc_init 0 2) = Some r)"
proof -
  have "cc_shape (cc_init (0::nat) 2)" by (simp add: cc_shape_def cc_init_def)
  moreover have "\<exists>i < capacity (cc_init (0::nat) 2). \<not> cc_locked (cc_init 0 2) i"
    by (rule exI [of _ 0]) (simp add: cc_locked_def cc_init_def)
  ultimately show ?thesis by (rule cc_put_returns_iff [THEN iffD2])
qed

text \<open>C17. Under the invariant of the cache, \<open>put\<close> of a new key takes the buffer of an unlocked
  descriptor, maps the key to it, forgets exactly the key that buffer held, leaves every lock
  as it is and keeps the invariant that table and descriptors agree.\<close>

theorem cc_put_evicts_one_unlocked:
  assumes "cc_inv k0 c" and "key \<noteq> k0" and "buffer_table_layer c key = None"
    and "cc_put key c = Some (Inr (i, c'))"
  shows "i < capacity c \<and> \<not> cc_locked c i \<and> cc_locked c' = cc_locked c \<and> cc_inv k0 c' \<and>
    buffer_table_layer c' key = Some i \<and>
    (\<forall>k. k \<noteq> key \<longrightarrow> buffer_table_layer c' k =
      (if buffer_table_layer c k = Some i then None else buffer_table_layer c k))"
proof -
  have "cc_shape c" using assms(1) by (rule cc_inv_shape)
  moreover have "cc_sweep c \<noteq> None" using assms(4) by (auto simp: cc_put_install result_simps)
  ultimately obtain j where "j < capacity c" and "\<not> cc_locked c j"
    using cc_sweep_all_locked by (force simp: cc_locked_def)
  from cc.put_new [OF assms(1-3) this] assms(4) show ?thesis by auto
qed

theorem cc_put_evicts_one_unlocked_witness:
  "\<exists>i c'. cc_put (7::nat) (cc_init 0 2) = Some (Inr (i, c')) \<and> buffer_table_layer c' 7 = Some i"
proof -
  have inv: "cc_inv (0::nat) (cc_init 0 2)" by (rule cc_inv_init) simp
  have "\<exists>i c'. cc_put (7::nat) (cc_init 0 2) = Some (Inr (i, c'))"
    using cc_put_works [OF inv, of 7 0] by (auto simp: cc_init_def cc_locked_def)
  then obtain i c' where "cc_put (7::nat) (cc_init 0 2) = Some (Inr (i, c'))" by blast
  with cc_put_evicts_one_unlocked [OF inv _ _ this] show ?thesis by (auto simp: cc_init_def)
qed

text \<open>Caching a key in a buffer that never held one erases the value-initialised key from the table,
  wherever that key is cached.\<close>

lemma cc_put_fresh:
  assumes "cc_shape c" and "buffer_descriptors_layer c ! cursor c = \<lparr>tag = k0, usage = 0, lock = False\<rparr>"
  shows "cc_put key c = Some (Inr (cursor c, cc_increase (c\<lparr>
    buffer_table_layer := ((buffer_table_layer c)(k0 := None))(key \<mapsto> cursor c),
    buffer_descriptors_layer := (buffer_descriptors_layer c)[cursor c := \<lparr>tag = key, usage = 1, lock = False\<rparr>]\<rparr>)))"
proof -
  have "cc_sweep c = Some (Inr c)" using assms by (simp add: cc_sweep_unfold)
  then show ?thesis using assms(2) by (simp add: cc_put_def Let_def)
qed

text \<open>C40. A key equal to the value-initialised key of a fresh descriptor (page 0 of descriptor 0
  for the frame pool) is lost: in a fresh cache of any size above 1, whatever the type of its keys, it is found when
  it was cached, and caching any second key erases it from the table although its buffer, which was not
  given away, still carries it.\<close>

theorem cc_default_key_is_lost:
  assumes "1 < n" and "key \<noteq> k0"
  shows "\<exists>c1 c2. cc_put k0 (cc_init k0 n) = Some (Inr (0, c1)) \<and> (\<exists>c. cc_get k0 c1 = Inr ((0, True), c)) \<and>
    cc_put key c1 = Some (Inr (1, c2)) \<and> (\<exists>c. cc_get key c2 = Inr ((1, True), c)) \<and>
    tag (buffer_descriptors_layer c2 ! 0) = k0 \<and> cc_get k0 c2 = Inr ((0, False), c2)"
proof -
  let ?fresh = "\<lparr>tag = k0, usage = 0, lock = False\<rparr>"
  have "cc_shape (cc_init k0 n)" using assms(1) by (intro cc_shape_init) simp
  moreover have "buffer_descriptors_layer (cc_init k0 n) ! cursor (cc_init k0 n) = ?fresh" using assms(1) by (simp add: cc_init_def)
  ultimately obtain c1 where c1: "cc_put k0 (cc_init k0 n) = Some (Inr (0, c1))"
      "buffer_table_layer c1 = [k0 \<mapsto> 0]" "cursor c1 = 1" "capacity c1 = n"
      "buffer_descriptors_layer c1 = (replicate n ?fresh)[0 := \<lparr>tag = k0, usage = 1, lock = False\<rparr>]"
    using cc_put_fresh [of "cc_init k0 n" k0 k0] assms(1) by (simp add: cc_increase_def Let_def) (simp add: cc_init_def)
  have "cc_shape c1" "buffer_descriptors_layer c1 ! cursor c1 = ?fresh" using c1(3-5) assms(1) by (simp_all add: cc_shape_def)
  from cc_put_fresh [OF this, of key] obtain c2 where c2: "cc_put key c1 = Some (Inr (1, c2))"
      "buffer_table_layer c2 = [key \<mapsto> 1]"
      "buffer_descriptors_layer c2 = (buffer_descriptors_layer c1)[1 := \<lparr>tag = key, usage = 1, lock = False\<rparr>]"
    using c1(2,3) by simp
  have "\<exists>c. cc_get k0 c1 = Inr ((0, True), c)" "\<exists>c. cc_get key c2 = Inr ((1, True), c)" "cc_get k0 c2 = Inr ((0, False), c2)"
    using c1(2,5) c2(2,3) assms by (simp_all add: cc_get_def Let_def)
  moreover have "tag (buffer_descriptors_layer c2 ! 0) = k0" using c1(5) c2(3) assms(1) by simp
  ultimately show ?thesis using c1(1) c2(1) by blast
qed

theorem cc_default_key_is_lost_witness:
  "\<exists>c1 c2. cc_put (0::nat) (cc_init 0 2) = Some (Inr (0, c1)) \<and> cc_put 7 c1 = Some (Inr (1, c2)) \<and>
    cc_get 0 c2 = Inr ((0, False), c2)"
  using cc_default_key_is_lost [of 2 "7::nat" 0] by auto

end
