(* ===== verification/Page_File.thy ===== *)
theory Page_File
  imports Prelude
begin

text \<open>
  \<open>src/buffer_pool/file.{h,cpp}\<close>: a file of pages of \<open>PageSize\<close> bytes behind a descriptor.
  The system calls it makes are modelled on regular files as POSIX describes them: a directory
  names byte sequences, \<open>open\<close> hands out a descriptor not in use (a counter: the numbers of closed
  files are not handed out again), \<open>pread\<close> comes back short at the end of the file,
  and \<open>fallocate\<close> fails when the device has no room. Page offsets are computed modulo
  \<open>2 ^ 64\<close> and passed as a signed 64-bit offset, as in the code.

  A \<open>File\<close> object is identified by its descriptor; its own field is the size it has seen
  or allocated. The interface its users rely on is the locale \<open>block_device\<close>.
\<close>

section \<open>The operating system's files\<close>

definition PageSize :: nat where
  "PageSize = 4096"

record world =
  w_dir :: "string \<Rightarrow> nat option"
  w_bytes :: "nat \<Rightarrow> byte list"
  w_open :: "int \<Rightarrow> nat option"
  w_next_inode :: nat
  w_next_fd :: int
  w_space :: nat
  w_file_size :: "int \<Rightarrow> nat"

definition sys_open :: "string \<Rightarrow> bool \<Rightarrow> world \<Rightarrow> int \<times> world" where
  "sys_open path create_excl w =
     (case w_dir w path of
        None \<Rightarrow>
          if create_excl
          then (w_next_fd w, w\<lparr>w_dir := (w_dir w)(path \<mapsto> w_next_inode w),
                  w_bytes := (w_bytes w)(w_next_inode w := []),
                  w_open := (w_open w)(w_next_fd w \<mapsto> w_next_inode w),
                  w_next_inode := w_next_inode w + 1, w_next_fd := w_next_fd w + 1\<rparr>)
          else (-1, w)
      | Some ino \<Rightarrow>
          if create_excl then (-1, w)
          else (w_next_fd w, w\<lparr>w_open := (w_open w)(w_next_fd w \<mapsto> ino),
                  w_next_fd := w_next_fd w + 1\<rparr>))"

definition sys_fstat_size :: "int \<Rightarrow> world \<Rightarrow> nat option" where
  "sys_fstat_size fd w = map_option (\<lambda>ino. length (w_bytes w ino)) (w_open w fd)"

definition sys_close :: "int \<Rightarrow> world \<Rightarrow> world" where
  "sys_close fd w = w\<lparr>w_open := (w_open w)(fd := None)\<rparr>"

text \<open>Bytes read, \<open>None\<close> for the result \<open>-1\<close>.\<close>

definition sys_pread :: "int \<Rightarrow> nat \<Rightarrow> nat \<Rightarrow> world \<Rightarrow> byte list option" where
  "sys_pread fd n off w =
     (case w_open w fd of
        None \<Rightarrow> None
      | Some ino \<Rightarrow> if off < 2 ^ 63 then Some (take n (drop off (w_bytes w ino))) else None)"

definition zero_extend :: "nat \<Rightarrow> byte list \<Rightarrow> byte list" where
  "zero_extend n xs = xs @ replicate (n - length xs) 0"

text \<open>Bytes written, \<open>None\<close> for \<open>-1\<close>: writing past the end takes room from the device.\<close>

definition sys_store :: "int \<Rightarrow> byte list \<Rightarrow> nat \<Rightarrow> world \<Rightarrow> nat option \<times> world" where
  "sys_store fd bs off w =
     (case w_open w fd of
        None \<Rightarrow> (None, w)
      | Some ino \<Rightarrow>
          (let xs = w_bytes w ino; fin = off + length bs; need = fin - length xs in
           if fin < 2 ^ 63 \<and> need \<le> w_space w
           then (Some (length bs),
                 w\<lparr>w_bytes := (w_bytes w)(ino := overlay off bs (zero_extend fin xs)),
                   w_space := w_space w - need\<rparr>)
           else (None, w)))"

definition sys_pwrite :: "int \<Rightarrow> byte list \<Rightarrow> nat \<Rightarrow> world \<Rightarrow> nat option \<times> world" where
  "sys_pwrite fd bs off w = sys_store fd bs off w"

text \<open>\<open>fallocate\<close> with \<open>FALLOC_FL_ZERO_RANGE\<close>: 0, or -1.\<close>

definition sys_fallocate :: "int \<Rightarrow> nat \<Rightarrow> nat \<Rightarrow> world \<Rightarrow> int \<times> world" where
  "sys_fallocate fd off len w =
     (case sys_store fd (replicate len 0) off w of
        (None, w') \<Rightarrow> (-1, w')
      | (Some _, w') \<Rightarrow> (0, w'))"

section \<open>The class File\<close>

definition file_ctor :: "string \<Rightarrow> bool \<Rightarrow> world \<Rightarrow> (int \<times> world) result" where
  "file_ctor path create_excl w =
     (let (fd, w1) = sys_open path create_excl w in
      if fd = -1 then Inl (RuntimeError ''failed to create file'')
      else (case sys_fstat_size fd w1 of
              None \<Rightarrow> Inl (InvalidArgument ''broken descriptor for fstat'')
            | Some n \<Rightarrow> Inr (fd, w1\<lparr>w_file_size := (w_file_size w1)(fd := n)\<rparr>)))"

definition create_file :: "string \<Rightarrow> world \<Rightarrow> (int \<times> world) result" where
  "create_file path w = file_ctor path True w"

definition open_file :: "string \<Rightarrow> world \<Rightarrow> (int \<times> world) result" where
  "open_file path w = file_ctor path False w"

text \<open>The destructor, run when the last table and the last frame let go of the file.\<close>

definition close_file :: "int \<Rightarrow> world \<Rightarrow> world" where
  "close_file f w = (if f > 0 then sys_close f w else w)"

text \<open>The test is \<open>fallocate(...) == 1\<close>, as in the code.\<close>

definition file_alloc :: "int \<Rightarrow> world \<Rightarrow> world result" where
  "file_alloc f w =
     (let (r, w1) = sys_fallocate f (w_file_size w f) PageSize w in
      if r = 1 then Inl (InvalidArgument ''broken alloc for new page in file'')
      else Inr (w1\<lparr>w_file_size := (w_file_size w1)(f := w_file_size w1 f + PageSize)\<rparr>))"

definition alloc_page :: "int \<Rightarrow> world \<Rightarrow> (nat \<times> world) result" where
  "alloc_page f w =
     (let page_index = w_file_size w f div PageSize in
      bindE (file_alloc f w) (\<lambda>w1. Inr (page_index, w1)))"

definition page_offset :: "nat \<Rightarrow> nat" where
  "page_offset index = (index * PageSize) mod 2 ^ 64"

definition file_write :: "int \<Rightarrow> nat \<Rightarrow> byte list \<Rightarrow> world \<Rightarrow> world result" where
  "file_write f index bs w =
     (let (r, w1) = sys_pwrite f bs (page_offset index) w in
      bindE (assertE (r = Some PageSize) ''r == PageSize'') (\<lambda>_. Inr w1))"

definition file_read :: "int \<Rightarrow> nat \<Rightarrow> world \<Rightarrow> byte list result" where
  "file_read f index w =
     (case sys_pread f PageSize (page_offset index) w of
        None \<Rightarrow> Inl (AssertionFailed ''r == PageSize'')
      | Some bs \<Rightarrow> bindE (assertE (length bs = PageSize) ''r == PageSize'') (\<lambda>_. Inr bs))"

definition get_page_count :: "int \<Rightarrow> world \<Rightarrow> nat" where
  "get_page_count f w = (w_file_size w f + PageSize - 1) div PageSize"

section \<open>Pages of a file\<close>

text \<open>The pages a descriptor reaches.\<close>

definition disk_page :: "world \<Rightarrow> int \<times> nat \<Rightarrow> byte list option" where
  "disk_page w b =
     (case w_open w (fst b) of
        None \<Rightarrow> None
      | Some ino \<Rightarrow>
          if (snd b + 1) * PageSize \<le> length (w_bytes w ino)
          then Some (region (snd b * PageSize) PageSize (w_bytes w ino)) else None)"

text \<open>What holds of the files at any time: descriptors and inodes come from the counters and
  sizes are file offsets. The storage engine also relies on two things nothing enforces: no
  file is open through two descriptors (\<open>unaliased\<close>), and the \<open>size\<close> of a \<open>File\<close> is the length
  of its file.\<close>

definition world_ok :: "world \<Rightarrow> bool" where
  "world_ok w \<longleftrightarrow> 0 < w_next_fd w \<and>
     (\<forall>fd ino. w_open w fd = Some ino \<longrightarrow> 0 < fd \<and> fd < w_next_fd w \<and> ino < w_next_inode w) \<and>
     (\<forall>path ino. w_dir w path = Some ino \<longrightarrow> ino < w_next_inode w) \<and>
     (\<forall>ino. length (w_bytes w ino) < 2 ^ 63)"

definition unaliased :: "world \<Rightarrow> bool" where
  "unaliased w \<longleftrightarrow>
     (\<forall>fd fd' ino. w_open w fd = Some ino \<longrightarrow> w_open w fd' = Some ino \<longrightarrow> fd = fd') \<and>
     (\<forall>fd ino. w_open w fd = Some ino \<longrightarrow> w_file_size w fd = length (w_bytes w ino))"

definition files_ok :: "world \<Rightarrow> bool" where
  "files_ok w \<longleftrightarrow> world_ok w \<and> unaliased w"

lemma PageSize_pos [simp]: "0 < PageSize"
  by (simp add: PageSize_def)

lemma page_fits:
  assumes "(i + 1) * PageSize \<le> n" and "n < 2 ^ 63"
  shows "page_offset i = i * PageSize" and "i * PageSize + PageSize \<le> n" and "i * PageSize < 2 ^ 63"
  using assms by (auto simp: page_offset_def algebra_simps)

lemma disk_page_length: "disk_page w b = Some bs \<Longrightarrow> length bs = PageSize"
  by (auto simp: disk_page_def length_region algebra_simps split: option.splits if_splits)

lemma pages_apart:
  fixes i j :: nat
  assumes "i \<noteq> j"
  shows "i * PageSize + PageSize \<le> j * PageSize \<or> j * PageSize + PageSize \<le> i * PageSize"
proof -
  have "i + 1 \<le> j \<or> j + 1 \<le> i" using assms by arith
  then have "(i + 1) * PageSize \<le> j * PageSize \<or> (j + 1) * PageSize \<le> i * PageSize"
    using mult_le_mono1 by blast
  then show ?thesis by (simp add: add.commute)
qed

lemma file_read_page:
  assumes "world_ok w" and "disk_page w (f, i) = Some bs"
  shows "file_read f i w = Inr bs"
proof -
  obtain ino where ino: "w_open w f = Some ino" and fits: "(i + 1) * PageSize \<le> length (w_bytes w ino)"
      and bs: "bs = region (i * PageSize) PageSize (w_bytes w ino)"
    using assms(2) by (auto simp: disk_page_def split: option.splits if_splits)
  moreover have "length (w_bytes w ino) < 2 ^ 63" using assms(1) by (simp add: world_ok_def)
  note page_fits [OF fits this]
  ultimately show ?thesis
    by (simp add: file_read_def sys_pread_def region_def)
qed

lemma sys_store_inside:
  assumes "w_open w f = Some ino" and "off + length bs \<le> length (w_bytes w ino)"
    and "length (w_bytes w ino) < 2 ^ 63"
  shows "sys_store f bs off w =
    (Some (length bs), w\<lparr>w_bytes := (w_bytes w)(ino := overlay off bs (w_bytes w ino))\<rparr>)"
  using assms by (simp add: sys_store_def Let_def zero_extend_def)

lemma disk_page_overlay:
  assumes w: "unaliased w" and ino: "w_open w f = Some ino"
    and fits: "(i + 1) * PageSize \<le> length (w_bytes w ino)" and len: "length bs = PageSize"
  shows "disk_page (w\<lparr>w_bytes := (w_bytes w)(ino := overlay (i * PageSize) bs (w_bytes w ino))\<rparr>) =
    (disk_page w)((f, i) \<mapsto> bs)"
proof (rule ext)
  fix b :: "int \<times> nat"
  obtain g j where b: "b = (g, j)" by (cases b)
  let ?w = "w\<lparr>w_bytes := (w_bytes w)(ino := overlay (i * PageSize) bs (w_bytes w ino))\<rparr>"
  have fits': "i * PageSize + length bs \<le> length (w_bytes w ino)" using fits len by simp
  show "disk_page ?w b = ((disk_page w)((f, i) \<mapsto> bs)) b"
  proof (cases "w_open w g = Some ino")
    case False
    with ino have "g \<noteq> f" by auto
    with False show ?thesis by (auto simp: disk_page_def b split: option.splits)
  next
    case True
    with w ino have g: "g = f" unfolding unaliased_def by blast
    show ?thesis
    proof (cases "j = i")
      case True
      with g ino fits len fits' show ?thesis
        by (simp add: disk_page_def b length_overlay region_overlay_same)
    next
      case False
      with g ino len fits' pages_apart [OF False] show ?thesis
        by (auto simp: disk_page_def b length_overlay intro!: region_overlay_other)
    qed
  qed
qed

lemma files_ok_overlay:
  assumes "files_ok w" and "w_open w f = Some ino" and "off + length bs \<le> length (w_bytes w ino)"
  shows "files_ok (w\<lparr>w_bytes := (w_bytes w)(ino := overlay off bs (w_bytes w ino))\<rparr>)"
  using assms by (auto simp: files_ok_def world_ok_def unaliased_def length_overlay)

lemma file_write_page:
  assumes w: "files_ok w" and b: "disk_page w (f, i) \<noteq> None" and len: "length bs = PageSize"
  shows "\<exists>w'. file_write f i bs w = Inr w' \<and> files_ok w' \<and> w_open w' = w_open w \<and>
    w_file_size w' = w_file_size w \<and> w_space w' = w_space w \<and> w_dir w' = w_dir w \<and>
    disk_page w' = (disk_page w)((f, i) \<mapsto> bs)"
proof -
  obtain ino where ino: "w_open w f = Some ino" and fits: "(i + 1) * PageSize \<le> length (w_bytes w ino)"
    using b by (auto simp: disk_page_def split: option.splits if_splits)
  have small: "length (w_bytes w ino) < 2 ^ 63" using w by (simp add: files_ok_def world_ok_def)
  let ?w = "w\<lparr>w_bytes := (w_bytes w)(ino := overlay (i * PageSize) bs (w_bytes w ino))\<rparr>"
  note pf = page_fits [OF fits small]
  have "file_write f i bs w = Inr ?w"
    using sys_store_inside [OF ino, of "i * PageSize" bs] pf small len
    by (simp add: file_write_def sys_pwrite_def)
  moreover have "files_ok ?w" using pf(2) len by (intro files_ok_overlay [OF w ino]) simp
  moreover have "unaliased w" using w by (simp add: files_ok_def)
  ultimately show ?thesis
    using disk_page_overlay [OF _ ino fits len] by simp
qed

lemma file_read_missing:
  assumes "disk_page w (f, i) = None" and "i * PageSize < 2 ^ 64"
  shows "file_read f i w = Inl (AssertionFailed ''r == PageSize'')"
  using assms PageSize_pos
  by (auto simp: file_read_def sys_pread_def disk_page_def page_offset_def assertE_def
      simp del: PageSize_pos split: option.splits if_splits)

lemma page_count_multiple: "w_file_size w f = n * PageSize \<Longrightarrow> get_page_count f w = n"
  by (simp add: get_page_count_def PageSize_def)

text \<open>Appending a page: it comes zeroed, and no other page changes.\<close>

lemma disk_page_append:
  assumes w: "unaliased w" and ino: "w_open w f = Some ino" and len: "length (w_bytes w ino) = n * PageSize"
  shows "disk_page (w\<lparr>w_bytes := (w_bytes w)(ino := w_bytes w ino @ replicate PageSize 0)\<rparr>) =
    (disk_page w)((f, n) \<mapsto> replicate PageSize 0)"
proof (rule ext)
  fix b :: "int \<times> nat"
  obtain g j where b: "b = (g, j)" by (cases b)
  let ?w = "w\<lparr>w_bytes := (w_bytes w)(ino := w_bytes w ino @ replicate PageSize 0)\<rparr>"
  show "disk_page ?w b = ((disk_page w)((f, n) \<mapsto> replicate PageSize 0)) b"
  proof (cases "w_open w g = Some ino")
    case False
    with ino have "g \<noteq> f" by auto
    with False show ?thesis by (auto simp: disk_page_def b split: option.splits)
  next
    case True
    with w ino have g: "g = f" unfolding unaliased_def by blast
    have old: "(j + 1) * PageSize \<le> n * PageSize \<longleftrightarrow> j < n"
      and new: "(j + 1) * PageSize \<le> (n + 1) * PageSize \<longleftrightarrow> j < n \<or> j = n"
      by (simp_all only: mult_le_cancel2) auto
    have "region (j * PageSize) PageSize (w_bytes w ino @ replicate PageSize 0) =
        region (j * PageSize) PageSize (w_bytes w ino)" if "j < n"
      using that old len by (simp add: region_def)
    moreover have "region (n * PageSize) PageSize (w_bytes w ino @ replicate PageSize 0) =
        replicate PageSize 0"
      using len by (simp add: region_def)
    ultimately show ?thesis
      using g ino old new len by (auto simp: disk_page_def b algebra_simps)
  qed
qed

lemma alloc_page_works:
  assumes w: "files_ok w" and ino: "w_open w f = Some ino" and size: "w_file_size w f = n * PageSize"
    and room: "PageSize \<le> w_space w" "(n + 1) * PageSize < 2 ^ 63"
  shows "\<exists>w'. alloc_page f w = Inr (n, w') \<and> files_ok w' \<and> w_open w' = w_open w \<and>
    get_page_count f w' = n + 1 \<and> w_file_size w' = (w_file_size w)(f := (n + 1) * PageSize) \<and>
    w_space w' = w_space w - PageSize \<and>
    disk_page w' = (disk_page w)((f, n) \<mapsto> replicate PageSize 0)"
proof -
  let ?w1 = "w\<lparr>w_bytes := (w_bytes w)(ino := w_bytes w ino @ replicate PageSize 0)\<rparr>"
  let ?w = "?w1\<lparr>w_file_size := (w_file_size w)(f := n * PageSize + PageSize),
    w_space := w_space w - PageSize\<rparr>"
  have len: "length (w_bytes w ino) = n * PageSize"
    using w ino size by (simp add: files_ok_def unaliased_def)
  have "alloc_page f w = Inr (n, ?w)"
    using ino len size room
    by (simp add: alloc_page_def file_alloc_def sys_fallocate_def sys_store_def Let_def
        zero_extend_def overlay_def algebra_simps)
  moreover have "files_ok ?w"
    using w ino len room unfolding files_ok_def world_ok_def unaliased_def by auto
  moreover have "get_page_count f ?w = n + 1"
    by (intro page_count_multiple) simp
  moreover have "disk_page ?w = disk_page ?w1"
    by (auto simp: disk_page_def fun_eq_iff split: option.splits)
  moreover have "unaliased w" using w by (simp add: files_ok_def)
  note disk_page_append [OF this ino len]
  ultimately show ?thesis by (simp add: algebra_simps)
qed

section \<open>The interface: a device of blocks\<close>

text \<open>What the frame pool and the tables rely on: reading back what was written, block by
  block, and a fresh zeroed block where the device has room.\<close>

locale block_device =
  fixes block :: "'w \<Rightarrow> int \<times> nat \<Rightarrow> byte list option"
    and wf :: "'w \<Rightarrow> bool"
    and read_op :: "int \<Rightarrow> nat \<Rightarrow> 'w \<Rightarrow> byte list result"
    and write_op :: "int \<Rightarrow> nat \<Rightarrow> byte list \<Rightarrow> 'w \<Rightarrow> 'w result"
  assumes block_length: "block w b = Some bs \<Longrightarrow> length bs = PageSize"
    and read_block: "wf w \<Longrightarrow> block w (f, i) = Some bs \<Longrightarrow> read_op f i w = Inr bs"
    and write_block: "wf w \<Longrightarrow> block w (f, i) \<noteq> None \<Longrightarrow> length bs = PageSize \<Longrightarrow>
      \<exists>w'. write_op f i bs w = Inr w' \<and> wf w' \<and> block w' = (block w)((f, i) \<mapsto> bs)"
begin

text \<open>Swapping a buffer: write the old block back, read the new one. The buffer then holds what
  the new block held, the old block what the buffer held.\<close>

lemma write_back_then_read:
  assumes "wf w" and "block w (f, i) \<noteq> None" and "length bs = PageSize" and "(g, j) \<noteq> (f, i)"
    and "block w (g, j) = Some cs"
  shows "\<exists>w'. write_op f i bs w = Inr w' \<and> wf w' \<and> block w' = (block w)((f, i) \<mapsto> bs) \<and>
    read_op g j w' = Inr cs"
proof -
  obtain w' where w': "write_op f i bs w = Inr w'" "wf w'" "block w' = (block w)((f, i) \<mapsto> bs)"
    using write_block [OF assms(1-3)] by blast
  moreover have "block w' (g, j) = Some cs" using w'(3) assms(4,5) by auto
  ultimately show ?thesis using read_block by blast
qed

lemma blocks_stay:
  assumes "wf w" and "length bs = PageSize" and "block w (f, i) \<noteq> None"
    and "write_op f i bs w = Inr w'"
  shows "dom (block w') = dom (block w)"
  using write_block [OF assms(1,3,2)] assms(3,4) by auto

end

interpretation dev: block_device disk_page files_ok file_read file_write
proof unfold_locales
  show "file_read f i w = Inr bs" if "files_ok w" and "disk_page w (f, i) = Some bs" for w f i bs
    using that file_read_page by (simp add: files_ok_def)
  show "\<exists>w'. file_write f i bs w = Inr w' \<and> files_ok w' \<and> disk_page w' = (disk_page w)((f, i) \<mapsto> bs)"
    if "files_ok w" and "disk_page w (f, i) \<noteq> None" and "length bs = PageSize" for w f i bs
    using file_write_page [OF that] by blast
qed (rule disk_page_length)

section \<open>Properties\<close>

text \<open>C29. What is written to a page of an open file is what a later read of that page returns,
  and reads of every other page return what they did.\<close>

theorem file_write_read:
  assumes "files_ok w" and "disk_page w (f, i) \<noteq> None" and "length bs = PageSize"
  shows "\<exists>w'. file_write f i bs w = Inr w' \<and> files_ok w' \<and> file_read f i w' = Inr bs \<and>
    (\<forall>g j cs. (g, j) \<noteq> (f, i) \<longrightarrow> disk_page w (g, j) = Some cs \<longrightarrow> file_read g j w' = Inr cs)"
proof -
  obtain w' where w': "file_write f i bs w = Inr w'" "files_ok w'"
      "disk_page w' = (disk_page w)((f, i) \<mapsto> bs)"
    using dev.write_block [OF assms] by blast
  then have "file_read f i w' = Inr bs" by (intro dev.read_block) simp_all
  moreover have "file_read g j w' = Inr cs"
    if "(g, j) \<noteq> (f, i)" and "disk_page w (g, j) = Some cs" for g j cs
    using that w' by (intro dev.read_block) auto
  ultimately show ?thesis using w' by blast
qed

text \<open>A world with one file of one zero page, and no room for a second.\<close>

definition full_world :: world where
  "full_world = \<lparr>w_dir = [''t'' \<mapsto> 0], w_bytes = (\<lambda>_. [])(0 := replicate PageSize 0),
     w_open = [3 \<mapsto> 0], w_next_inode = 1, w_next_fd = 4, w_space = 0,
     w_file_size = (\<lambda>_. 0)(3 := PageSize)\<rparr>"

lemma full_world_ok: "files_ok full_world"
  by (auto simp: files_ok_def world_ok_def unaliased_def full_world_def PageSize_def
      split: if_splits)

lemma full_world_page: "disk_page full_world (3, 0) = Some (replicate PageSize 0)"
  by (simp add: disk_page_def full_world_def region_def)

theorem file_write_read_witness:
  "\<exists>w'. file_write 3 0 (replicate PageSize 7) full_world = Inr w' \<and>
    file_read 3 0 w' = Inr (replicate PageSize 7)"
  using file_write_read [OF full_world_ok, of 3 0 "replicate PageSize 7"] full_world_page by auto

text \<open>\<open>alloc_page\<close> never reports a failed allocation: the code compares the result of
  \<open>fallocate\<close> with 1, which it never is, so on a full device the call returns the index of a
  page the file does not have, and the first read of that page fails its assertion.\<close>

lemma alloc_page_ignores_failure:
  "(\<forall>f w. \<exists>r. alloc_page f w = Inr r) \<and>
   (\<exists>w'. alloc_page 3 full_world = Inr (1, w') \<and> get_page_count 3 w' = 2 \<and>
      disk_page w' (3, 1) = None \<and>
      file_read 3 1 w' = Inl (AssertionFailed ''r == PageSize''))"
proof -
  have "fst (sys_fallocate f off len w) \<noteq> 1" for f off len w
    by (simp add: sys_fallocate_def split: prod.split option.split)
  then have "\<exists>r. alloc_page f w = Inr r" for f w
    by (auto simp: alloc_page_def file_alloc_def Let_def split: prod.split)
      (metis fst_conv)
  moreover obtain w' where w': "w' = full_world\<lparr>w_file_size := (\<lambda>_. 0)(3 := 2 * PageSize)\<rparr>" by simp
  then have "alloc_page 3 full_world = Inr (1, w')"
    by (simp add: alloc_page_def file_alloc_def sys_fallocate_def sys_store_def full_world_def
        PageSize_def)
  moreover have "get_page_count 3 w' = 2" using w' by (intro page_count_multiple) simp
  moreover have none: "disk_page w' (3, 1) = None" using w' by (simp add: disk_page_def full_world_def)
  moreover have "file_read 3 1 w' = Inl (AssertionFailed ''r == PageSize'')"
    using none by (rule file_read_missing) (simp add: PageSize_def)
  ultimately show ?thesis by blast
qed

text \<open>C30. Closing a file ends its descriptor and nothing else: reads through it fail from then on, every
  other descriptor shows the pages it did, and the bytes stay on disk, so that opening the path
  again shows them. Descriptor 0, which a process that closed its standard input is given first,
  is the exception: the test is \<open>fd > 0\<close>, so a file open through it stays open and its pages are read
  as before.\<close>

theorem close_file_ends_descriptor:
  assumes "0 \<le> w_next_fd w"
  shows "(files_ok w \<longrightarrow> files_ok (close_file f w)) \<and>
    (0 < f \<longrightarrow> w_open (close_file f w) f = None \<and>
      (\<forall>i. file_read f i (close_file f w) = Inl (AssertionFailed ''r == PageSize''))) \<and>
    (f = 0 \<longrightarrow> w_open (close_file f w) f = w_open w f \<and> (\<forall>i. file_read f i (close_file f w) = file_read f i w)) \<and>
    (\<forall>g i. g \<noteq> f \<longrightarrow> disk_page (close_file f w) (g, i) = disk_page w (g, i)) \<and>
    (\<forall>path ino. w_dir w path = Some ino \<longrightarrow> (\<exists>fd w1. open_file path (close_file f w) = Inr (fd, w1) \<and>
       w_open w1 fd = Some ino \<and> w_bytes w1 = w_bytes w))"
proof (intro conjI impI allI)
  show "files_ok (close_file f w)" if "files_ok w"
    using that by (auto simp: files_ok_def world_ok_def unaliased_def close_file_def sys_close_def)
  show "w_open (close_file f w) f = None" if "f > 0"
    using that by (simp add: close_file_def sys_close_def)
  show "file_read f i (close_file f w) = Inl (AssertionFailed ''r == PageSize'')" if "f > 0" for i
    using that by (simp add: close_file_def sys_close_def file_read_def sys_pread_def)
  show "w_open (close_file f w) f = w_open w f" "file_read f i (close_file f w) = file_read f i w" if "f = 0" for i
    using that by (simp_all add: close_file_def)
  show "disk_page (close_file f w) (g, i) = disk_page w (g, i)" if "g \<noteq> f" for g i
    using that by (cases "w_open w g") (simp_all add: disk_page_def close_file_def sys_close_def)
  fix path ino assume dir: "w_dir w path = Some ino"
  let ?w = "close_file f w"
  have w: "w_dir ?w = w_dir w" "w_bytes ?w = w_bytes w" "w_next_fd ?w = w_next_fd w"
    by (simp_all add: close_file_def sys_close_def)
  moreover have "w_next_fd w \<noteq> -1" using assms by simp
  ultimately show "\<exists>fd w1. open_file path ?w = Inr (fd, w1) \<and> w_open w1 fd = Some ino \<and> w_bytes w1 = w_bytes w"
    using dir by (simp add: open_file_def file_ctor_def sys_open_def sys_fstat_size_def)
qed

text \<open>A process that opened its file as descriptor 0, and one of two pages as descriptor 3.\<close>

definition first_fd_world :: world where
  "first_fd_world = full_world\<lparr>w_open := [0 \<mapsto> 0], w_next_fd := 1\<rparr>"

theorem close_file_ends_descriptor_witness:
  "file_read 3 0 (close_file 3 full_world) = Inl (AssertionFailed ''r == PageSize'') \<and>
    (\<exists>fd w1. open_file ''t'' (close_file 3 full_world) = Inr (fd, w1) \<and> w_open w1 fd = Some 0) \<and>
    w_open (close_file 0 first_fd_world) 0 = Some 0 \<and>
    file_read 0 0 (close_file 0 first_fd_world) = Inr (replicate PageSize 0)"
proof -
  have num: "0 \<le> w_next_fd full_world" "0 \<le> w_next_fd first_fd_world" by (simp_all add: full_world_def first_fd_world_def)
  note closed = close_file_ends_descriptor [OF num(1), of 3] and kept = close_file_ends_descriptor [OF num(2), of 0]
  have "w_dir full_world ''t'' = Some 0" by (simp add: full_world_def)
  then have "\<exists>fd w1. open_file ''t'' (close_file 3 full_world) = Inr (fd, w1) \<and> w_open w1 fd = Some 0"
    using closed by blast
  moreover have "file_read 3 0 (close_file 3 full_world) = Inl (AssertionFailed ''r == PageSize'')" using closed by simp
  moreover have "w_open (close_file 0 first_fd_world) 0 = w_open first_fd_world 0"
      "file_read 0 0 (close_file 0 first_fd_world) = file_read 0 0 first_fd_world"
    using kept by simp_all
  moreover have "file_read 0 0 first_fd_world = Inr (replicate PageSize 0)" "w_open first_fd_world 0 = Some 0"
    by (simp_all add: file_read_def sys_pread_def page_offset_def first_fd_world_def full_world_def region_def PageSize_def)
  ultimately show ?thesis by simp
qed

end
