(* ===== verification/Frame_Pool.thy ===== *)
theory Frame_Pool
  imports Clock_Cache Page_File
begin

text \<open>
  \<open>src/buffer_pool/{frame.h,frame_pool.cpp,buffer_pool.cpp,pool_page.cpp}\<close>: a fixed number of
  frames in one allocation, each holding a page of some file, found through the clock cache.
  \<open>acquire_frame\<close> brings a page in, writing the page it displaces back, and counts the
  reference; \<open>release_frame\<close> is what the destructor of a \<open>PoolPage\<close> calls. A frame with
  references is locked in the cache.

  A \<open>FilePtr\<close> is the descriptor of the file, a data pointer an offset into the allocation.
  The interface the tables rely on is the locale \<open>page_pool\<close>.
\<close>

section \<open>Frames and the pool\<close>

type_synonym page_id = "int \<times> nat"

record frame =
  f_data :: nat
  f_owner :: "int option"
  f_page_index :: nat
  f_ref_count :: u64

record frame_pool =
  fp_data :: memory
  fp_frames :: "frame list"
  fp_cache :: "page_id clock_cache"

type_synonym pool_state = "frame_pool \<times> world"

text \<open>The hash of a page's key; \<open>hash_fd\<close> and \<open>hash_index\<close> are those of the library.\<close>

definition page_id_hash :: "(int \<Rightarrow> u64) \<Rightarrow> (nat \<Rightarrow> u64) \<Rightarrow> page_id \<Rightarrow> u64" where
  "page_id_hash hash_fd hash_index b = xor (hash_fd (fst b)) (hash_index (snd b))"

text \<open>The constructor; \<open>mem\<close> is what the allocator returned, of \<open>n * PageSize\<close> bytes.\<close>

definition make_frame_pool :: "memory \<Rightarrow> nat \<Rightarrow> frame_pool" where
  "make_frame_pool mem n = \<lparr>fp_data = mem,
     fp_frames = map (\<lambda>i. \<lparr>f_data = i * PageSize, f_owner = None, f_page_index = 0, f_ref_count = 0\<rparr>)
       [0..<n],
     fp_cache = cc_init (0, 0) n\<rparr>"

definition dump_data :: "frame \<Rightarrow> memory \<Rightarrow> world \<Rightarrow> world result" where
  "dump_data fr mem w =
     (case f_owner fr of
        None \<Rightarrow> Inr w
      | Some f \<Rightarrow> bindE (mem_load (f_data fr) PageSize mem) (\<lambda>bs. file_write f (f_page_index fr) bs w))"

definition upload_data :: "frame \<Rightarrow> memory \<Rightarrow> world \<Rightarrow> memory result" where
  "upload_data fr mem w =
     (case f_owner fr of
        None \<Rightarrow> Inl (AssertionFailed ''owner'')
      | Some f \<Rightarrow> bindE (file_read f (f_page_index fr) w) (\<lambda>bs. mem_store (f_data fr) bs mem))"

definition dump_frame :: "nat \<Rightarrow> pool_state \<Rightarrow> pool_state result" where
  "dump_frame i s =
     bindE (assertE (i < length (fp_frames (fst s))) ''internal_pool_index < frames_.size()'') (\<lambda>_.
     bindE (dump_data (fp_frames (fst s) ! i) (fp_data (fst s)) (snd s)) (\<lambda>w'. Inr (fst s, w')))"

definition read_frame :: "int \<Rightarrow> nat \<Rightarrow> nat \<Rightarrow> pool_state \<Rightarrow> pool_state result" where
  "read_frame f i page s =
     (let p = fst s; frs = fp_frames p;
          fr = (frs ! i)\<lparr>f_owner := Some f, f_ref_count := 0, f_page_index := page\<rparr> in
      bindE (assertE (i < length frs) ''frame_index < frames_.size()'') (\<lambda>_.
      bindE (upload_data fr (fp_data p) (snd s)) (\<lambda>mem.
        Inr (p\<lparr>fp_frames := frs[i := fr], fp_data := mem\<rparr>, snd s))))"

text \<open>The first half of \<open>acquire_frame\<close>: the frame of the page, found or filled.\<close>

definition locate_frame :: "int \<Rightarrow> nat \<Rightarrow> pool_state \<Rightarrow> (nat \<times> pool_state) outcome" where
  "locate_frame f page s =
     (let p = fst s; key = (f, page) in
      bindO (Some (cc_get key (fp_cache p))) (\<lambda>((index, found), c1).
        if found
        then Some (bindE (definedE (index < length (fp_frames p)) ''frames_[frame_index]'') (\<lambda>_.
             bindE (assertE (f_page_index (fp_frames p ! index) = page) ''page_index'') (\<lambda>_.
             bindE (definedE (f_owner (fp_frames p ! index) \<noteq> None) ''owner->get_fd()'') (\<lambda>_.
             bindE (assertE (f_owner (fp_frames p ! index) = Some f) ''get_fd()'') (\<lambda>_.
               Inr (index, (p\<lparr>fp_cache := c1\<rparr>, snd s)))))))
        else bindO (cc_put key c1) (\<lambda>(index, c2).
             Some (bindE (dump_frame index (p\<lparr>fp_cache := c2\<rparr>, snd s)) (\<lambda>s1.
                   bindE (read_frame f index page s1) (\<lambda>s2. Inr (index, s2)))))))"

text \<open>Its second half: count the reference and lock the frame at the first one.\<close>

definition pin_frame :: "nat \<Rightarrow> pool_state \<Rightarrow> ((nat \<times> nat) \<times> pool_state) result" where
  "pin_frame i s =
     (let p = fst s; frs = fp_frames p; fr = (frs ! i)\<lparr>f_ref_count := f_ref_count (frs ! i) + 1\<rparr> in
      bindE (definedE (i < length frs) ''frames_[frame_index]'') (\<lambda>_.
      bindE (if f_ref_count fr = 1 then cc_lock i (fp_cache p) else Inr (fp_cache p)) (\<lambda>c.
        Inr ((i, f_data fr), (p\<lparr>fp_frames := frs[i := fr], fp_cache := c\<rparr>, snd s)))))"

definition acquire_frame :: "int \<Rightarrow> nat \<Rightarrow> pool_state \<Rightarrow> ((nat \<times> nat) \<times> pool_state) outcome" where
  "acquire_frame f page s = bindO (locate_frame f page s) (\<lambda>(i, s1). Some (pin_frame i s1))"

definition release_frame :: "nat \<Rightarrow> pool_state \<Rightarrow> pool_state result" where
  "release_frame i s =
     (let p = fst s; frs = fp_frames p; fr = (frs ! i)\<lparr>f_ref_count := f_ref_count (frs ! i) - 1\<rparr> in
      bindE (definedE (i < length frs) ''frames_[index]'') (\<lambda>_.
      bindE (if f_ref_count fr = 0 then cc_unlock i (fp_cache p) else Inr (fp_cache p)) (\<lambda>c.
        Inr (p\<lparr>fp_frames := frs[i := fr], fp_cache := c\<rparr>, snd s))))"

text \<open>The destructor: every frame is written back.\<close>

definition close_frame_pool :: "pool_state \<Rightarrow> pool_state result" where
  "close_frame_pool s = foldE dump_frame [0..<length (fp_frames (fst s))] s"

text \<open>\<open>BufferPool::get_page\<close> wraps an acquired frame in a \<open>PoolPage\<close>.\<close>

record pool_page =
  pp_frame_index :: nat
  pp_data_frame :: nat

definition make_page :: "nat \<Rightarrow> nat \<Rightarrow> pool_page" where
  [simp]: "make_page frame_index data = \<lparr>pp_frame_index = frame_index, pp_data_frame = data\<rparr>"

definition get_data :: "pool_page \<Rightarrow> nat" where
  [simp]: "get_data pg = pp_data_frame pg"

text \<open>A \<open>BufferPool\<close> is the frame pool it makes.\<close>

definition make_buffer_pool :: "memory \<Rightarrow> nat \<Rightarrow> frame_pool" where
  [simp]: "make_buffer_pool mem n = make_frame_pool mem n"

definition get_page :: "int \<Rightarrow> nat \<Rightarrow> pool_state \<Rightarrow> (pool_page \<times> pool_state) outcome" where
  "get_page f page s = bindO (acquire_frame f page s) (\<lambda>((index, data), s1).
     Some (Inr (make_page index data, s1)))"

definition drop_page :: "pool_page \<Rightarrow> pool_state \<Rightarrow> pool_state result" where
  "drop_page pg s = release_frame (pp_frame_index pg) s"

section \<open>What the pool keeps true, and what it shows\<close>

definition frames_of :: "pool_state \<Rightarrow> nat" where
  "frames_of s = capacity (fp_cache (fst s))"

definition cached_at :: "pool_state \<Rightarrow> page_id \<Rightarrow> nat option" where
  "cached_at s = buffer_table_layer (fp_cache (fst s))"

definition refs :: "pool_state \<Rightarrow> nat \<Rightarrow> u64" where
  "refs s i = f_ref_count (fp_frames (fst s) ! i)"

text \<open>A page is cached in a frame exactly when the frame owns it, a frame is locked exactly
  while it has references, frames sit side by side in the allocation, and every cached page
  is on disk.\<close>

definition pool_inv :: "pool_state \<Rightarrow> bool" where
  "pool_inv s \<longleftrightarrow> files_ok (snd s) \<and> cc_inv (0, 0) (fp_cache (fst s)) \<and>
     length (fp_frames (fst s)) = frames_of s \<and>
     length (fp_data (fst s)) = frames_of s * PageSize \<and>
     (\<forall>i < frames_of s. f_data (fp_frames (fst s) ! i) = i * PageSize) \<and>
     (\<forall>i < frames_of s. cc_locked (fp_cache (fst s)) i \<longleftrightarrow> refs s i \<noteq> 0) \<and>
     (\<forall>b i. cached_at s b = Some i \<longleftrightarrow> i < frames_of s \<and>
        f_owner (fp_frames (fst s) ! i) = Some (fst b) \<and>
        f_page_index (fp_frames (fst s) ! i) = snd b) \<and>
     (\<forall>b. cached_at s b \<noteq> None \<longrightarrow> disk_page (snd s) b \<noteq> None)"

text \<open>The pages as the users of the pool see them: a cached page is what its frame holds.\<close>

definition frame_bytes :: "memory \<Rightarrow> nat \<Rightarrow> byte list" where
  "frame_bytes mem i = region (i * PageSize) PageSize mem"

definition pool_view :: "pool_state \<Rightarrow> page_id \<Rightarrow> byte list option" where
  "pool_view s b =
     (case cached_at s b of
        Some i \<Rightarrow> Some (frame_bytes (fp_data (fst s)) i)
      | None \<Rightarrow> disk_page (snd s) b)"

declare split_paired_All [simp del] split_paired_Ex [simp del]

lemma frame_bytes_overlay:
  assumes "length mem = n * PageSize" and "i < n" and "j < n" and "length bs = PageSize"
  shows "frame_bytes (overlay (i * PageSize) bs mem) j = (if j = i then bs else frame_bytes mem j)"
proof -
  have "(i + 1) * PageSize \<le> n * PageSize" and "(j + 1) * PageSize \<le> n * PageSize"
    using assms(2,3) by (intro mult_le_mono1; simp)+
  then have "i * PageSize + PageSize \<le> length mem" and "j * PageSize + PageSize \<le> length mem"
    using assms(1) by auto
  with assms(4) show ?thesis
    using pages_apart [of j i]
    by (auto simp: frame_bytes_def region_overlay_same region_overlay_other)
qed

lemma frame_fits: "length mem = n * PageSize \<Longrightarrow> i < n \<Longrightarrow> i * PageSize + PageSize \<le> length mem"
  using mult_le_mono1 [of "i + 1" n PageSize] by simp

lemma length_frame_bytes: "length mem = n * PageSize \<Longrightarrow> i < n \<Longrightarrow> length (frame_bytes mem i) = PageSize"
  unfolding frame_bytes_def by (intro length_region frame_fits)

text \<open>The pool's invariant, piece by piece.\<close>

lemma pool_invD:
  assumes "pool_inv s"
  shows "files_ok (snd s)" and "cc_inv (0, 0) (fp_cache (fst s))"
    and "length (fp_frames (fst s)) = frames_of s"
    and "length (fp_data (fst s)) = frames_of s * PageSize"
    and "i < frames_of s \<Longrightarrow> f_data (fp_frames (fst s) ! i) = i * PageSize"
    and "i < frames_of s \<Longrightarrow> cc_locked (fp_cache (fst s)) i \<longleftrightarrow> refs s i \<noteq> 0"
    and "cached_at s b = Some i \<longleftrightarrow> i < frames_of s \<and>
        f_owner (fp_frames (fst s) ! i) = Some (fst b) \<and> f_page_index (fp_frames (fst s) ! i) = snd b"
    and "cached_at s b = Some i \<Longrightarrow> disk_page (snd s) b \<noteq> None"
proof -
  show "cached_at s b = Some i \<Longrightarrow> disk_page (snd s) b \<noteq> None"
    using assms by (metis option.distinct(1) pool_inv_def)
qed (use assms in \<open>auto simp: pool_inv_def\<close>)

lemma disk_page_key: "files_ok w \<Longrightarrow> disk_page w b \<noteq> None \<Longrightarrow> b \<noteq> (0, 0)"
  by (auto simp: disk_page_def files_ok_def world_ok_def dest!: spec [of _ "0::int"])

lemma pool_view_disk: "pool_inv s \<Longrightarrow> pool_view s b \<noteq> None \<longleftrightarrow> disk_page (snd s) b \<noteq> None"
  using pool_invD(8) [of s b] by (auto simp: pool_view_def split: option.splits)

lemma pool_view_length: "pool_inv s \<Longrightarrow> pool_view s b = Some bs \<Longrightarrow> length bs = PageSize"
  using length_frame_bytes [OF pool_invD(4) [of s]] pool_invD(7) [of s b]
  by (cases "cached_at s b") (simp_all add: pool_view_def disk_page_length, blast)

text \<open>Changing only the cache's bookkeeping.\<close>

lemma pool_inv_cache:
  assumes "pool_inv s" and "cc_inv (0, 0) c" and "capacity c = capacity (fp_cache (fst s))"
    and "cc_locked c = cc_locked (fp_cache (fst s))"
    and "buffer_table_layer c = buffer_table_layer (fp_cache (fst s))"
  shows "pool_inv (fst s\<lparr>fp_cache := c\<rparr>, snd s)"
    and "pool_view (fst s\<lparr>fp_cache := c\<rparr>, snd s) = pool_view s"
    and "refs (fst s\<lparr>fp_cache := c\<rparr>, snd s) = refs s"
    and "cached_at (fst s\<lparr>fp_cache := c\<rparr>, snd s) = cached_at s"
    and "frames_of (fst s\<lparr>fp_cache := c\<rparr>, snd s) = frames_of s"
  using assms
  by (simp_all add: pool_inv_def pool_view_def cached_at_def refs_def frames_of_def fun_eq_iff
      cong: option.case_cong)

text \<open>What the world keeps while pages move in and out.\<close>

definition same_files :: "world \<Rightarrow> world \<Rightarrow> bool" where
  "same_files w w' \<longleftrightarrow> w_open w' = w_open w \<and> w_file_size w' = w_file_size w \<and>
     w_space w' = w_space w \<and> w_dir w' = w_dir w"

lemma same_files_refl: "same_files w w"
  by (simp add: same_files_def)

text \<open>Writing back the page a frame holds.\<close>

lemma dump_frame_works:
  assumes inv: "pool_inv s" and i: "i < frames_of s"
    and p: "fp_frames p = fp_frames (fst s)" "fp_data p = fp_data (fst s)"
  shows "\<exists>w'. dump_frame i (p, snd s) = Inr (p, w') \<and> files_ok w' \<and> same_files (snd s) w' \<and>
    disk_page w' = (\<lambda>b. if cached_at s b = Some i then Some (frame_bytes (fp_data (fst s)) i)
      else disk_page (snd s) b)"
proof (cases "f_owner (fp_frames (fst s) ! i)")
  case None
  then have "cached_at s b \<noteq> Some i" for b
    using pool_invD(7) [OF inv] by auto
  with None inv i p show ?thesis
    by (auto simp: dump_frame_def dump_data_def pool_invD same_files_refl)
next
  case (Some f)
  let ?page = "f_page_index (fp_frames (fst s) ! i)" and ?bs = "frame_bytes (fp_data (fst s)) i"
  have at: "cached_at s (f, ?page) = Some i" using Some i pool_invD(7) [OF inv] by simp
  have only: "cached_at s b = Some i \<longleftrightarrow> b = (f, ?page)" for b
    using Some i pool_invD(7) [OF inv, of b] by (cases b) auto
  have len: "length ?bs = PageSize" using length_frame_bytes pool_invD(4) [OF inv] i .
  obtain w' where w': "file_write f ?page ?bs (snd s) = Inr w'" "files_ok w'" "same_files (snd s) w'"
      "disk_page w' = (disk_page (snd s))((f, ?page) \<mapsto> ?bs)"
    using file_write_page [OF pool_invD(1) [OF inv] _ len] pool_invD(8) [OF inv at]
    by (auto simp: same_files_def)
  moreover have "dump_frame i (p, snd s) = Inr (p, w')"
    using w'(1) i p Some frame_fits [OF pool_invD(4) [OF inv] i]
    by (simp add: dump_frame_def dump_data_def pool_invD [OF inv] frame_bytes_def)
  ultimately show ?thesis by (auto simp: only fun_eq_iff)
qed

text \<open>Bringing a page in: the frame of an unpinned page is given to it.\<close>

definition frame_load :: "int \<Rightarrow> nat \<Rightarrow> nat \<Rightarrow> byte list \<Rightarrow> frame_pool \<Rightarrow> frame_pool" where
  "frame_load f page i bs p = p\<lparr>fp_frames := (fp_frames p)
     [i := (fp_frames p ! i)\<lparr>f_owner := Some f, f_ref_count := 0, f_page_index := page\<rparr>],
     fp_data := overlay (i * PageSize) bs (fp_data p)\<rparr>"

lemma read_frame_loads:
  assumes "i < length (fp_frames p)" and "f_data (fp_frames p ! i) = i * PageSize"
    and "i * PageSize + PageSize \<le> length (fp_data p)"
    and "file_read f page w = Inr bs" and "length bs = PageSize"
  shows "read_frame f i page (p, w) = Inr (frame_load f page i bs p, w)"
  using assms by (simp add: read_frame_def upload_data_def frame_load_def Let_def)

lemma read_frame_works:
  assumes "i < length (fp_frames p)" and "f_data (fp_frames p ! i) = i * PageSize"
    and "i * PageSize + PageSize \<le> length (fp_data p)"
    and "files_ok w" and "disk_page w (f, page) = Some bs"
  shows "read_frame f i page (p, w) = Inr (frame_load f page i bs p, w)"
  by (rule read_frame_loads [OF assms(1-3) dev.read_block [OF assms(4,5)] disk_page_length [OF assms(5)]])

lemma pool_inv_load:
  assumes inv: "pool_inv s" and i: "i < frames_of s" "refs s i = 0"
    and c: "cc_inv (0, 0) c" "capacity c = capacity (fp_cache (fst s))"
      "cc_locked c = cc_locked (fp_cache (fst s))"
      "buffer_table_layer c = (\<lambda>k. if k = (f, page) then Some i
        else if cached_at s k = Some i then None else cached_at s k)"
    and miss: "cached_at s (f, page) = None"
    and w: "files_ok w" "disk_page w = (\<lambda>b. if cached_at s b = Some i
        then Some (frame_bytes (fp_data (fst s)) i) else disk_page (snd s) b)"
    and bs: "disk_page (snd s) (f, page) = Some bs"
  shows "pool_inv (frame_load f page i bs (fst s\<lparr>fp_cache := c\<rparr>), w)"
proof -
  let ?s = "(frame_load f page i bs (fst s\<lparr>fp_cache := c\<rparr>), w)"
  note d = pool_invD [OF inv]
  have cap: "frames_of ?s = frames_of s" using c(2) by (simp add: frames_of_def frame_load_def)
  have len: "length bs = PageSize" using bs by (rule disk_page_length)
  have tab: "cached_at ?s = (\<lambda>k. if k = (f, page) then Some i
        else if cached_at s k = Some i then None else cached_at s k)"
    using c(4) by (simp add: cached_at_def frame_load_def)
  have frs: "fp_frames (fst ?s) ! j = (if j = i then (fp_frames (fst s) ! i)
      \<lparr>f_owner := Some f, f_ref_count := 0, f_page_index := page\<rparr> else fp_frames (fst s) ! j)"
    if "j < frames_of s" for j
    using that d(3) by (simp add: frame_load_def nth_list_update)
  have "cached_at ?s b = Some j \<longleftrightarrow> j < frames_of ?s \<and>
      f_owner (fp_frames (fst ?s) ! j) = Some (fst b) \<and> f_page_index (fp_frames (fst ?s) ! j) = snd b"
    for b j
    using d(7) [of b j] d(7) [of b i] miss i(1) frs [of j] by (cases b) (auto simp: tab cap)
  moreover have "refs ?s j = refs s j" if "j < frames_of s" for j
    using frs [OF that] i(2) by (simp add: refs_def)
  moreover have "disk_page w b \<noteq> None" if "cached_at ?s b \<noteq> None" for b
    using that d(8) [of b] bs by (auto simp: tab w(2) split: if_splits)
  moreover have "f_data (fp_frames (fst ?s) ! j) = j * PageSize" if "j < frames_of s" for j
    using frs [OF that] d(5) that by simp
  ultimately show ?thesis
    using d(3,4,6) c w(1) i(1) frame_fits [OF d(4) i(1)] len
    by (simp add: pool_inv_def cap) (simp add: frame_load_def length_overlay)
qed

lemma pool_view_load:
  assumes inv: "pool_inv s" and i: "i < frames_of s"
    and c: "buffer_table_layer c = (\<lambda>k. if k = (f, page) then Some i
        else if cached_at s k = Some i then None else cached_at s k)"
    and miss: "cached_at s (f, page) = None"
    and w: "disk_page w = (\<lambda>b. if cached_at s b = Some i
        then Some (frame_bytes (fp_data (fst s)) i) else disk_page (snd s) b)"
    and bs: "disk_page (snd s) (f, page) = Some bs"
  shows "pool_view (frame_load f page i bs (fst s\<lparr>fp_cache := c\<rparr>), w) = pool_view s"
proof (rule ext)
  fix b
  have len: "length bs = PageSize" using bs by (rule disk_page_length)
  have bound: "j < frames_of s" if "cached_at s b = Some j" for j
    using that pool_invD(7) [OF inv] by auto
  note mem = frame_bytes_overlay [OF pool_invD(4) [OF inv] i _ len]
  show "pool_view (frame_load f page i bs (fst s\<lparr>fp_cache := c\<rparr>), w) b = pool_view s b"
    using c miss bs w bound mem [OF i] mem
    by (auto simp: pool_view_def [of "(_, w)"] cached_at_def [of "(_, w)"] frame_load_def)
      (auto simp: pool_view_def split: option.split)
qed

section \<open>Acquiring and releasing under the invariant\<close>

text \<open>A step that only moves pages between frames and disk: the view stays, and a frame with
  references keeps its page.\<close>

definition pool_moved :: "pool_state \<Rightarrow> pool_state \<Rightarrow> bool" where
  "pool_moved s s' \<longleftrightarrow> pool_inv s' \<and> pool_view s' = pool_view s \<and> frames_of s' = frames_of s \<and>
     same_files (snd s) (snd s') \<and>
     (\<forall>b j. refs s j \<noteq> 0 \<longrightarrow> cached_at s b = Some j \<longrightarrow> cached_at s' b = Some j)"

lemma locate_hit:
  assumes inv: "pool_inv s" and at: "cached_at s (f, page) = Some i"
  shows "\<exists>s'. locate_frame f page s = Some (Inr (i, s')) \<and> pool_moved s s' \<and>
    refs s' = refs s \<and> cached_at s' = cached_at s"
proof -
  obtain c where c: "cc_get (f, page) (fp_cache (fst s)) = Inr ((i, True), c)" "cc_inv (0, 0) c"
      "capacity c = capacity (fp_cache (fst s))" "cc_locked c = cc_locked (fp_cache (fst s))"
      "buffer_table_layer c = buffer_table_layer (fp_cache (fst s))"
    using cc.get_hit [OF pool_invD(2) [OF inv], of "(f, page)" i] at by (auto simp: cached_at_def)
  note keep = pool_inv_cache [OF inv c(2-5)]
  have "locate_frame f page s = Some (Inr (i, (fst s\<lparr>fp_cache := c\<rparr>, snd s)))"
    using c(1) at pool_invD(7) [OF inv, of "(f, page)" i] pool_invD(3) [OF inv]
    by (simp add: locate_frame_def Let_def)
  with keep show ?thesis
    by (auto simp: pool_moved_def same_files_refl)
qed

lemma locate_miss:
  assumes inv: "pool_inv s" and miss: "cached_at s (f, page) = None"
    and bs: "disk_page (snd s) (f, page) = Some bs" and free: "j < frames_of s" "refs s j = 0"
  shows "\<exists>i s'. locate_frame f page s = Some (Inr (i, s')) \<and> pool_moved s s' \<and>
    (\<forall>k < frames_of s. refs s' k = refs s k) \<and> refs s i = 0 \<and> cached_at s' (f, page) = Some i"
proof -
  note d = pool_invD [OF inv]
  have key: "(f, page) \<noteq> (0, 0)" using disk_page_key [OF d(1)] bs by blast
  have "\<not> cc_locked (fp_cache (fst s)) j" "j < capacity (fp_cache (fst s))"
    using d(6) free by (auto simp: frames_of_def)
  with cc.put_new [OF d(2) key _ this(2,1)] miss obtain i c where
      c: "cc_put (f, page) (fp_cache (fst s)) = Some (Inr (i, c))" "i < frames_of s"
        "\<not> cc_locked (fp_cache (fst s)) i" "cc_inv (0, 0) c"
        "capacity c = capacity (fp_cache (fst s))" "cc_locked c = cc_locked (fp_cache (fst s))"
        "buffer_table_layer c = (\<lambda>k. if k = (f, page) then Some i
          else if cached_at s k = Some i then None else cached_at s k)"
    unfolding cached_at_def frames_of_def by auto
  let ?p = "fst s\<lparr>fp_cache := c\<rparr>"
  have ref: "refs s i = 0" using c(2,3) d(6) by blast
  obtain w where w: "dump_frame i (?p, snd s) = Inr (?p, w)" "files_ok w" "same_files (snd s) w"
      "disk_page w = (\<lambda>b. if cached_at s b = Some i then Some (frame_bytes (fp_data (fst s)) i)
        else disk_page (snd s) b)"
    using dump_frame_works [OF inv c(2), of ?p] by auto
  have at_w: "disk_page w (f, page) = Some bs" using w(4) miss bs by simp
  have rd: "read_frame f i page (?p, w) = Inr (frame_load f page i bs ?p, w)"
    using c(2) d(3,5) w(2) at_w frame_fits [OF d(4) c(2)] by (intro read_frame_works) simp_all
  let ?s = "(frame_load f page i bs ?p, w)"
  have "locate_frame f page s = Some (Inr (i, ?s))"
    using c(1) w(1) rd miss
    by (simp add: locate_frame_def Let_def cc_get_def cached_at_def)
  moreover have "pool_inv ?s" using pool_inv_load [OF inv c(2) ref c(4-7) miss w(2,4) bs] .
  moreover have "pool_view ?s = pool_view s" using pool_view_load [OF inv c(2,7) miss w(4) bs] .
  moreover have tab: "cached_at ?s = (\<lambda>k. if k = (f, page) then Some i
        else if cached_at s k = Some i then None else cached_at s k)"
    using c(7) by (simp add: cached_at_def frame_load_def)
  moreover have "frames_of ?s = frames_of s" using c(5) by (simp add: frames_of_def frame_load_def)
  moreover have "refs ?s k = refs s k" if "k < frames_of s" for k
    using that c(2) d(3) ref by (cases "k = i") (simp_all add: refs_def frame_load_def)
  ultimately show ?thesis
    using w(3) miss ref by (intro exI [of _ i] exI [of _ ?s]) (auto simp: pool_moved_def)
qed

lemma cc_lock_bookkeeping:
  assumes "cc_inv k0 c" and "i < capacity c"
  obtains c' where "(if b then cc_lock i c else Inr c) = Inr c'" and "cc_inv k0 c'"
    and "capacity c' = capacity c" and "buffer_table_layer c' = buffer_table_layer c"
    and "cc_locked c' = (if b then (cc_locked c)(i := True) else cc_locked c)"
  using cc.lock_pins [OF assms] assms(1) by (cases b) auto

lemma cc_unlock_bookkeeping:
  assumes "cc_inv k0 c" and "i < capacity c"
  obtains c' where "(if b then cc_unlock i c else Inr c) = Inr c'" and "cc_inv k0 c'"
    and "capacity c' = capacity c" and "buffer_table_layer c' = buffer_table_layer c"
    and "cc_locked c' = (if b then (cc_locked c)(i := False) else cc_locked c)"
  using cc.unlock_unpins [OF assms] assms(1) by (cases b) auto

text \<open>Changing a reference count together with the lock it implies.\<close>

definition frame_count :: "nat \<Rightarrow> u64 \<Rightarrow> page_id clock_cache \<Rightarrow> frame_pool \<Rightarrow> frame_pool" where
  "frame_count i n c p = p\<lparr>fp_frames := (fp_frames p)[i := (fp_frames p ! i)\<lparr>f_ref_count := n\<rparr>],
     fp_cache := c\<rparr>"

lemma frame_count_keeps:
  assumes inv: "pool_inv s" and i: "i < frames_of s"
    and c: "cc_inv (0, 0) c" "capacity c = capacity (fp_cache (fst s))"
      "buffer_table_layer c = buffer_table_layer (fp_cache (fst s))"
      "cc_locked c = (cc_locked (fp_cache (fst s)))(i := n \<noteq> 0)"
  shows "pool_moved s (frame_count i n c (fst s), snd s)"
    and "\<And>k. k < frames_of s \<Longrightarrow> refs (frame_count i n c (fst s), snd s) k = (if k = i then n else refs s k)"
    and "cached_at (frame_count i n c (fst s), snd s) = cached_at s"
proof -
  let ?s = "(frame_count i n c (fst s), snd s)"
  note d = pool_invD [OF inv]
  show refs: "refs ?s k = (if k = i then n else refs s k)" if "k < frames_of s" for k
    using that d(3) by (simp add: refs_def frame_count_def nth_list_update)
  show tab: "cached_at ?s = cached_at s" using c(3) by (simp add: cached_at_def frame_count_def)
  have cap: "frames_of ?s = frames_of s" using c(2) by (simp add: frames_of_def frame_count_def)
  have frs: "f_owner (fp_frames (fst ?s) ! k) = f_owner (fp_frames (fst s) ! k)"
      "f_page_index (fp_frames (fst ?s) ! k) = f_page_index (fp_frames (fst s) ! k)"
      "f_data (fp_frames (fst ?s) ! k) = f_data (fp_frames (fst s) ! k)" for k
    using d(3) i by (cases "k = i"; simp add: frame_count_def)+
  have parts: "fp_cache (fst ?s) = c" "fp_data (fst ?s) = fp_data (fst s)"
      "length (fp_frames (fst ?s)) = length (fp_frames (fst s))"
    by (simp_all add: frame_count_def)
  have "pool_view ?s = pool_view s"
    unfolding pool_view_def tab parts(2) snd_conv ..
  moreover have "pool_inv ?s"
    unfolding pool_inv_def cap tab parts frs snd_conv
  proof (intro conjI allI impI)
    show "cc_locked c k = (refs ?s k \<noteq> 0)" if "k < frames_of s" for k
      using that c(4) refs d(6) by simp
    show "disk_page (snd s) b \<noteq> None" if "cached_at s b \<noteq> None" for b
      using that d(8) by blast
  qed (use d(1,3,4,5) c(1) in simp_all, rule d(7))
  ultimately show "pool_moved s ?s"
    by (simp add: pool_moved_def cap tab same_files_refl)
qed

lemma pin_frame_works:
  assumes inv: "pool_inv s" and i: "i < frames_of s" and room: "refs s i \<noteq> -1"
  shows "\<exists>s'. pin_frame i s = Inr ((i, i * PageSize), s') \<and> pool_moved s s' \<and>
    (\<forall>k < frames_of s. refs s' k = (if k = i then refs s i + 1 else refs s k)) \<and>
    cached_at s' = cached_at s"
proof -
  note d = pool_invD [OF inv]
  have nz: "refs s i + 1 \<noteq> 0" using room by (metis add_eq_0_iff2)
  obtain c where c: "(if refs s i + 1 = 1 then cc_lock i (fp_cache (fst s)) else Inr (fp_cache (fst s))) = Inr c"
      "cc_inv (0, 0) c" "capacity c = capacity (fp_cache (fst s))"
      "buffer_table_layer c = buffer_table_layer (fp_cache (fst s))"
      "cc_locked c = (if refs s i + 1 = 1 then (cc_locked (fp_cache (fst s)))(i := True)
        else cc_locked (fp_cache (fst s)))"
    using cc_lock_bookkeeping [OF d(2), of i] i unfolding frames_of_def by metis
  have "cc_locked c = (cc_locked (fp_cache (fst s)))(i := refs s i + 1 \<noteq> 0)"
    using c(5) nz d(6) [OF i] by (auto simp: fun_eq_iff)
  note keep = frame_count_keeps [OF inv i c(2-4) this]
  have "pin_frame i s = Inr ((i, i * PageSize), (frame_count i (refs s i + 1) c (fst s), snd s))"
    using c(1) d(3,5) i by (simp add: pin_frame_def Let_def refs_def frame_count_def)
  with keep show ?thesis by auto
qed

lemma release_frame_works:
  assumes inv: "pool_inv s" and i: "i < frames_of s" and held: "refs s i \<noteq> 0"
  shows "\<exists>s'. release_frame i s = Inr s' \<and> pool_moved s s' \<and>
    (\<forall>k < frames_of s. refs s' k = (if k = i then refs s i - 1 else refs s k)) \<and>
    cached_at s' = cached_at s"
proof -
  note d = pool_invD [OF inv]
  obtain c where c: "(if refs s i - 1 = 0 then cc_unlock i (fp_cache (fst s)) else Inr (fp_cache (fst s))) = Inr c"
      "cc_inv (0, 0) c" "capacity c = capacity (fp_cache (fst s))"
      "buffer_table_layer c = buffer_table_layer (fp_cache (fst s))"
      "cc_locked c = (if refs s i - 1 = 0 then (cc_locked (fp_cache (fst s)))(i := False)
        else cc_locked (fp_cache (fst s)))"
    using cc_unlock_bookkeeping [OF d(2), of i] i unfolding frames_of_def by metis
  have "cc_locked c = (cc_locked (fp_cache (fst s)))(i := refs s i - 1 \<noteq> 0)"
    using c(5) held d(6) [OF i] by (auto simp: fun_eq_iff)
  note keep = frame_count_keeps [OF inv i c(2-4) this]
  have "release_frame i s = Inr (frame_count i (refs s i - 1) c (fst s), snd s)"
    using c(1) d(3) i by (simp add: release_frame_def Let_def refs_def frame_count_def)
  with keep show ?thesis by auto
qed

text \<open>Reference counts, 0 outside the pool.\<close>

definition pins :: "pool_state \<Rightarrow> nat \<Rightarrow> u64" where
  "pins s i = (if i < frames_of s then refs s i else 0)"

lemma acquire_frame_works:
  assumes inv: "pool_inv s" and bs: "pool_view s (f, page) = Some bs"
    and free: "cached_at s (f, page) \<noteq> None \<or> (\<exists>j < frames_of s. pins s j = 0)"
    and room: "\<And>j. pins s j \<noteq> -1"
  shows "\<exists>i s'. acquire_frame f page s = Some (Inr ((i, i * PageSize), s')) \<and> i < frames_of s \<and>
    pool_moved s s' \<and> pins s' = (pins s)(i := pins s i + 1) \<and> cached_at s' (f, page) = Some i"
proof -
  obtain i s1 where s1: "locate_frame f page s = Some (Inr (i, s1))" "pool_moved s s1"
      "\<forall>k < frames_of s. refs s1 k = refs s k" "cached_at s1 (f, page) = Some i"
  proof (cases "cached_at s (f, page)")
    case (Some i)
    with locate_hit [OF inv Some] that show ?thesis by auto
  next
    case None
    with bs have "disk_page (snd s) (f, page) = Some bs" by (simp add: pool_view_def)
    moreover obtain j where "j < frames_of s" "refs s j = 0"
      using free None by (auto simp: pins_def)
    ultimately show ?thesis using locate_miss [OF inv None] that by blast
  qed
  then have inv1: "pool_inv s1" and cap1: "frames_of s1 = frames_of s" by (auto simp: pool_moved_def)
  have i: "i < frames_of s" using pool_invD(7) [OF inv1] s1(4) cap1 by simp
  have "refs s1 i \<noteq> -1" using room [of i] i s1(3) by (simp add: pins_def)
  with pin_frame_works [OF inv1, of i] i cap1 obtain s2 where s2:
      "pin_frame i s1 = Inr ((i, i * PageSize), s2)" "pool_moved s1 s2"
      "\<forall>k < frames_of s. refs s2 k = (if k = i then refs s1 i + 1 else refs s1 k)"
      "cached_at s2 = cached_at s1"
    by auto
  have "refs s1 j \<noteq> 0" if "refs s j \<noteq> 0" "cached_at s b = Some j" for b j
    using that s1(3) pool_invD(7) [OF inv, of b j] by auto
  then have "pool_moved s s2"
    using s1(2) s2(2) by (auto simp: pool_moved_def same_files_def)
  moreover have "pins s2 = (pins s)(i := pins s i + 1)"
    using s1(3) s2(2,3) cap1 i by (auto simp: pins_def fun_eq_iff pool_moved_def)
  ultimately show ?thesis
    using s1(1,4) s2(1,4) i by (auto simp: acquire_frame_def)
qed

text \<open>Writing to the memory of a cached page.\<close>

definition set_mem :: "memory \<Rightarrow> pool_state \<Rightarrow> pool_state" where
  "set_mem mem s = ((fst s)\<lparr>fp_data := mem\<rparr>, snd s)"

lemma set_mem_works:
  assumes inv: "pool_inv s" and at: "cached_at s b = Some i"
    and mem: "length mem = length (fp_data (fst s))"
      "\<And>j. j < frames_of s \<Longrightarrow> j \<noteq> i \<Longrightarrow> frame_bytes mem j = frame_bytes (fp_data (fst s)) j"
  shows "pool_inv (set_mem mem s)" and "frames_of (set_mem mem s) = frames_of s"
    and "pins (set_mem mem s) = pins s" and "cached_at (set_mem mem s) = cached_at s"
    and "pool_view (set_mem mem s) = (pool_view s)(b \<mapsto> frame_bytes mem i)"
proof -
  show cap: "frames_of (set_mem mem s) = frames_of s" by (simp add: frames_of_def set_mem_def)
  show "pins (set_mem mem s) = pins s" by (simp add: pins_def refs_def set_mem_def frames_of_def fun_eq_iff)
  show tab: "cached_at (set_mem mem s) = cached_at s" by (simp add: cached_at_def set_mem_def)
  have refs: "refs (set_mem mem s) = refs s" by (simp add: refs_def set_mem_def fun_eq_iff)
  show "pool_inv (set_mem mem s)"
    using inv mem(1) unfolding pool_inv_def cap tab refs by (simp add: set_mem_def)
  show "pool_view (set_mem mem s) = (pool_view s)(b \<mapsto> frame_bytes mem i)"
  proof (rule ext)
    fix b'
    have "j < frames_of s" if "cached_at s b' = Some j" for j
      using that pool_invD(7) [OF inv] by blast
    moreover have "b' = b" if "cached_at s b' = Some i"
      using that at cc.one_key [OF pool_invD(2) [OF inv]] by (simp add: cached_at_def)
    ultimately show "pool_view (set_mem mem s) b' = ((pool_view s)(b \<mapsto> frame_bytes mem i)) b'"
      using mem(2) at unfolding pool_view_def tab
      by (cases "cached_at s b'") (auto simp: set_mem_def)
  qed
qed

section \<open>The interface: pages held and dropped\<close>

text \<open>A page of the view can be held while a frame is spare; while held, its bytes are the memory
  at its data pointer and writes there show in the view; dropping it changes no page. \<open>meta\<close>
  is what the pool leaves alone.\<close>

locale page_pool =
  fixes pages :: "'s \<Rightarrow> page_id \<Rightarrow> byte list option"
    and wf :: "'s \<Rightarrow> bool"
    and slots :: "'s \<Rightarrow> nat"
    and held :: "'s \<Rightarrow> nat \<Rightarrow> u64"
    and at :: "'s \<Rightarrow> page_id \<Rightarrow> nat option"
    and meta :: "'s \<Rightarrow> 'm"
    and mem :: "'s \<Rightarrow> memory"
    and put_mem :: "memory \<Rightarrow> 's \<Rightarrow> 's"
    and get_op :: "int \<Rightarrow> nat \<Rightarrow> 's \<Rightarrow> (pool_page \<times> 's) outcome"
    and drop_op :: "pool_page \<Rightarrow> 's \<Rightarrow> 's result"
  assumes get_law: "wf s \<Longrightarrow> pages s (f, i) = Some bs \<Longrightarrow> j < slots s \<Longrightarrow> held s j = 0 \<Longrightarrow>
      (\<forall>k. held s k \<noteq> -1) \<Longrightarrow>
      \<exists>n s'. get_op f i s = Some (Inr (\<lparr>pp_frame_index = n, pp_data_frame = n * PageSize\<rparr>, s')) \<and>
        wf s' \<and> pages s' = pages s \<and> slots s' = slots s \<and> meta s' = meta s \<and>
        held s' = (held s)(n := held s n + 1) \<and> at s' (f, i) = Some n"
    and mem_law: "wf s \<Longrightarrow> at s b = Some n \<Longrightarrow> n < slots s \<and> pages s b = Some (frame_bytes (mem s) n) \<and>
      length (mem s) = slots s * PageSize"
    and put_law: "wf s \<Longrightarrow> at s b = Some n \<Longrightarrow> length m = length (mem s) \<Longrightarrow>
      (\<forall>k < slots s. k \<noteq> n \<longrightarrow> frame_bytes m k = frame_bytes (mem s) k) \<Longrightarrow>
      wf (put_mem m s) \<and> pages (put_mem m s) = (pages s)(b \<mapsto> frame_bytes m n) \<and>
      slots (put_mem m s) = slots s \<and> meta (put_mem m s) = meta s \<and>
      held (put_mem m s) = held s \<and> at (put_mem m s) = at s"
    and drop_law: "wf s \<Longrightarrow> n < slots s \<Longrightarrow> held s n \<noteq> 0 \<Longrightarrow> pp_frame_index pg = n \<Longrightarrow>
      \<exists>s'. drop_op pg s = Inr s' \<and> wf s' \<and> pages s' = pages s \<and> slots s' = slots s \<and>
        meta s' = meta s \<and> held s' = (held s)(n := held s n - 1)"
begin

lemma held_back: "held s k \<noteq> -1 \<Longrightarrow> (h(k := held s k + 1)) k \<noteq> 0"
  by (metis add_eq_0_iff2 fun_upd_same)

text \<open>Hold a page, look at it, drop it.\<close>

lemma read_session:
  assumes "wf s" and "pages s (f, i) = Some bs" and "j < slots s" and "held s j = 0"
    and "\<forall>k. held s k \<noteq> -1"
  obtains n s1 s2 where
    "get_op f i s = Some (Inr (\<lparr>pp_frame_index = n, pp_data_frame = n * PageSize\<rparr>, s1))"
    and "frame_bytes (mem s1) n = bs" and "n < slots s" and "length (mem s1) = slots s * PageSize"
    and "drop_op \<lparr>pp_frame_index = n, pp_data_frame = n * PageSize\<rparr> s1 = Inr s2"
    and "wf s2" and "pages s2 = pages s" and "slots s2 = slots s" and "held s2 = held s"
    and "meta s2 = meta s"
proof -
  obtain n s1 where s1: "get_op f i s = Some (Inr (\<lparr>pp_frame_index = n, pp_data_frame = n * PageSize\<rparr>, s1))"
      "wf s1" "pages s1 = pages s" "slots s1 = slots s" "meta s1 = meta s"
      "held s1 = (held s)(n := held s n + 1)" "at s1 (f, i) = Some n"
    using get_law [OF assms] by blast
  have "held s1 n \<noteq> 0" using s1(6) held_back assms(5) by metis
  with s1 mem_law [OF s1(2,7)]
    drop_law [OF s1(2) _ _ refl, of "\<lparr>pp_frame_index = n, pp_data_frame = n * PageSize\<rparr>"]
  obtain s2 where "drop_op \<lparr>pp_frame_index = n, pp_data_frame = n * PageSize\<rparr> s1 = Inr s2"
      "wf s2" "pages s2 = pages s1" "slots s2 = slots s1" "meta s2 = meta s1"
      "held s2 = (held s1)(n := held s1 n - 1)"
    by auto
  with s1 mem_law [OF s1(2,7)] assms(2) that [of n s1 s2] show ?thesis by simp
qed

text \<open>Hold a page, write to its memory, drop it: exactly that page changed.\<close>

lemma write_session:
  assumes "wf s" and "pages s (f, i) = Some bs" and "j < slots s" and "held s j = 0"
    and "\<forall>k. held s k \<noteq> -1"
  obtains n s1 where
    "get_op f i s = Some (Inr (\<lparr>pp_frame_index = n, pp_data_frame = n * PageSize\<rparr>, s1))"
    and "frame_bytes (mem s1) n = bs" and "n < slots s" and "length (mem s1) = slots s * PageSize"
    and "\<And>m. length m = length (mem s1) \<Longrightarrow>
      \<forall>k < slots s. k \<noteq> n \<longrightarrow> frame_bytes m k = frame_bytes (mem s1) k \<Longrightarrow>
      \<exists>s2. drop_op \<lparr>pp_frame_index = n, pp_data_frame = n * PageSize\<rparr> (put_mem m s1) = Inr s2 \<and>
        wf s2 \<and> pages s2 = (pages s)((f, i) \<mapsto> frame_bytes m n) \<and> slots s2 = slots s \<and>
        held s2 = held s \<and> meta s2 = meta s"
proof -
  obtain n s1 where s1: "get_op f i s = Some (Inr (\<lparr>pp_frame_index = n, pp_data_frame = n * PageSize\<rparr>, s1))"
      "wf s1" "pages s1 = pages s" "slots s1 = slots s" "meta s1 = meta s"
      "held s1 = (held s)(n := held s n + 1)" "at s1 (f, i) = Some n"
    using get_law [OF assms] by blast
  have nz: "held s1 n \<noteq> 0" using s1(6) held_back assms(5) by metis
  note ml = mem_law [OF s1(2,7)]
  show ?thesis
  proof (rule that [of n s1])
    fix m
    assume m: "length m = length (mem s1)"
      "\<forall>k < slots s. k \<noteq> n \<longrightarrow> frame_bytes m k = frame_bytes (mem s1) k"
    then have p: "wf (put_mem m s1)" "pages (put_mem m s1) = (pages s1)((f, i) \<mapsto> frame_bytes m n)"
        "slots (put_mem m s1) = slots s1" "meta (put_mem m s1) = meta s1" "held (put_mem m s1) = held s1"
      using put_law [OF s1(2,7), of m] s1(4) by auto
    show "\<exists>s2. drop_op \<lparr>pp_frame_index = n, pp_data_frame = n * PageSize\<rparr> (put_mem m s1) = Inr s2 \<and>
        wf s2 \<and> pages s2 = (pages s)((f, i) \<mapsto> frame_bytes m n) \<and> slots s2 = slots s \<and>
        held s2 = held s \<and> meta s2 = meta s"
      using drop_law [OF p(1) _ _ refl, of "\<lparr>pp_frame_index = n, pp_data_frame = n * PageSize\<rparr>"]
        p s1 nz ml by auto
  qed (use s1 ml assms(2) in auto)
qed

end

interpretation bp: page_pool pool_view pool_inv frames_of pins cached_at
    "\<lambda>s. (w_open (snd s), w_file_size (snd s), w_space (snd s))" "\<lambda>s. fp_data (fst s)" set_mem
    get_page drop_page
proof unfold_locales
  fix s f i bs j
  assume a: "pool_inv s" "pool_view s (f, i) = Some bs" "j < frames_of s" "pins s j = 0"
    "\<forall>k. pins s k \<noteq> -1"
  obtain n s' where "acquire_frame f i s = Some (Inr ((n, n * PageSize), s'))" "pool_moved s s'"
      "pins s' = (pins s)(n := pins s n + 1)" "cached_at s' (f, i) = Some n"
    using acquire_frame_works [OF a(1,2)] a(3-5) by blast
  then show "\<exists>n s'. get_page f i s = Some (Inr (\<lparr>pp_frame_index = n, pp_data_frame = n * PageSize\<rparr>, s')) \<and>
      pool_inv s' \<and> pool_view s' = pool_view s \<and> frames_of s' = frames_of s \<and>
      (w_open (snd s'), w_file_size (snd s'), w_space (snd s')) =
        (w_open (snd s), w_file_size (snd s), w_space (snd s)) \<and>
      pins s' = (pins s)(n := pins s n + 1) \<and> cached_at s' (f, i) = Some n"
    by (auto simp: get_page_def pool_moved_def same_files_def)
next
  fix s b n
  assume a: "pool_inv s" "cached_at s b = Some n"
  moreover from a have "n < frames_of s" using pool_invD(7) by blast
  ultimately show "n < frames_of s \<and> pool_view s b = Some (frame_bytes (fp_data (fst s)) n) \<and>
      length (fp_data (fst s)) = frames_of s * PageSize"
    using pool_invD(4) by (simp add: pool_view_def)
next
  fix s b n m
  assume a: "pool_inv s" "cached_at s b = Some n" "length m = length (fp_data (fst s))"
    "\<forall>k < frames_of s. k \<noteq> n \<longrightarrow> frame_bytes m k = frame_bytes (fp_data (fst s)) k"
  then show "pool_inv (set_mem m s) \<and> pool_view (set_mem m s) = (pool_view s)(b \<mapsto> frame_bytes m n) \<and>
      frames_of (set_mem m s) = frames_of s \<and>
      (w_open (snd (set_mem m s)), w_file_size (snd (set_mem m s)), w_space (snd (set_mem m s))) =
        (w_open (snd s), w_file_size (snd s), w_space (snd s)) \<and>
      pins (set_mem m s) = pins s \<and> cached_at (set_mem m s) = cached_at s"
    using set_mem_works [OF a(1-3)] by (simp add: set_mem_def)
next
  fix s n and pg :: pool_page
  assume "pool_inv s" and "n < frames_of s" and "pins s n \<noteq> 0" and "pp_frame_index pg = n"
  then show "\<exists>s'. drop_page pg s = Inr s' \<and> pool_inv s' \<and> pool_view s' = pool_view s \<and>
      frames_of s' = frames_of s \<and>
      (w_open (snd s'), w_file_size (snd s'), w_space (snd s')) =
        (w_open (snd s), w_file_size (snd s), w_space (snd s)) \<and> pins s' = (pins s)(n := pins s n - 1)"
    using release_frame_works [of s n]
    by (auto simp: drop_page_def pool_moved_def same_files_def pins_def fun_eq_iff)
qed

section \<open>Closing the pool\<close>

lemma pool_inv_world:
  assumes "pool_inv s" and "files_ok w" and "\<And>b. disk_page w b = None \<longleftrightarrow> disk_page (snd s) b = None"
  shows "pool_inv (fst s, w)"
  using assms by (simp add: pool_inv_def frames_of_def cached_at_def refs_def)

lemma dump_frames_upto:
  assumes inv: "pool_inv s" and "n \<le> frames_of s"
  shows "\<exists>w. foldE dump_frame [0..<n] s = Inr (fst s, w) \<and> files_ok w \<and> same_files (snd s) w \<and>
    disk_page w = (\<lambda>b. case cached_at s b of
      Some i \<Rightarrow> if i < n then Some (frame_bytes (fp_data (fst s)) i) else disk_page (snd s) b
    | None \<Rightarrow> disk_page (snd s) b)"
  using assms(2)
proof (induction n)
  case 0
  then show ?case
    using pool_invD(1) [OF inv] by (intro exI [of _ "snd s"]) (auto simp: same_files_refl split: option.split)
next
  case (Suc n)
  then obtain w where w: "foldE dump_frame [0..<n] s = Inr (fst s, w)" "files_ok w"
      "same_files (snd s) w"
      "disk_page w = (\<lambda>b. case cached_at s b of
        Some i \<Rightarrow> if i < n then Some (frame_bytes (fp_data (fst s)) i) else disk_page (snd s) b
      | None \<Rightarrow> disk_page (snd s) b)"
    by auto
  have "disk_page w b = None \<longleftrightarrow> disk_page (snd s) b = None" for b
    using pool_invD(8) [OF inv, of b] by (auto simp: w(4) split: option.split)
  with inv w(2) have "pool_inv (fst s, w)" by (intro pool_inv_world)
  moreover have same: "cached_at (fst s, w) = cached_at s" "frames_of (fst s, w) = frames_of s"
    by (simp_all add: cached_at_def frames_of_def)
  ultimately obtain w' where "dump_frame n (fst s, w) = Inr (fst s, w')" "files_ok w'"
      "same_files w w'"
      "disk_page w' = (\<lambda>b. if cached_at s b = Some n then Some (frame_bytes (fp_data (fst s)) n)
        else disk_page w b)"
    using dump_frame_works [of "(fst s, w)" n "fst s"] Suc.prems
    unfolding fst_conv snd_conv same by auto
  with w show ?case
    by (intro exI [of _ w']) (auto simp: fun_eq_iff less_Suc_eq same_files_def split: option.split)
qed

text \<open>The constructor establishes the invariant.\<close>

lemma make_frame_pool_inv:
  assumes "files_ok w" and "length mem = n * PageSize" and "0 < n"
  shows "pool_inv (make_frame_pool mem n, w)" and "pool_view (make_frame_pool mem n, w) = disk_page w"
    and "pins (make_frame_pool mem n, w) = (\<lambda>_. 0)" and "frames_of (make_frame_pool mem n, w) = n"
    and "cached_at (make_frame_pool mem n, w) = Map.empty"
  using assms cc_inv_init [of n "(0::int, 0::nat)"]
  by (auto simp: pool_inv_def make_frame_pool_def frames_of_def refs_def cached_at_def cc_init_def
      cc_locked_def pool_view_def pins_def fun_eq_iff)

section \<open>Properties\<close>

text \<open>A pool of one frame over a file of one page, for the witnesses.\<close>

definition small_pool :: pool_state where
  "small_pool = (make_frame_pool (replicate PageSize 5) 1, full_world)"

lemma small_pool_ok:
  "pool_inv small_pool" "pool_view small_pool (3, 0) = Some (replicate PageSize 0)"
  "pins small_pool = (\<lambda>_. 0)" "frames_of small_pool = 1" "cached_at small_pool = Map.empty"
  using make_frame_pool_inv [OF full_world_ok, of "replicate PageSize 5" 1] full_world_page
  by (simp_all add: small_pool_def)

text \<open>C16. Acquiring a page of an open file succeeds as soon as the page is cached or some frame has
  no reference. It hands out a frame that holds the page's current bytes, counts the
  reference, keeps the pool's invariant, and changes no page as seen through the pool, even
  though another page may have been written back and displaced; a frame with references keeps
  its page.\<close>

theorem acquire_frame_transparent:
  assumes "pool_inv s" and "pool_view s (f, page) = Some bs"
    and "cached_at s (f, page) \<noteq> None \<or> (\<exists>j < frames_of s. pins s j = 0)"
    and "\<forall>j. pins s j \<noteq> -1"
  shows "\<exists>i s'. acquire_frame f page s = Some (Inr ((i, i * PageSize), s')) \<and>
    frame_bytes (fp_data (fst s')) i = bs \<and> pool_inv s' \<and> pool_view s' = pool_view s \<and>
    pins s' = (pins s)(i := pins s i + 1) \<and> cached_at s' (f, page) = Some i \<and>
    (\<forall>b j. pins s j \<noteq> 0 \<longrightarrow> cached_at s b = Some j \<longrightarrow> cached_at s' b = Some j)"
proof -
  obtain i s' where s': "acquire_frame f page s = Some (Inr ((i, i * PageSize), s'))" "pool_moved s s'"
      "pins s' = (pins s)(i := pins s i + 1)" "cached_at s' (f, page) = Some i"
    using acquire_frame_works [OF assms(1-3)] assms(4) by blast
  then have "pool_view s' (f, page) = Some bs" using assms(2) by (simp add: pool_moved_def)
  with s'(4) have "frame_bytes (fp_data (fst s')) i = bs" by (simp add: pool_view_def)
  with s' show ?thesis
    by (auto simp: pool_moved_def pins_def)
qed

theorem acquire_frame_transparent_witness:
  "\<exists>i s'. acquire_frame 3 0 small_pool = Some (Inr ((i, i * PageSize), s')) \<and>
    frame_bytes (fp_data (fst s')) i = replicate PageSize 0"
  using acquire_frame_transparent [OF small_pool_ok(1,2)] by (auto simp: small_pool_ok)

text \<open>C26. While every frame has references, acquiring a page that is not cached never returns: the
  replacement loop finds no victim and turns for ever.\<close>

theorem acquire_frame_hangs:
  assumes "pool_inv s" and "cached_at s (f, page) = None" and "\<forall>j < frames_of s. pins s j \<noteq> 0"
  shows "acquire_frame f page s = None"
proof -
  have "\<not> (\<exists>i < capacity (fp_cache (fst s)). \<not> cc_locked (fp_cache (fst s)) i)"
    using assms(3) pool_invD(6) [OF assms(1)] by (auto simp: pins_def frames_of_def)
  then have "cc_sweep (fp_cache (fst s)) = None"
    using pool_invD(2) [OF assms(1)]
    by (intro cc_sweep_all_locked) (auto simp: cc_locked_def dest: cc_inv_shape)
  with assms(2) show ?thesis
    by (simp add: acquire_frame_def locate_frame_def cc_get_def cached_at_def cc_put_install Let_def)
qed

theorem acquire_frame_hangs_witness:
  "\<exists>d s. acquire_frame 3 0 small_pool = Some (Inr (d, s)) \<and> acquire_frame 3 1 s = None"
proof -
  obtain i s where s: "acquire_frame 3 0 small_pool = Some (Inr ((i, i * PageSize), s))" "i < 1"
      "pool_moved small_pool s" "pins s = (\<lambda>_. 0)(i := 1)" "cached_at s (3, 0) = Some i"
    using acquire_frame_works [OF small_pool_ok(1,2)] by (auto simp: small_pool_ok)
  then have inv: "pool_inv s" and one: "frames_of s = 1" by (auto simp: pool_moved_def small_pool_ok)
  have "cached_at s (3, 1) \<noteq> Some j" for j
    using pool_invD(7) [OF inv, of "(3, 1)" j] pool_invD(7) [OF inv, of "(3, 0)" i] s(2,5) one by auto
  then have "cached_at s (3, 1) = None" by (cases "cached_at s (3, 1)") auto
  with acquire_frame_hangs [OF inv this] s one show ?thesis by auto
qed

lemma close_frame_pool_works:
  assumes "pool_inv s"
  shows "\<exists>w. close_frame_pool s = Inr (fst s, w) \<and> files_ok w \<and> same_files (snd s) w \<and>
    disk_page w = pool_view s"
proof -
  have "i < frames_of s" if "cached_at s b = Some i" for b i
    using that pool_invD(7) [OF assms] by blast
  then have "(\<lambda>b. case cached_at s b of
      Some i \<Rightarrow> if i < frames_of s then Some (frame_bytes (fp_data (fst s)) i) else disk_page (snd s) b
    | None \<Rightarrow> disk_page (snd s) b) = pool_view s"
    by (auto simp: pool_view_def fun_eq_iff split: option.split)
  then show ?thesis
    using dump_frames_upto [OF assms, of "frames_of s"] pool_invD(3) [OF assms]
    by (simp add: close_frame_pool_def)
qed

text \<open>C25. Closing the pool writes back every frame that holds a page: afterwards each page on disk
  is what the pool showed for it.\<close>

theorem close_frame_pool_flushes:
  assumes "pool_inv s"
  shows "\<exists>w. close_frame_pool s = Inr (fst s, w) \<and> files_ok w \<and> disk_page w = pool_view s"
  using close_frame_pool_works [OF assms] by blast

theorem close_frame_pool_flushes_witness:
  "\<exists>w. close_frame_pool small_pool = Inr (fst small_pool, w) \<and>
    disk_page w (3, 0) = Some (replicate PageSize 0)"
  using close_frame_pool_flushes [OF small_pool_ok(1)] small_pool_ok(2) by auto

end
