(* ===== verification/Marshal.thy ===== *)
theory Marshal
  imports Prelude
begin

unbundle bit_operations_syntax

text \<open>
  \<open>src/table/{schema.h,row.h}\<close> and \<open>src/transform/marshal.{h,cpp}\<close>: rows of nulls, booleans
  and 64-bit numbers as fixed-width records. A row is written value by value, by the size of
  each value; it is read column by column, by the type of each column; the room set aside for
  it is the sum of the lengths the schema states. Bytes are little-endian, as on the
  platforms the code is built for. The byte of a null is whatever the compiler leaves in an
  empty struct, and is a field of the model's \<open>marshal\<close>.
\<close>

section \<open>Schemas and rows\<close>

datatype col_type = Boolean | Uint64

record column =
  col_name :: string
  col_type :: col_type
  col_length :: nat

type_synonym schema = "column list"

datatype attr = NullAttribute | Bool bool | U64 u64

type_synonym row = "attr list"

record row_id =
  page_index :: nat
  row_index :: nat

text \<open>The hash of a row's identifier, over the library's hash of an index: the identifiers with equal
  indexes share the hash 0 whatever that is.\<close>

definition row_id_hash :: "(nat \<Rightarrow> u64) \<Rightarrow> row_id \<Rightarrow> u64" where
  "row_id_hash hash_index rid = hash_index (page_index rid) XOR hash_index (row_index rid)"

lemma row_id_hash_diagonal: "row_id_hash hash_index \<lparr>page_index = i, row_index = i\<rparr> = 0"
  by (simp add: row_id_hash_def)

section \<open>Values as bytes\<close>

definition u64_bytes :: "u64 \<Rightarrow> byte list" where
  "u64_bytes v = map (\<lambda>i. ucast (drop_bit (8 * i) v)) [0..<8]"

definition u64_of_bytes :: "byte list \<Rightarrow> u64" where
  "u64_of_bytes bs = foldr (\<lambda>b acc. ucast b OR push_bit 8 acc) bs 0"

fun value_bytes :: "byte \<Rightarrow> attr \<Rightarrow> byte list" where
  "value_bytes null NullAttribute = [null]"
| "value_bytes null (Bool b) = [if b then 1 else 0]"
| "value_bytes null (U64 v) = u64_bytes v"

section \<open>The class Marshal\<close>

definition calculate_row_space :: "schema \<Rightarrow> nat" where
  "calculate_row_space cs = foldl (\<lambda>result c. (result + col_length c) mod 2 ^ 64) 0 cs"

record marshal =
  m_schema :: schema
  m_fixed_row_space :: nat
  m_null_byte :: byte

definition make_marshal :: "byte \<Rightarrow> schema \<Rightarrow> marshal" where
  "make_marshal null cs =
     \<lparr>m_schema = cs, m_fixed_row_space = calculate_row_space cs, m_null_byte = null\<rparr>"

definition fixed_row_space :: "marshal \<Rightarrow> nat result" where
  "fixed_row_space ms =
     bindE (assertE (m_fixed_row_space ms \<noteq> 0) ''fixed_row_space_ != 0'') (\<lambda>_. Inr (m_fixed_row_space ms))"

text \<open>\<open>serialize_row(data, row)\<close> and \<open>deserialize_row(data)\<close>; \<open>data\<close> is an offset into \<open>m\<close>.\<close>

primrec serialize_row :: "byte \<Rightarrow> row \<Rightarrow> nat \<Rightarrow> memory \<Rightarrow> memory result" where
  "serialize_row null [] data m = Inr m"
| "serialize_row null (v # vs) data m =
     (let bs = value_bytes null v in
      bindE (mem_store data bs m) (\<lambda>m'.
      bindE (assertE (data + length bs \<noteq> data) ''old_data != data'') (\<lambda>_.
        serialize_row null vs (data + length bs) m')))"

text \<open>Reading a byte other than 0 and 1 as a \<open>bool\<close> is undefined behaviour.\<close>

definition deserialize_bool :: "nat \<Rightarrow> memory \<Rightarrow> bool result" where
  "deserialize_bool data m =
     bindE (mem_load data 1 m) (\<lambda>bs.
     bindE (definedE (bs ! 0 = 0 \<or> bs ! 0 = 1) ''bool representation'') (\<lambda>_. Inr (bs ! 0 = 1)))"

definition deserialize_u64 :: "nat \<Rightarrow> memory \<Rightarrow> u64 result" where
  "deserialize_u64 data m = bindE (mem_load data 8 m) (\<lambda>bs. Inr (u64_of_bytes bs))"

primrec deserialize_row :: "schema \<Rightarrow> nat \<Rightarrow> memory \<Rightarrow> row result" where
  "deserialize_row [] data m = Inr []"
| "deserialize_row (c # cs) data m =
     (case col_type c of
        Boolean \<Rightarrow> bindE (deserialize_bool data m) (\<lambda>b.
          bindE (deserialize_row cs (data + 1) m) (\<lambda>r. Inr (Bool b # r)))
      | Uint64 \<Rightarrow> bindE (deserialize_u64 data m) (\<lambda>v.
          bindE (deserialize_row cs (data + 8) m) (\<lambda>r. Inr (U64 v # r))))"

section \<open>Rows that fit a schema\<close>

fun type_size :: "col_type \<Rightarrow> nat" where
  "type_size Boolean = 1"
| "type_size Uint64 = 8"

definition row_size :: "schema \<Rightarrow> nat" where
  "row_size cs = sum_list (map (type_size \<circ> col_type) cs)"

fun attr_fits :: "column \<Rightarrow> attr \<Rightarrow> bool" where
  "attr_fits c NullAttribute = False"
| "attr_fits c (Bool b) = (col_type c = Boolean)"
| "attr_fits c (U64 v) = (col_type c = Uint64)"

definition row_fits :: "schema \<Rightarrow> row \<Rightarrow> bool" where
  "row_fits cs r \<longleftrightarrow> list_all2 attr_fits cs r"

text \<open>A schema states its lengths truly: it is not empty, and the length of a column is the size
  of its type; a row and its header have a size that a \<open>size_t\<close> can hold.\<close>

definition schema_ok :: "schema \<Rightarrow> bool" where
  "schema_ok cs \<longleftrightarrow> cs \<noteq> [] \<and> (\<forall>c \<in> set cs. col_length c = type_size (col_type c)) \<and>
     1 + row_size cs < 2 ^ 64"

definition row_bytes :: "byte \<Rightarrow> row \<Rightarrow> byte list" where
  "row_bytes null r = concat (map (value_bytes null) r)"

section \<open>Round trip of a number\<close>

lemma length_u64_bytes [simp]: "length (u64_bytes v) = 8"
  by (simp add: u64_bytes_def)

lemma bit_u64_of_bytes:
  "bit (u64_of_bytes bs) n \<longleftrightarrow> n < 64 \<and> n div 8 < length bs \<and> bit (bs ! (n div 8)) (n mod 8)"
proof (induction bs arbitrary: n)
  case Nil
  then show ?case by (simp add: u64_of_bytes_def)
next
  case (Cons b bs)
  show ?case
  proof (cases "n < 8")
    case True
    then show ?thesis
      by (auto simp: u64_of_bytes_def bit_or_iff bit_push_bit_iff bit_ucast_iff)
  next
    case False
    then have n: "n div 8 = Suc ((n - 8) div 8)" "n mod 8 = (n - 8) mod 8"
      by (auto simp: le_div_geq le_mod_geq)
    have "\<not> bit b n" using False bit_imp_le_length [of b n] by auto
    then have "bit (u64_of_bytes (b # bs)) n \<longleftrightarrow> n < 64 \<and> bit (u64_of_bytes bs) (n - 8)"
      using False by (simp add: u64_of_bytes_def bit_or_iff bit_push_bit_iff bit_ucast_iff)
    also have "\<dots> \<longleftrightarrow> n < 64 \<and> (n - 8) div 8 < length bs \<and> bit (bs ! ((n - 8) div 8)) ((n - 8) mod 8)"
      unfolding Cons.IH by auto
    finally show ?thesis unfolding n by simp
  qed
qed

lemma nth_u64_bytes: "i < 8 \<Longrightarrow> u64_bytes v ! i = ucast (drop_bit (8 * i) v)"
  by (simp add: u64_bytes_def del: upt_Suc)

lemma u64_round_trip [simp]: "u64_of_bytes (u64_bytes v) = v"
proof (rule bit_word_eqI)
  fix n
  assume "n < LENGTH(64)"
  then have n: "n < 64" "n div 8 < 8" "n mod 8 < 8" "8 * (n div 8) + n mod 8 = n" by simp_all
  have "bit (u64_of_bytes (u64_bytes v)) n \<longleftrightarrow> bit (ucast (drop_bit (8 * (n div 8)) v) :: byte) (n mod 8)"
    unfolding bit_u64_of_bytes length_u64_bytes nth_u64_bytes [OF n(2)] using n(1,2) by blast
  also have "\<dots> \<longleftrightarrow> bit v (8 * (n div 8) + n mod 8)"
    using n(3) by (simp only: bit_ucast_iff bit_drop_bit_eq comp_apply) simp
  finally show "bit (u64_of_bytes (u64_bytes v)) n = bit v n" by (simp only: n(4))
qed

section \<open>Round trip of a row\<close>

lemma u64_bytes_of_bytes:
  assumes "i < 8" and "length bs = 8"
  shows "u64_bytes (u64_of_bytes bs) ! i = bs ! i"
proof (rule bit_word_eqI)
  fix n assume "n < LENGTH(8)"
  then have "n < 8" by simp
  then have "8 * i + n < 64" "(8 * i + n) div 8 = i" "(8 * i + n) mod 8 = n" using assms(1) by simp_all
  then show "bit (u64_bytes (u64_of_bytes bs) ! i) n = bit (bs ! i) n"
    using assms \<open>n < 8\<close> by (simp add: nth_u64_bytes bit_ucast_iff bit_drop_bit_eq bit_u64_of_bytes)
qed

lemma value_bytes_nonempty: "value_bytes null v \<noteq> []"
  by (cases v) (auto simp: u64_bytes_def)

lemma row_bytes_simps [simp]:
  "row_bytes null [] = []"
  "row_bytes null (v # vs) = value_bytes null v @ row_bytes null vs"
  by (simp_all add: row_bytes_def)

lemma row_size_simps [simp]:
  "row_size [] = 0"
  "row_size (c # cs) = type_size (col_type c) + row_size cs"
  by (simp_all add: row_size_def)

lemma attr_fits_length: "attr_fits c v \<Longrightarrow> length (value_bytes null v) = type_size (col_type c)"
  by (cases v) auto

lemma row_fits_Nil [simp]: "row_fits [] r \<longleftrightarrow> r = []"
  by (simp add: row_fits_def)

lemma row_fits_Cons [simp]: "row_fits (c # cs) r \<longleftrightarrow> (\<exists>v vs. r = v # vs \<and> attr_fits c v \<and> row_fits cs vs)"
  by (auto simp: row_fits_def list_all2_Cons1)

lemma row_fits_length: "row_fits cs r \<Longrightarrow> length (row_bytes null r) = row_size cs"
  by (induction cs arbitrary: r) (auto simp: attr_fits_length)

lemma overlay_append:
  assumes "off + length xs + length ys \<le> length m"
  shows "overlay (off + length xs) ys (overlay off xs m) = overlay off (xs @ ys) m"
  using assms by (simp add: overlay_def algebra_simps)

lemma serialize_row_store:
  "data + length (row_bytes null r) \<le> length m \<Longrightarrow>
    serialize_row null r data m = Inr (overlay data (row_bytes null r) m)"
proof (induction r arbitrary: data m)
  case Nil
  then show ?case by (simp add: overlay_def)
next
  case (Cons v vs)
  then show ?case
    using value_bytes_nonempty [of null v]
    by (simp add: Let_def length_overlay overlay_append)
qed

lemma deserialize_row_bytes:
  assumes "row_fits cs r" and "data + row_size cs \<le> length m"
    and "region data (row_size cs) m = row_bytes null r"
  shows "deserialize_row cs data m = Inr r"
  using assms
proof (induction cs arbitrary: r data)
  case Nil
  then show ?case by simp
next
  case (Cons c cs)
  then obtain v vs where r: "r = v # vs" "attr_fits c v" "row_fits cs vs" by auto
  let ?k = "type_size (col_type c)"
  have len: "length (value_bytes null v) = ?k" using r(2) by (rule attr_fits_length)
  have whole: "region data (?k + row_size cs) m = value_bytes null v @ row_bytes null vs"
    using Cons.prems(3) r(1) by simp
  have "region data ?k m = take ?k (region data (?k + row_size cs) m)"
    by (simp add: region_def min_def)
  then have head: "region data ?k m = value_bytes null v" using whole len by simp
  have "region (data + ?k) (row_size cs) m = drop ?k (region data (?k + row_size cs) m)"
    by (simp add: region_def drop_take add.commute)
  then have "region (data + ?k) (row_size cs) m = row_bytes null vs" using whole len by simp
  with Cons r(3) have "deserialize_row cs (data + ?k) m = Inr vs" by simp
  with head r Cons.prems(2) show ?case
    by (cases v) (auto simp: deserialize_bool_def deserialize_u64_def)
qed

text \<open>What is read fits the schema, whatever the bytes.\<close>

lemma deserialize_row_fits: "deserialize_row cs data m = Inr r \<Longrightarrow> row_fits cs r"
  by (induction cs arbitrary: data r) (auto simp: result_simps split: col_type.splits)

lemma deserialize_row_region:
  assumes "base + n \<le> length m" and "data + row_size cs \<le> n"
  shows "deserialize_row cs (base + data) m = deserialize_row cs data (region base n m)"
  using assms(2)
proof (induction cs arbitrary: data)
  case (Cons c cs)
  with assms(1) Cons.IH [of "data + 1"] Cons.IH [of "data + 8"] show ?case
    by (cases "col_type c")
      (simp_all add: deserialize_bool_def deserialize_u64_def length_region region_region add.assoc)
qed simp

lemma foldl_mod_sum:
  "foldl (\<lambda>s c. (s + f c) mod (M::nat)) a cs mod M = (a + sum_list (map f cs)) mod M"
  by (induction cs arbitrary: a) (simp_all add: mod_simps add.assoc)

lemma calculate_row_space_sum: "calculate_row_space cs = sum_list (map col_length cs) mod 2 ^ 64"
proof -
  have "foldl (\<lambda>s c. (s + col_length c) mod 2 ^ 64) a cs < 2 ^ 64" if "a < 2 ^ 64" for a
    using that by (induction cs arbitrary: a) simp_all
  then have "calculate_row_space cs < 2 ^ 64" by (simp add: calculate_row_space_def)
  with foldl_mod_sum [of col_length "2 ^ 64" 0 cs] show ?thesis
    by (simp add: calculate_row_space_def)
qed

lemma calculate_row_space_ok: "schema_ok cs \<Longrightarrow> calculate_row_space cs = row_size cs"
proof -
  assume ok: "schema_ok cs"
  then have "map col_length cs = map (type_size \<circ> col_type) cs" by (simp add: schema_ok_def)
  moreover have "row_size cs < 2 ^ 64" using ok by (simp add: schema_ok_def)
  ultimately show ?thesis by (simp only: calculate_row_space_sum row_size_def mod_less)
qed

lemma row_size_pos: "schema_ok cs \<Longrightarrow> 0 < row_size cs"
proof -
  assume "schema_ok cs"
  then obtain c cs' where "cs = c # cs'" by (cases cs) (auto simp: schema_ok_def)
  then show ?thesis by (cases "col_type c") simp_all
qed

section \<open>Properties\<close>

text \<open>C20. Serializing a row into a buffer with room for it and deserializing the buffer with a
  schema gives the row back exactly when the row fits the schema: as many values as columns,
  each of the column's type, no null.\<close>

theorem marshal_round_trip:
  assumes "data + max (length (row_bytes null r)) (row_size cs) \<le> length m"
  shows "bindE (serialize_row null r data m) (deserialize_row cs data) = Inr r \<longleftrightarrow> row_fits cs r"
proof
  assume "bindE (serialize_row null r data m) (deserialize_row cs data) = Inr r"
  then show "row_fits cs r" by (auto simp: result_simps dest: deserialize_row_fits)
next
  assume fits: "row_fits cs r"
  then have len: "length (row_bytes null r) = row_size cs" by (rule row_fits_length)
  with assms have "region data (row_size cs) (overlay data (row_bytes null r) m) = row_bytes null r"
    by (simp add: region_overlay_same)
  with assms fits len show "bindE (serialize_row null r data m) (deserialize_row cs data) = Inr r"
    by (simp add: serialize_row_store length_overlay deserialize_row_bytes)
qed

theorem marshal_round_trip_witness:
  "bindE (serialize_row 9 [U64 10, Bool True] 0 (replicate 9 0))
     (deserialize_row [\<lparr>col_name = ''id'', col_type = Uint64, col_length = 8\<rparr>,
        \<lparr>col_name = ''status'', col_type = Boolean, col_length = 1\<rparr>] 0) = Inr [U64 10, Bool True]"
proof -
  have "0 + max (length (row_bytes 9 [U64 10, Bool True])) (row_size
      [\<lparr>col_name = ''id'', col_type = Uint64, col_length = 8\<rparr>,
        \<lparr>col_name = ''status'', col_type = Boolean, col_length = 1\<rparr>]) \<le> length (replicate 9 (0::byte))"
    by simp
  from marshal_round_trip [OF this] show ?thesis by simp
qed

text \<open>For a schema that states the length of every column truly, the room set aside for a row is
  the number of bytes serializing a fitting row writes.\<close>

lemma row_space_is_row_size:
  assumes "schema_ok cs" and "row_fits cs r"
  shows "fixed_row_space (make_marshal null cs) = Inr (length (row_bytes null r))"
  using assms row_size_pos [OF assms(1)]
  by (simp add: fixed_row_space_def make_marshal_def calculate_row_space_ok row_fits_length)

end
