(* ===== verification/Table_Page.thy ===== *)
theory Table_Page
  imports Marshal Page_File
begin

text \<open>
  \<open>src/table/fixed_table_page.{h,cpp}\<close>: a page as an array of slots, each a header byte (used
  or not) and the bytes of a row. Inserting takes the first unused slot. A page is the memory
  at a data pointer, an offset \<open>page\<close> into the allocation \<open>m\<close> of the frame pool: nothing stops
  an access from leaving the page.

  The abstraction of a page is its list of slots, each empty or holding a row.
\<close>

section \<open>The class FixedTablePage\<close>

definition data_by_index :: "marshal \<Rightarrow> nat \<Rightarrow> nat \<Rightarrow> nat result" where
  "data_by_index ms page index =
     bindE (fixed_row_space ms) (\<lambda>space. Inr (page + (index * (1 + space)) mod 2 ^ 64))"

definition max_row_index :: "marshal \<Rightarrow> nat result" where
  "max_row_index ms =
     bindE (fixed_row_space ms) (\<lambda>space.
     bindE (definedE ((1 + space) mod 2 ^ 64 \<noteq> 0) ''division by zero'') (\<lambda>_.
       Inr (PageSize div ((1 + space) mod 2 ^ 64))))"

text \<open>The loop of \<open>find_free_slot\<close> over the indexes still to visit.\<close>

primrec find_free_in :: "marshal \<Rightarrow> nat \<Rightarrow> memory \<Rightarrow> nat list \<Rightarrow> (bool \<times> nat) result" where
  "find_free_in ms page m [] = Inr (False, 0)"
| "find_free_in ms page m (index # rest) =
     bindE (data_by_index ms page index) (\<lambda>index_data.
     bindE (mem_load index_data 1 m) (\<lambda>bs.
       if bs ! 0 = 0 then Inr (True, index) else find_free_in ms page m rest))"

definition find_free_slot :: "marshal \<Rightarrow> nat \<Rightarrow> memory \<Rightarrow> (bool \<times> nat) result" where
  "find_free_slot ms page m =
     bindE (max_row_index ms) (\<lambda>n. find_free_in ms page m [0..<n])"

definition page_insert_row :: "marshal \<Rightarrow> nat \<Rightarrow> row \<Rightarrow> memory \<Rightarrow> ((bool \<times> nat) \<times> memory) result" where
  "page_insert_row ms page row m =
     bindE (find_free_slot ms page m) (\<lambda>(ok, row_index).
       if ok
       then bindE (data_by_index ms page row_index) (\<lambda>row_header.
            bindE (mem_store row_header [1] m) (\<lambda>m1.
            bindE (serialize_row (m_null_byte ms) row (row_header + 1) m1) (\<lambda>m2.
            bindE (deserialize_row (m_schema ms) (row_header + 1) m2) (\<lambda>actual_row.
            bindE (assertE (actual_row = row) ''actual_row == row'') (\<lambda>_.
              Inr ((True, row_index), m2))))))
       else Inr ((False, 0), m))"

definition page_get_row :: "marshal \<Rightarrow> nat \<Rightarrow> nat \<Rightarrow> memory \<Rightarrow> row result" where
  "page_get_row ms page index m =
     bindE (data_by_index ms page index) (\<lambda>row_header.
     bindE (mem_load row_header 1 m) (\<lambda>bs.
       if bs ! 0 \<noteq> 0 then deserialize_row (m_schema ms) (row_header + 1) m else Inr []))"

section \<open>The slots of a page\<close>

text \<open>From here on the schema states its lengths truly.\<close>

definition marshal_ok :: "marshal \<Rightarrow> bool" where
  "marshal_ok ms \<longleftrightarrow> schema_ok (m_schema ms) \<and> m_fixed_row_space ms = row_size (m_schema ms)"

definition slot_size :: "marshal \<Rightarrow> nat" where
  "slot_size ms = 1 + row_size (m_schema ms)"

definition slots_of :: "marshal \<Rightarrow> nat" where
  "slots_of ms = PageSize div slot_size ms"

text \<open>Slot \<open>i\<close> of a page given by its bytes.\<close>

definition slot :: "marshal \<Rightarrow> byte list \<Rightarrow> nat \<Rightarrow> row option" where
  "slot ms bs i =
     (if bs ! (i * slot_size ms) = 0 then None
      else (case deserialize_row (m_schema ms) (i * slot_size ms + 1) bs of
              Inl _ \<Rightarrow> None | Inr r \<Rightarrow> Some r))"

text \<open>Every used slot holds a readable row.\<close>

definition page_ok :: "marshal \<Rightarrow> byte list \<Rightarrow> bool" where
  "page_ok ms bs \<longleftrightarrow> length bs = PageSize \<and>
     (\<forall>i < slots_of ms. bs ! (i * slot_size ms) \<noteq> 0 \<longrightarrow>
        (\<exists>r. deserialize_row (m_schema ms) (i * slot_size ms + 1) bs = Inr r))"

definition page_rows :: "marshal \<Rightarrow> byte list \<Rightarrow> row option list" where
  "page_rows ms bs = map (slot ms bs) [0..<slots_of ms]"

text \<open>Inserting, on the abstraction: the first empty slot, if any.\<close>

definition first_empty :: "'a option list \<Rightarrow> nat option" where
  "first_empty xs = List.find (\<lambda>i. xs ! i = None) [0..<length xs]"

lemma marshal_ok_make: "schema_ok cs \<Longrightarrow> marshal_ok (make_marshal null cs)"
  by (simp add: marshal_ok_def make_marshal_def calculate_row_space_ok)

lemma fixed_row_space_ok: "marshal_ok ms \<Longrightarrow> fixed_row_space ms = Inr (row_size (m_schema ms))"
  using row_size_pos [of "m_schema ms"] by (simp add: fixed_row_space_def marshal_ok_def)

lemma max_row_index_ok: "marshal_ok ms \<Longrightarrow> max_row_index ms = Inr (slots_of ms)"
  by (simp add: max_row_index_def fixed_row_space_ok slots_of_def slot_size_def marshal_ok_def schema_ok_def)

lemma slot_inside:
  assumes "i < slots_of ms"
  shows "i * slot_size ms + slot_size ms \<le> PageSize"
proof -
  have "(i + 1) * slot_size ms \<le> slots_of ms * slot_size ms"
    using assms by (intro mult_le_mono1) simp
  also have "\<dots> \<le> PageSize" by (simp add: slots_of_def)
  finally show ?thesis by simp
qed

lemma slots_apart:
  fixes i j :: nat
  assumes "i \<noteq> j"
  shows "i * slot_size ms + slot_size ms \<le> j * slot_size ms \<or>
    j * slot_size ms + slot_size ms \<le> i * slot_size ms"
proof -
  have "i + 1 \<le> j \<or> j + 1 \<le> i" using assms by arith
  then have "(i + 1) * slot_size ms \<le> j * slot_size ms \<or> (j + 1) * slot_size ms \<le> i * slot_size ms"
    using mult_le_mono1 by blast
  then show ?thesis by (simp add: add.commute)
qed

lemma data_by_index_ok:
  assumes "marshal_ok ms" and "i < slots_of ms"
  shows "data_by_index ms page i = Inr (page + i * slot_size ms)"
proof -
  have "i * slot_size ms < 2 ^ 64" using slot_inside [OF assms(2)] by (simp add: PageSize_def)
  with assms show ?thesis
    by (simp add: data_by_index_def fixed_row_space_ok slot_size_def)
qed

text \<open>From here a page lies at \<open>page\<close> in the allocation.\<close>

definition page_at :: "nat \<Rightarrow> memory \<Rightarrow> byte list" where
  "page_at page m = region page PageSize m"

lemma load_header:
  assumes "page + PageSize \<le> length m" and "i < slots_of ms"
  shows "mem_load (page + i * slot_size ms) 1 m = Inr [page_at page m ! (i * slot_size ms)]"
  using assms slot_inside [OF assms(2)]
  by (simp add: page_at_def nth_region slot_size_def)
    (simp add: region_def take_Suc hd_drop_conv_nth)

lemma load_row:
  assumes "page + PageSize \<le> length m" and "i < slots_of ms"
  shows "deserialize_row (m_schema ms) (page + i * slot_size ms + 1) m =
    deserialize_row (m_schema ms) (i * slot_size ms + 1) (page_at page m)"
  using deserialize_row_region [OF assms(1), of "i * slot_size ms + 1" "m_schema ms"]
    slot_inside [OF assms(2)]
  by (simp add: page_at_def slot_size_def)

lemma page_get_row_ok:
  assumes "marshal_ok ms" and "page + PageSize \<le> length m" and "i < slots_of ms"
    and "page_ok ms (page_at page m)"
  shows "page_get_row ms page i m = Inr (case slot ms (page_at page m) i of None \<Rightarrow> [] | Some r \<Rightarrow> r)"
  using assms load_row [OF assms(2,3)]
  by (auto simp: page_get_row_def data_by_index_ok load_header slot_def page_ok_def
      simp del: One_nat_def)

lemma slot_None_iff:
  "page_ok ms bs \<Longrightarrow> i < slots_of ms \<Longrightarrow> slot ms bs i = None \<longleftrightarrow> bs ! (i * slot_size ms) = 0"
  by (auto simp: slot_def page_ok_def split: sum.split)

lemma find_free_in_ok:
  assumes "marshal_ok ms" and "page + PageSize \<le> length m" and "page_ok ms (page_at page m)"
    and "\<forall>i \<in> set is. i < slots_of ms"
  shows "find_free_in ms page m is =
    (case List.find (\<lambda>i. slot ms (page_at page m) i = None) is of
       None \<Rightarrow> Inr (False, 0) | Some i \<Rightarrow> Inr (True, i))"
  using assms(4)
  by (induction "is")
    (simp_all add: assms(1-3) data_by_index_ok load_header slot_None_iff del: One_nat_def)

lemma find_free_slot_ok:
  assumes "marshal_ok ms" and "page + PageSize \<le> length m" and "page_ok ms (page_at page m)"
  shows "find_free_slot ms page m =
    (case first_empty (page_rows ms (page_at page m)) of
       None \<Rightarrow> Inr (False, 0) | Some i \<Rightarrow> Inr (True, i))"
proof -
  have "first_empty (page_rows ms (page_at page m)) =
      List.find (\<lambda>i. slot ms (page_at page m) i = None) [0..<slots_of ms]"
    by (auto simp: first_empty_def page_rows_def intro!: find_cong)
  with find_free_in_ok [OF assms, of "[0..<slots_of ms]"] assms(1) show ?thesis
    by (simp add: find_free_slot_def max_row_index_ok)
qed

lemma first_empty_Some:
  assumes "first_empty xs = Some i"
  shows "i < length xs" and "xs ! i = None" and "\<And>j. j < i \<Longrightarrow> xs ! j \<noteq> None"
  using assms by (auto simp: first_empty_def find_Some_iff)

lemma first_empty_None: "first_empty xs = None \<longleftrightarrow> None \<notin> set xs"
  by (auto simp: first_empty_def find_None_iff in_set_conv_nth)

section \<open>Filling a slot\<close>

definition fill_slot :: "marshal \<Rightarrow> nat \<Rightarrow> row \<Rightarrow> byte list \<Rightarrow> byte list" where
  "fill_slot ms i r bs = overlay (i * slot_size ms) (1 # row_bytes (m_null_byte ms) r) bs"

lemma deserialize_row_local:
  assumes "data + row_size cs \<le> length m" and "data + row_size cs \<le> length m'"
    and "region data (row_size cs) m = region data (row_size cs) m'"
  shows "deserialize_row cs data m = deserialize_row cs data m'"
  using deserialize_row_region [OF assms(1), of 0 cs] deserialize_row_region [OF assms(2), of 0 cs]
    assms(3) by simp

lemma fill_slot_row:
  assumes "row_fits (m_schema ms) r" and "i < slots_of ms" and "length bs = PageSize"
  shows "length (fill_slot ms i r bs) = PageSize"
    and "fill_slot ms i r bs ! (i * slot_size ms) = 1"
    and "deserialize_row (m_schema ms) (i * slot_size ms + 1) (fill_slot ms i r bs) = Inr r"
proof -
  let ?o = "i * slot_size ms" and ?rb = "row_bytes (m_null_byte ms) r"
  have len: "length ?rb = row_size (m_schema ms)" using assms(1) by (rule row_fits_length)
  then have fit: "?o + length (1 # ?rb) \<le> length bs"
    using slot_inside [OF assms(2)] assms(3) by (simp add: slot_size_def)
  show total: "length (fill_slot ms i r bs) = PageSize"
    using fit assms(3) by (simp only: fill_slot_def length_overlay)
  show "fill_slot ms i r bs ! ?o = 1"
    using fit by (simp add: fill_slot_def nth_overlay del: length_Cons)
  have "region ?o (1 + length ?rb) (fill_slot ms i r bs) = 1 # ?rb"
    using fit by (simp add: fill_slot_def region_overlay_same)
  moreover have "region (?o + 1) (length ?rb) (fill_slot ms i r bs) =
      drop 1 (region ?o (1 + length ?rb) (fill_slot ms i r bs))"
    by (simp add: region_def drop_take)
  ultimately have "region (?o + 1) (row_size (m_schema ms)) (fill_slot ms i r bs) = ?rb"
    using len by simp
  then show "deserialize_row (m_schema ms) (?o + 1) (fill_slot ms i r bs) = Inr r"
    using assms(1) fit len total assms(3) by (intro deserialize_row_bytes) simp_all
qed

lemma fill_slot_other:
  assumes "row_fits (m_schema ms) r" and "i < slots_of ms" and "length bs = PageSize"
    and "j < slots_of ms" and "j \<noteq> i"
  shows "fill_slot ms i r bs ! (j * slot_size ms) = bs ! (j * slot_size ms)"
    and "deserialize_row (m_schema ms) (j * slot_size ms + 1) (fill_slot ms i r bs) =
      deserialize_row (m_schema ms) (j * slot_size ms + 1) bs"
proof -
  let ?o = "i * slot_size ms" and ?rb = "row_bytes (m_null_byte ms) r"
  have len: "length (1 # ?rb) = slot_size ms"
    using row_fits_length [OF assms(1)] by (simp add: slot_size_def)
  have in_i: "?o + length (1 # ?rb) \<le> length bs"
    using slot_inside [OF assms(2)] assms(3) len by simp
  have in_j: "j * slot_size ms + slot_size ms \<le> length bs"
    using slot_inside [OF assms(4)] assms(3) by simp
  have apart: "j * slot_size ms + slot_size ms \<le> ?o \<or> ?o + slot_size ms \<le> j * slot_size ms"
    using slots_apart [OF assms(5)] by blast
  have pos: "0 < slot_size ms" by (simp add: slot_size_def)
  show "fill_slot ms i r bs ! (j * slot_size ms) = bs ! (j * slot_size ms)"
  proof -
    have "j * slot_size ms < length bs" using in_j pos by linarith
    moreover have "\<not> (?o \<le> j * slot_size ms \<and> j * slot_size ms < ?o + length (1 # ?rb))"
      using apart len pos by linarith
    ultimately show ?thesis
      unfolding fill_slot_def nth_overlay [OF in_i] by (simp only: nth_overlay [OF in_i] if_not_P if_False)
  qed
  show "deserialize_row (m_schema ms) (j * slot_size ms + 1) (fill_slot ms i r bs) =
      deserialize_row (m_schema ms) (j * slot_size ms + 1) bs"
  proof (rule deserialize_row_local)
    show "region (j * slot_size ms + 1) (row_size (m_schema ms)) (fill_slot ms i r bs) =
        region (j * slot_size ms + 1) (row_size (m_schema ms)) bs"
      unfolding fill_slot_def
      using in_i in_j apart len by (intro region_overlay_other) (auto simp: slot_size_def)
  qed (use in_i in_j assms(3) in \<open>auto simp: slot_size_def fill_slot_def length_overlay\<close>)
qed

lemma fill_slot_works:
  assumes "row_fits (m_schema ms) r" and "i < slots_of ms" and "page_ok ms bs"
  shows "page_ok ms (fill_slot ms i r bs)"
    and "page_rows ms (fill_slot ms i r bs) = (page_rows ms bs)[i := Some r]"
proof -
  have len: "length bs = PageSize" using assms(3) by (simp add: page_ok_def)
  note here = fill_slot_row [OF assms(1,2) len]
  note there = fill_slot_other [OF assms(1,2) len]
  show "page_ok ms (fill_slot ms i r bs)"
    unfolding page_ok_def
  proof (intro conjI allI impI here(1))
    fix j assume "j < slots_of ms" and "fill_slot ms i r bs ! (j * slot_size ms) \<noteq> 0"
    with here there [of j] assms(3)
    show "\<exists>r'. deserialize_row (m_schema ms) (j * slot_size ms + 1) (fill_slot ms i r bs) = Inr r'"
      by (cases "j = i") (auto simp: page_ok_def)
  qed
  have "slot ms (fill_slot ms i r bs) j = (if j = i then Some r else slot ms bs j)" if "j < slots_of ms" for j
    using here there [OF that] by (auto simp: slot_def)
  then show "page_rows ms (fill_slot ms i r bs) = (page_rows ms bs)[i := Some r]"
    by (intro nth_equalityI) (auto simp: page_rows_def nth_list_update)
qed

lemma page_at_fill:
  assumes "page + PageSize \<le> length m" and "row_fits (m_schema ms) r" and "i < slots_of ms"
  shows "page_at page (overlay (page + i * slot_size ms) (1 # row_bytes (m_null_byte ms) r) m) =
    fill_slot ms i r (page_at page m)"
  using slot_inside [OF assms(3)] row_fits_length [OF assms(2), of "m_null_byte ms"] assms(1)
  unfolding page_at_def fill_slot_def
  by (intro region_overlay_inside) (simp_all add: slot_size_def)

lemma page_insert_row_ok:
  assumes ms: "marshal_ok ms" and room: "page + PageSize \<le> length m"
    and ok: "page_ok ms (page_at page m)" and fits: "row_fits (m_schema ms) r"
  shows "page_insert_row ms page r m =
    (case first_empty (page_rows ms (page_at page m)) of
       None \<Rightarrow> Inr ((False, 0), m)
     | Some i \<Rightarrow> Inr ((True, i), overlay (page + i * slot_size ms) (1 # row_bytes (m_null_byte ms) r) m))"
proof (cases "first_empty (page_rows ms (page_at page m))")
  case None
  with find_free_slot_ok [OF ms room ok] show ?thesis by (simp add: page_insert_row_def)
next
  case (Some i)
  then have i: "i < slots_of ms" using first_empty_Some(1) by (fastforce simp: page_rows_def)
  let ?o = "page + i * slot_size ms" and ?rb = "row_bytes (m_null_byte ms) r"
  have len: "length ?rb = row_size (m_schema ms)" using fits by (rule row_fits_length)
  then have fit: "?o + length [1 :: byte] + length ?rb \<le> length m"
    using slot_inside [OF i] room by (simp add: slot_size_def)
  let ?m = "overlay ?o (1 # ?rb) m"
  have st: "mem_store ?o [1] m = Inr (overlay ?o [1] m)" using fit by simp
  have "serialize_row (m_null_byte ms) r (?o + 1) (overlay ?o [1] m) =
      Inr (overlay (?o + 1) ?rb (overlay ?o [1] m))"
    using fit by (intro serialize_row_store) (simp add: length_overlay)
  then have ser: "serialize_row (m_null_byte ms) r (?o + 1) (overlay ?o [1] m) = Inr ?m"
    using overlay_append [OF fit] by simp
  have "page + PageSize \<le> length ?m" using room fit by (simp add: length_overlay)
  then have "deserialize_row (m_schema ms) (?o + 1) ?m = Inr r"
    using load_row [OF _ i, of page ?m] page_at_fill [OF room fits i] fill_slot_row(3) [OF fits i, of "page_at page m"] ok
    by (simp add: page_ok_def)
  with Some find_free_slot_ok [OF ms room ok] st ser show ?thesis
    by (simp add: page_insert_row_def data_by_index_ok [OF ms i] del: mem_store_inside)
qed

text \<open>A row that does not fit the schema never gets past the assertion.\<close>

lemma page_insert_row_misfit:
  assumes "\<not> row_fits (m_schema ms) r"
  shows "page_insert_row ms page r m \<noteq> Inr ((True, i), m')"
  using assms deserialize_row_fits
  by (auto simp: page_insert_row_def result_simps split: if_splits prod.splits)

section \<open>Properties\<close>

text \<open>A zeroed page, for the witnesses: well-formed, with every slot empty.\<close>

definition id_marshal :: marshal where
  "id_marshal = make_marshal 0 [\<lparr>col_name = ''id'', col_type = Uint64, col_length = 8\<rparr>]"

lemma id_marshal_ok: "marshal_ok id_marshal" "0 < slots_of id_marshal"
    "row_fits (m_schema id_marshal) [U64 7]" "\<not> row_fits (m_schema id_marshal) [Bool True]"
  by (simp_all add: id_marshal_def marshal_ok_make schema_ok_def)
    (simp_all add: make_marshal_def slots_of_def slot_size_def PageSize_def)

lemma zero_page_ok:
  assumes "marshal_ok ms"
  shows "page_ok ms (replicate PageSize 0)"
    and "page_rows ms (replicate PageSize 0) = replicate (slots_of ms) None"
    and "0 < slots_of ms \<Longrightarrow> first_empty (page_rows ms (replicate PageSize 0)) = Some 0"
proof -
  have zero: "replicate PageSize (0::byte) ! (i * slot_size ms) = 0" if "i < slots_of ms" for i
    using slot_inside [OF that] by (simp add: slot_size_def)
  then show "page_ok ms (replicate PageSize 0)" by (simp add: page_ok_def)
  show rows: "page_rows ms (replicate PageSize 0) = replicate (slots_of ms) None"
    using zero by (intro nth_equalityI) (auto simp: page_rows_def slot_def)
  show "first_empty (page_rows ms (replicate PageSize 0)) = Some 0" if "0 < slots_of ms"
    using that unfolding rows by (auto simp: first_empty_def find_Some_iff)
qed

lemma page_at_whole: "length m = PageSize \<Longrightarrow> page_at 0 m = m"
  by (simp add: page_at_def region_def)

text \<open>C19. For a schema that states its lengths truly, inserting a fitting row into a well-formed page
  refines the insertion into a list of slots: the row goes to the first empty slot and every
  other slot keeps its row, or the page is full and nothing is written. No byte outside the
  page changes.\<close>

theorem page_insert_refines:
  assumes "marshal_ok ms" and "page + PageSize \<le> length m" and "page_ok ms (page_at page m)"
    and "row_fits (m_schema ms) r"
  shows "case first_empty (page_rows ms (page_at page m)) of
      None \<Rightarrow> page_insert_row ms page r m = Inr ((False, 0), m)
    | Some i \<Rightarrow> \<exists>m'. page_insert_row ms page r m = Inr ((True, i), m') \<and> page_ok ms (page_at page m') \<and>
        page_rows ms (page_at page m') = (page_rows ms (page_at page m))[i := Some r] \<and>
        length m' = length m \<and>
        (\<forall>off n. off + n \<le> length m \<longrightarrow> off + n \<le> page \<or> page + PageSize \<le> off \<longrightarrow>
           region off n m' = region off n m)"
proof (cases "first_empty (page_rows ms (page_at page m))")
  case None
  with page_insert_row_ok [OF assms] show ?thesis by simp
next
  case (Some i)
  then have i: "i < slots_of ms" using first_empty_Some(1) by (fastforce simp: page_rows_def)
  let ?ys = "1 # row_bytes (m_null_byte ms) r" and ?o = "page + i * slot_size ms"
  have fit: "?o + length ?ys \<le> page + PageSize"
    using slot_inside [OF i] row_fits_length [OF assms(4)] by (simp add: slot_size_def)
  then have "?o + length ?ys \<le> length m" using assms(2) by linarith
  moreover have "region off n (overlay ?o ?ys m) = region off n m"
    if "off + n \<le> length m" "off + n \<le> page \<or> page + PageSize \<le> off" for off n
    using that fit \<open>?o + length ?ys \<le> length m\<close> by (intro region_overlay_other) auto
  ultimately show ?thesis
    using Some page_insert_row_ok [OF assms] page_at_fill [OF assms(2,4) i]
      fill_slot_works [OF assms(4) i assms(3)]
    by (simp add: length_overlay)
qed

theorem page_insert_refines_witness:
  "\<exists>m'. page_insert_row id_marshal 0 [U64 7] (replicate PageSize 0) = Inr ((True, 0), m') \<and>
    page_rows id_marshal m' ! 0 = Some [U64 7]"
proof -
  have rows: "first_empty (page_rows id_marshal (replicate PageSize 0)) = Some 0"
    and whole: "page_at 0 (replicate PageSize (0::byte)) = replicate PageSize 0"
    and "0 + PageSize \<le> length (replicate PageSize (0::byte))"
    by (simp_all add: zero_page_ok(3) id_marshal_ok page_at_whole)
  from page_insert_refines [OF id_marshal_ok(1) this(3), of "[U64 7]", unfolded whole]
  obtain m' where "page_insert_row id_marshal 0 [U64 7] (replicate PageSize 0) = Inr ((True, 0), m')"
      "page_rows id_marshal (page_at 0 m') =
        (page_rows id_marshal (replicate PageSize 0))[0 := Some [U64 7]]"
      "length m' = PageSize"
    using rows by (auto simp: zero_page_ok(1) id_marshal_ok)
  then show ?thesis
    using id_marshal_ok(2) by (auto simp: page_at_whole zero_page_ok(2) id_marshal_ok(1))
qed

text \<open>C28. A row that does not fit the schema (a missing or extra value, a value of another type, a
  null) is never reported as inserted: with a free slot the call ends in its assertion, or
  before it in an access outside the allocation.\<close>

theorem page_insert_misfit_fails:
  assumes "marshal_ok ms" and "page + PageSize \<le> length m" and "page_ok ms (page_at page m)"
    and "first_empty (page_rows ms (page_at page m)) = Some i" and "\<not> row_fits (m_schema ms) r"
  shows "\<exists>e. page_insert_row ms page r m = Inl e"
proof (cases "page_insert_row ms page r m")
  case (Inr x)
  obtain ok j m' where "x = ((ok, j), m')" by (metis surj_pair)
  moreover from Inr this find_free_slot_ok [OF assms(1-3)] assms(4) have ok
    by (auto simp: page_insert_row_def result_simps)
  ultimately show ?thesis using Inr page_insert_row_misfit [OF assms(5)] by auto
qed simp

theorem page_insert_misfit_fails_witness:
  "\<exists>e. page_insert_row id_marshal 0 [Bool True] (replicate PageSize 0) = Inl e"
  by (rule page_insert_misfit_fails [of _ 0 _ 0])
    (simp_all add: id_marshal_ok page_at_whole zero_page_ok(1,3))

text \<open>Reading slot \<open>i\<close> of a well-formed page gives the row it holds, and the empty row for an
  empty slot.\<close>

lemma page_get_row_reads:
  assumes "marshal_ok ms" and "page + PageSize \<le> length m" and "page_ok ms (page_at page m)"
    and "i < slots_of ms"
  shows "page_get_row ms page i m =
    Inr (case page_rows ms (page_at page m) ! i of None \<Rightarrow> [] | Some r \<Rightarrow> r)"
  using page_get_row_ok [OF assms(1,2,4,3)] assms(4) by (simp add: page_rows_def)

















end
