(* ===== verification/Table.thy ===== *)
theory Table
  imports Frame_Pool Table_Page
begin

text \<open>
  \<open>src/table/table.cpp\<close> and \<open>src/transform/fixed_page_provider.cpp\<close>: a table is a file of slotted
  pages reached through the buffer pool. \<open>insert_row\<close> walks the pages from a remembered index
  until one takes the row, appending pages when it runs past the end; the walk is a loop
  without a bound, so its result is an option, \<open>None\<close> for a call that does not return.

  The abstraction of a table is the map from row identifiers to rows. Its clients see the
  interface \<open>row_store\<close>, which the model interprets.
\<close>

section \<open>The page provider\<close>

record table_page =
  tp_page :: pool_page
  tp_marshal :: marshal

definition transform :: "marshal \<Rightarrow> pool_page \<Rightarrow> table_page" where
  "transform ms pg = \<lparr>tp_page = pg, tp_marshal = ms\<rparr>"

definition make_fixed_page_provider :: "byte \<Rightarrow> schema \<Rightarrow> marshal" where
  "make_fixed_page_provider null cs = make_marshal null cs"

text \<open>The operations of a table page, on the memory of the pool.\<close>

definition tp_insert_row :: "table_page \<Rightarrow> row \<Rightarrow> pool_state \<Rightarrow> ((bool \<times> nat) \<times> pool_state) result" where
  "tp_insert_row tp row s =
     bindE (page_insert_row (tp_marshal tp) (get_data (tp_page tp)) row (fp_data (fst s)))
       (\<lambda>(r, m). Inr (r, set_mem m s))"

definition tp_get_row :: "table_page \<Rightarrow> nat \<Rightarrow> pool_state \<Rightarrow> row result" where
  "tp_get_row tp index s =
     page_get_row (tp_marshal tp) (get_data (tp_page tp)) index (fp_data (fst s))"

section \<open>The class Table\<close>

record table =
  t_file :: int
  t_marshal :: marshal
  current_page_index :: nat

definition make_table :: "int \<Rightarrow> marshal \<Rightarrow> table" where
  "make_table f provider = \<lparr>t_file = f, t_marshal = provider, current_page_index = 0\<rparr>"

definition get_table_page :: "table \<Rightarrow> nat \<Rightarrow> pool_state \<Rightarrow> (table_page \<times> pool_state) outcome" where
  "get_table_page t index s =
     bindO (get_page (t_file t) index s) (\<lambda>(pg, s1). Some (Inr (transform (t_marshal t) pg, s1)))"

definition table_page_count :: "table \<Rightarrow> pool_state \<Rightarrow> nat" where
  "table_page_count t s = get_page_count (t_file t) (snd s)"

text \<open>The body of the loop of \<open>insert_row\<close>; the page is dropped at the end of the iteration.\<close>

definition insert_attempt :: "row \<Rightarrow> table \<Rightarrow> pool_state \<Rightarrow> (row_id option \<times> table \<times> pool_state) outcome" where
  "insert_attempt row t s =
     bindO (returns (if current_page_index t = table_page_count t s
              then bindE (alloc_page (t_file t) (snd s))
                (\<lambda>(i, w). Inr (t\<lparr>current_page_index := i\<rparr>, (fst s, w)))
              else Inr (t, s))) (\<lambda>(t1, s1).
     bindO (get_table_page t1 (current_page_index t1) s1) (\<lambda>(tp, s2).
     bindO (returns (tp_insert_row tp row s2)) (\<lambda>((ok, row_idx), s3).
     bindO (returns (drop_page (tp_page tp) s3)) (\<lambda>s4.
       Some (Inr (if ok then Some \<lparr>page_index = current_page_index t1, row_index = row_idx\<rparr> else None,
         t1, s4))))))"

partial_function (option) insert_row :: "row \<Rightarrow> table \<Rightarrow> pool_state \<Rightarrow> (row_id \<times> table \<times> pool_state) outcome" where
  "insert_row row t s =
     (case insert_attempt row t s of
        None \<Rightarrow> None
      | Some (Inl e) \<Rightarrow> Some (Inl e)
      | Some (Inr (Some rid, t1, s1)) \<Rightarrow> Some (Inr (rid, t1, s1))
      | Some (Inr (None, t1, s1)) \<Rightarrow>
          insert_row row (t1\<lparr>current_page_index := current_page_index t1 + 1\<rparr>) s1)"

definition get_row :: "row_id \<Rightarrow> table \<Rightarrow> pool_state \<Rightarrow> (row \<times> pool_state) outcome" where
  "get_row rid t s =
     bindO (get_table_page t (page_index rid) s) (\<lambda>(tp, s1).
     bindO (returns (tp_get_row tp (row_index rid) s1)) (\<lambda>r.
     bindO (returns (drop_page (tp_page tp) s1)) (\<lambda>s2. Some (Inr (r, s2)))))"

section \<open>Tables as maps\<close>

definition table_rows :: "table \<Rightarrow> pool_state \<Rightarrow> row_id \<Rightarrow> row option" where
  "table_rows t s rid =
     (case pool_view s (t_file t, page_index rid) of
        None \<Rightarrow> None
      | Some bs \<Rightarrow> if row_index rid < slots_of (t_marshal t) then slot (t_marshal t) bs (row_index rid) else None)"

lemma table_rows_cong:
  assumes "t_marshal t' = t_marshal t"
    and "\<And>i. pool_view s' (t_file t', i) = pool_view s (t_file t, i)"
  shows "table_rows t' s' = table_rows t s"
  unfolding table_rows_def assms ..

text \<open>The file of the table is open and made of whole well-formed pages.\<close>

definition table_inv :: "table \<Rightarrow> pool_state \<Rightarrow> bool" where
  "table_inv t s \<longleftrightarrow> pool_inv s \<and> marshal_ok (t_marshal t) \<and> w_open (snd s) (t_file t) \<noteq> None \<and>
     w_file_size (snd s) (t_file t) = table_page_count t s * PageSize \<and>
     current_page_index t \<le> table_page_count t s \<and>
     (\<forall>i bs. pool_view s (t_file t, i) = Some bs \<longrightarrow> page_ok (t_marshal t) bs)"

text \<open>Some frame can be taken, and no reference count is about to wrap around.\<close>

definition spare_frame :: "pool_state \<Rightarrow> bool" where
  "spare_frame s \<longleftrightarrow> (\<exists>j < frames_of s. pins s j = 0) \<and> (\<forall>k. pins s k \<noteq> -1)"

text \<open>The device and the offsets leave room for \<open>k\<close> more pages.\<close>

definition has_room :: "table \<Rightarrow> pool_state \<Rightarrow> nat \<Rightarrow> bool" where
  "has_room t s k \<longleftrightarrow> k * PageSize \<le> w_space (snd s) \<and> (table_page_count t s + k) * PageSize < 2 ^ 63"

lemma table_invD:
  assumes "table_inv t s"
  shows "pool_inv s" and "marshal_ok (t_marshal t)" and "w_open (snd s) (t_file t) \<noteq> None"
    and "w_file_size (snd s) (t_file t) = table_page_count t s * PageSize"
    and "current_page_index t \<le> table_page_count t s"
    and "pool_view s (t_file t, i) = Some bs \<Longrightarrow> page_ok (t_marshal t) bs"
  using assms by (auto simp: table_inv_def)

text \<open>The pages of the table are the first \<open>table_page_count\<close> ones.\<close>

lemma table_pages:
  assumes "table_inv t s"
  shows "pool_view s (t_file t, i) \<noteq> None \<longleftrightarrow> i < table_page_count t s"
proof -
  note d = table_invD [OF assms]
  obtain ino where ino: "w_open (snd s) (t_file t) = Some ino" using d(3) by blast
  moreover have "files_ok (snd s)" using pool_invD(1) [OF d(1)] .
  ultimately have "length (w_bytes (snd s) ino) = table_page_count t s * PageSize"
    using d(4) by (simp add: files_ok_def unaliased_def)
  then have "disk_page (snd s) (t_file t, i) \<noteq> None \<longleftrightarrow>
      (i + 1) * PageSize \<le> table_page_count t s * PageSize"
    using ino by (simp add: disk_page_def)
  also have "\<dots> \<longleftrightarrow> i < table_page_count t s" by (simp only: mult_le_cancel2) auto
  finally show ?thesis using pool_view_disk [OF d(1)] by simp
qed

lemma table_page_ex:
  assumes "table_inv t s" and "i < table_page_count t s"
  obtains bs where "pool_view s (t_file t, i) = Some bs" and "page_ok (t_marshal t) bs"
proof -
  obtain bs where bs: "pool_view s (t_file t, i) = Some bs"
    using table_pages [OF assms(1), of i] assms(2) by blast
  with that table_invD(6) [OF assms(1)] show ?thesis by blast
qed

section \<open>One iteration\<close>

text \<open>What a session with one page leaves alone.\<close>

definition session_kept :: "pool_state \<Rightarrow> pool_state \<Rightarrow> bool" where
  "session_kept s s' \<longleftrightarrow> pool_inv s' \<and> frames_of s' = frames_of s \<and> pins s' = pins s \<and>
     w_open (snd s') = w_open (snd s) \<and> w_file_size (snd s') = w_file_size (snd s) \<and>
     w_space (snd s') = w_space (snd s)"

lemma session_keptD:
  assumes "session_kept s s'"
  shows "pool_inv s'" and "spare_frame s' \<longleftrightarrow> spare_frame s" and "has_room t s' k \<longleftrightarrow> has_room t s k"
    and "table_page_count t s' = table_page_count t s"
  using assms
  by (simp_all add: session_kept_def spare_frame_def has_room_def table_page_count_def get_page_count_def)

lemma frame_bytes_overlay_inside:
  assumes "length m = n * PageSize" and "i < n" and "off + length ys \<le> PageSize" and "k < n"
  shows "frame_bytes (overlay (i * PageSize + off) ys m) k =
    (if k = i then overlay off ys (frame_bytes m i) else frame_bytes m k)"
proof (cases "k = i")
  case True
  then show ?thesis
    using assms frame_fits [OF assms(1,2)] by (simp add: frame_bytes_def region_overlay_inside)
next
  case False
  with pages_apart [OF False] frame_fits [OF assms(1,2)] frame_fits [OF assms(1,4)] assms(3)
  show ?thesis by (auto simp: frame_bytes_def intro!: region_overlay_other)
qed

text \<open>The body of the loop on a page that exists: the first empty slot takes the row.\<close>

definition inserted_id :: "nat \<Rightarrow> row option list \<Rightarrow> row_id option" where
  "inserted_id page rows = map_option (\<lambda>i. \<lparr>page_index = page, row_index = i\<rparr>) (first_empty rows)"

definition page_after :: "marshal \<Rightarrow> row \<Rightarrow> byte list \<Rightarrow> byte list" where
  "page_after ms row bs =
     (case first_empty (page_rows ms bs) of None \<Rightarrow> bs | Some i \<Rightarrow> fill_slot ms i row bs)"

lemma tp_insert_row_ok:
  assumes "marshal_ok ms" and "page_ok ms bs" and "row_fits (m_schema ms) row"
    and "frame_bytes (fp_data (fst s)) n = bs" and "n < k" and "length (fp_data (fst s)) = k * PageSize"
  obtains ok i m where
    "tp_insert_row (transform ms \<lparr>pp_frame_index = n, pp_data_frame = n * PageSize\<rparr>) row s =
      Inr ((ok, i), set_mem m s)"
    and "(if ok then Some i else None) = first_empty (page_rows ms bs)"
    and "length m = length (fp_data (fst s))"
    and "frame_bytes m n = page_after ms row bs"
    and "\<forall>j < k. j \<noteq> n \<longrightarrow> frame_bytes m j = frame_bytes (fp_data (fst s)) j"
proof -
  let ?m = "fp_data (fst s)"
  have at: "page_at (n * PageSize) ?m = bs" using assms(4) by (simp add: page_at_def frame_bytes_def)
  note ins = page_insert_row_ok [OF assms(1) frame_fits [OF assms(6,5)], unfolded at, OF assms(2,3)]
  show ?thesis
  proof (cases "first_empty (page_rows ms bs)")
    case None
    then show ?thesis
      using ins assms(4) that [of False 0 ?m]
      by (simp add: tp_insert_row_def transform_def page_after_def)
  next
    case (Some i)
    then have i: "i < slots_of ms" using first_empty_Some(1) by (fastforce simp: page_rows_def)
    have fit: "i * slot_size ms + length (1 # row_bytes (m_null_byte ms) row) \<le> PageSize"
      using slot_inside [OF i] row_fits_length [OF assms(3)] by (simp add: slot_size_def)
    note fb = frame_bytes_overlay_inside [OF assms(6,5) fit]
    have len: "length (overlay (n * PageSize + i * slot_size ms) (1 # row_bytes (m_null_byte ms) row) ?m) =
        length ?m"
      using fit frame_fits [OF assms(6,5)] by (intro length_overlay) linarith
    show ?thesis
      by (rule that [of True i "overlay (n * PageSize + i * slot_size ms)
            (1 # row_bytes (m_null_byte ms) row) ?m"])
        (use ins Some assms(4,5) fb len in
          \<open>simp_all add: tp_insert_row_def transform_def page_after_def fill_slot_def\<close>)
  qed
qed

lemma insert_attempt_page:
  assumes inv: "table_inv t s" and spare: "spare_frame s"
    and fits: "row_fits (m_schema (t_marshal t)) row"
    and bs: "pool_view s (t_file t, current_page_index t) = Some bs"
  shows "\<exists>s'. insert_attempt row t s =
      Some (Inr (inserted_id (current_page_index t) (page_rows (t_marshal t) bs), t, s')) \<and>
    session_kept s s' \<and>
    pool_view s' = (pool_view s)((t_file t, current_page_index t) \<mapsto> page_after (t_marshal t) row bs)"
proof -
  note d = table_invD [OF inv]
  let ?cur = "current_page_index t" and ?ms = "t_marshal t"
  have here: "?cur \<noteq> table_page_count t s" using table_pages [OF inv, of ?cur] bs by simp
  obtain j where j: "j < frames_of s" "pins s j = 0" "\<forall>k. pins s k \<noteq> -1"
    using spare by (auto simp: spare_frame_def)
  obtain n s1 where get: "get_page (t_file t) ?cur s =
        Some (Inr (\<lparr>pp_frame_index = n, pp_data_frame = n * PageSize\<rparr>, s1))"
      and fb: "frame_bytes (fp_data (fst s1)) n = bs" and n: "n < frames_of s"
      and len: "length (fp_data (fst s1)) = frames_of s * PageSize"
      and stores: "\<And>m. length m = length (fp_data (fst s1)) \<Longrightarrow>
        \<forall>k < frames_of s. k \<noteq> n \<longrightarrow> frame_bytes m k = frame_bytes (fp_data (fst s1)) k \<Longrightarrow>
        \<exists>s2. drop_page \<lparr>pp_frame_index = n, pp_data_frame = n * PageSize\<rparr> (set_mem m s1) = Inr s2 \<and>
          pool_inv s2 \<and> pool_view s2 = (pool_view s)((t_file t, ?cur) \<mapsto> frame_bytes m n) \<and>
          frames_of s2 = frames_of s \<and> pins s2 = pins s \<and>
          (w_open (snd s2), w_file_size (snd s2), w_space (snd s2)) =
            (w_open (snd s), w_file_size (snd s), w_space (snd s))"
    using bp.write_session [OF d(1) bs j] by blast
  obtain ok i m where ins: "tp_insert_row (transform ?ms \<lparr>pp_frame_index = n, pp_data_frame = n * PageSize\<rparr>) row s1 =
        Inr ((ok, i), set_mem m s1)"
      and res: "(if ok then Some i else None) = first_empty (page_rows ?ms bs)"
      and m: "length m = length (fp_data (fst s1))" "frame_bytes m n = page_after ?ms row bs"
        "\<forall>j < frames_of s. j \<noteq> n \<longrightarrow> frame_bytes m j = frame_bytes (fp_data (fst s1)) j"
    using tp_insert_row_ok [OF d(2) d(6) [OF bs] fits fb n len] by blast
  obtain s2 where drop: "drop_page \<lparr>pp_frame_index = n, pp_data_frame = n * PageSize\<rparr> (set_mem m s1) = Inr s2"
      and s2: "pool_inv s2" "pool_view s2 = (pool_view s)((t_file t, ?cur) \<mapsto> frame_bytes m n)"
        "frames_of s2 = frames_of s" "pins s2 = pins s"
        "(w_open (snd s2), w_file_size (snd s2), w_space (snd s2)) =
            (w_open (snd s), w_file_size (snd s), w_space (snd s))"
    using stores [OF m(1,3)] by blast
  have rid: "(if ok then Some \<lparr>page_index = ?cur, row_index = i\<rparr> else None) =
      inserted_id ?cur (page_rows ?ms bs)"
    unfolding inserted_id_def res [symmetric] by simp
  have "insert_attempt row t s = Some (Inr (inserted_id ?cur (page_rows ?ms bs), t, s2))"
    using here get ins drop rid
    by (simp add: insert_attempt_def get_table_page_def transform_def)
  with s2 m(2) show ?thesis by (auto simp: session_kept_def)
qed

lemma page_after_works:
  assumes "page_ok ms bs" and "row_fits (m_schema ms) row"
  shows "page_ok ms (page_after ms row bs)"
    and "page_rows ms (page_after ms row bs) = (case first_empty (page_rows ms bs) of
      None \<Rightarrow> page_rows ms bs | Some i \<Rightarrow> (page_rows ms bs)[i := Some row])"
proof -
  have "i < slots_of ms" if "first_empty (page_rows ms bs) = Some i" for i
    using first_empty_Some(1) [OF that] by (simp add: page_rows_def)
  then show "page_ok ms (page_after ms row bs)"
    and "page_rows ms (page_after ms row bs) = (case first_empty (page_rows ms bs) of
      None \<Rightarrow> page_rows ms bs | Some i \<Rightarrow> (page_rows ms bs)[i := Some row])"
    using fill_slot_works [OF assms(2) _ assms(1)]
    by (simp_all add: page_after_def assms(1) split: option.split)
qed

lemma table_rows_page:
  assumes "pool_view s (t_file t, page_index rid) = Some bs"
  shows "table_rows t s rid =
    (if row_index rid < slots_of (t_marshal t) then page_rows (t_marshal t) bs ! row_index rid else None)"
  using assms by (simp add: table_rows_def page_rows_def)

lemma table_inv_view:
  assumes "table_inv t s" and "session_kept s s'" and "page_ok (t_marshal t) bs"
    and "pool_view s' = (pool_view s)((t_file t, i) \<mapsto> bs)"
  shows "table_inv t s'"
proof -
  have "page_ok (t_marshal t) cs" if "pool_view s' (t_file t, j) = Some cs" for j cs
    using that assms(3,4) table_invD(6) [OF assms(1)] by (cases "j = i") auto
  with assms(1,2) session_keptD(1,4) [OF assms(2)] show ?thesis
    by (simp add: table_inv_def session_kept_def)
qed

text \<open>The abstract effect of an iteration on an existing page.\<close>

lemma insert_attempt_rows:
  assumes inv: "table_inv t s" and kept: "session_kept s s'"
    and fits: "row_fits (m_schema (t_marshal t)) row"
    and bs: "pool_view s (t_file t, i) = Some bs"
    and s': "pool_view s' = (pool_view s)((t_file t, i) \<mapsto> page_after (t_marshal t) row bs)"
    and rid: "inserted_id i (page_rows (t_marshal t) bs) = Some rid"
  shows "table_rows t s rid = None" and "table_rows t s' = (table_rows t s)(rid \<mapsto> row)"
proof -
  let ?ms = "t_marshal t"
  obtain k where k: "first_empty (page_rows ?ms bs) = Some k" "rid = \<lparr>page_index = i, row_index = k\<rparr>"
    using rid by (auto simp: inserted_id_def)
  have lt: "k < slots_of ?ms" and empty: "page_rows ?ms bs ! k = None"
    using first_empty_Some(1,2) [OF k(1)] by (simp_all add: page_rows_def)
  show "table_rows t s rid = None" using bs k(2) lt empty by (simp add: table_rows_page)
  show "table_rows t s' = (table_rows t s)(rid \<mapsto> row)"
  proof (rule ext)
    fix r
    have page: "page_rows ?ms (page_after ?ms row bs) = (page_rows ?ms bs)[k := Some row]"
      using page_after_works(2) [OF table_invD(6) [OF inv bs] fits] k(1) by simp
    show "table_rows t s' r = ((table_rows t s)(rid \<mapsto> row)) r"
    proof (cases "page_index r = i")
      case False
      with k(2) s' show ?thesis by (auto simp: table_rows_def)
    next
      case True
      with s' have "pool_view s' (t_file t, page_index r) = Some (page_after ?ms row bs)" by simp
      moreover have "length (page_rows ?ms bs) = slots_of ?ms" by (simp add: page_rows_def)
      ultimately show ?thesis
        using True bs k(2) lt page
        by (cases r) (auto simp: table_rows_page nth_list_update)
    qed
  qed
qed

section \<open>Appending a page\<close>

lemma pool_grows:
  assumes "pool_inv s" and "files_ok w" and "disk_page (snd s) b = None"
    and "disk_page w = (disk_page (snd s))(b \<mapsto> bs)"
  shows "pool_inv (fst s, w)" and "pool_view (fst s, w) = (pool_view s)(b \<mapsto> bs)"
    and "pins (fst s, w) = pins s" and "frames_of (fst s, w) = frames_of s"
proof -
  have "cached_at s b = None" using pool_invD(8) [OF assms(1), of b] assms(3) by (cases "cached_at s b") auto
  then show "pool_view (fst s, w) = (pool_view s)(b \<mapsto> bs)"
    using assms(4) by (auto simp: pool_view_def cached_at_def fun_eq_iff cong: option.case_cong)
  show "pool_inv (fst s, w)"
    using assms by (simp add: pool_inv_def frames_of_def cached_at_def refs_def)
qed (simp_all add: pins_def refs_def frames_of_def fun_eq_iff)

lemma alloc_table_page:
  assumes inv: "table_inv t s" and room: "has_room t s (Suc k)" and n: "n = table_page_count t s"
  obtains w where "alloc_page (t_file t) (snd s) = Inr (n, w)"
    and "table_inv (t\<lparr>current_page_index := n\<rparr>) (fst s, w)"
    and "table_page_count t (fst s, w) = n + 1"
    and "pool_view (fst s, w) = (pool_view s)((t_file t, n) \<mapsto> replicate PageSize 0)"
    and "pins (fst s, w) = pins s" and "frames_of (fst s, w) = frames_of s"
    and "w_space w = w_space (snd s) - PageSize"
    and "w_open w = w_open (snd s)" and "table_rows t (fst s, w) = table_rows t s"
proof -
  note d = table_invD [OF inv]
  obtain ino where ino: "w_open (snd s) (t_file t) = Some ino" using d(3) by blast
  have space: "PageSize \<le> w_space (snd s)" "(n + 1) * PageSize < 2 ^ 63"
  proof -
    have "n + 1 \<le> n + Suc k" by simp
    then have "(n + 1) * PageSize \<le> (n + Suc k) * PageSize" by (rule mult_le_mono1)
    also have "\<dots> < 2 ^ 63" using room n unfolding has_room_def by blast
    finally show "(n + 1) * PageSize < 2 ^ 63" .
  qed (use room in \<open>simp add: has_room_def\<close>)
  obtain w where w: "alloc_page (t_file t) (snd s) = Inr (n, w)" "files_ok w" "w_open w = w_open (snd s)"
      "get_page_count (t_file t) w = n + 1"
      "w_file_size w = (w_file_size (snd s))(t_file t := (n + 1) * PageSize)"
      "w_space w = w_space (snd s) - PageSize"
      "disk_page w = (disk_page (snd s))((t_file t, n) \<mapsto> replicate PageSize 0)"
    using alloc_page_works [OF pool_invD(1) [OF d(1)] ino _ space] d(4) n by metis
  have none: "pool_view s (t_file t, n) = None" using table_pages [OF inv, of n] n by simp
  then have "disk_page (snd s) (t_file t, n) = None" using pool_view_disk [OF d(1)] by blast
  note g = pool_grows [OF d(1) w(2) this w(7)]
  have "page_ok (t_marshal t) bs" if "pool_view (fst s, w) (t_file t, i) = Some bs" for i bs
    using that d(6) zero_page_ok(1) [OF d(2)] unfolding g(2) by (cases "i = n") auto
  then have "table_inv (t\<lparr>current_page_index := n\<rparr>) (fst s, w)"
    using g(1) d w by (simp add: table_inv_def table_page_count_def)
  moreover have "table_rows t (fst s, w) = table_rows t s"
  proof (rule ext)
    fix r show "table_rows t (fst s, w) r = table_rows t s r"
    proof (cases "page_index r = n")
      case True
      then have "pool_view (fst s, w) (t_file t, page_index r) = Some (replicate PageSize 0)"
        by (simp add: g(2))
      then have "table_rows t (fst s, w) r = None"
        by (simp add: table_rows_page zero_page_ok(2) [OF d(2)])
      with True none show ?thesis by (simp add: table_rows_def)
    qed (simp add: g(2) table_rows_def)
  qed
  ultimately show ?thesis using that w g by (simp add: table_page_count_def)
qed

section \<open>The table as a list of pages\<close>

text \<open>A table without pool and bytes: its pages, and the one the search starts from. A row goes to the
  first page from there on with an empty slot, or to a new page.\<close>

definition page_list :: "table \<Rightarrow> pool_state \<Rightarrow> row option list list" where
  "page_list t s = map (\<lambda>i. page_rows (t_marshal t) (the (pool_view s (t_file t, i)))) [0..<table_page_count t s]"

definition ref_insert :: "nat \<Rightarrow> row \<Rightarrow> row option list list \<times> nat \<Rightarrow> row_id \<times> row option list list \<times> nat" where
  "ref_insert n row = (\<lambda>(pages, cur).
     case List.find (\<lambda>i. first_empty (pages ! i) \<noteq> None) [cur..<length pages] of
       Some i \<Rightarrow> let k = the (first_empty (pages ! i)) in
         (\<lparr>page_index = i, row_index = k\<rparr>, pages[i := (pages ! i)[k := Some row]], i)
     | None \<Rightarrow> (\<lparr>page_index = length pages, row_index = 0\<rparr>, pages @ [(replicate n None)[0 := Some row]], length pages))"

primrec ref_insert_all :: "nat \<Rightarrow> row list \<Rightarrow> row option list list \<times> nat \<Rightarrow> row_id list \<times> row option list list \<times> nat" where
  "ref_insert_all n [] x = ([], x)"
| "ref_insert_all n (r # rs) x =
     (let (rid, y) = ref_insert n r x; (rids, z) = ref_insert_all n rs y in (rid # rids, z))"

lemma length_page_list [simp]: "length (page_list t s) = table_page_count t s"
  by (simp add: page_list_def)

lemma page_list_nth:
  "i < table_page_count t s \<Longrightarrow> pool_view s (t_file t, i) = Some bs \<Longrightarrow> page_list t s ! i = page_rows (t_marshal t) bs"
  by (simp add: page_list_def)

lemma page_list_current: "page_list (t\<lparr>current_page_index := i\<rparr>) s = page_list t s"
  by (simp add: page_list_def table_page_count_def)

lemma page_list_update:
  assumes "pool_view s' = (pool_view s)((t_file t, i) \<mapsto> bs)" and "table_page_count t s' = table_page_count t s"
    and "i < table_page_count t s"
  shows "page_list t s' = (page_list t s)[i := page_rows (t_marshal t) bs]"
  using assms by (intro nth_equalityI) (auto simp: page_list_def nth_list_update)

lemma page_list_append:
  assumes "pool_view s' = (pool_view s)((t_file t, n) \<mapsto> bs)" and "table_page_count t s = n" and "table_page_count t s' = n + 1"
  shows "page_list t s' = page_list t s @ [page_rows (t_marshal t) bs]"
  using assms by (auto simp: page_list_def)

lemma ref_insert_here:
  assumes "cur < length pages" and "first_empty (pages ! cur) = Some k"
  shows "ref_insert n row (pages, cur) = (\<lparr>page_index = cur, row_index = k\<rparr>, pages[cur := (pages ! cur)[k := Some row]], cur)"
  using assms by (simp add: ref_insert_def upt_conv_Cons)

lemma ref_insert_further:
  assumes "cur < length pages" and "first_empty (pages ! cur) = None"
  shows "ref_insert n row (pages, cur) = ref_insert n row (pages, cur + 1)"
  using assms by (simp add: ref_insert_def upt_conv_Cons)

section \<open>The loop\<close>

lemma ref_insert_fresh:
  assumes "0 < n"
  shows "ref_insert n row (pages @ [replicate n None], length pages) = ref_insert n row (pages, length pages)"
proof -
  have "first_empty (replicate n (None :: row option)) = Some 0" using assms by (simp add: first_empty_def upt_conv_Cons)
  then show ?thesis by (simp add: ref_insert_def)
qed

text \<open>What an insertion promises.\<close>

definition row_stored :: "row \<Rightarrow> table \<Rightarrow> pool_state \<Rightarrow> row_id \<Rightarrow> table \<Rightarrow> pool_state \<Rightarrow> bool" where
  "row_stored row t s rid t' s' \<longleftrightarrow> table_inv t' s' \<and> t_file t' = t_file t \<and> t_marshal t' = t_marshal t \<and>
     spare_frame s' \<and> pins s' = pins s \<and> table_rows t s rid = None \<and>
     table_rows t' s' = (table_rows t s)(rid \<mapsto> row) \<and>
     (\<forall>b. fst b \<noteq> t_file t \<longrightarrow> pool_view s' b = pool_view s b) \<and>
     (\<forall>k. has_room t s (Suc k) \<longrightarrow> has_room t' s' k) \<and>
     (rid, page_list t' s', current_page_index t') =
       ref_insert (slots_of (t_marshal t)) row (page_list t s, current_page_index t)"

lemma has_room_Suc: "has_room t s (Suc k) \<Longrightarrow> has_room t s k"
proof -
  assume a: "has_room t s (Suc k)"
  have "table_page_count t s + k \<le> table_page_count t s + Suc k" by simp
  then have "(table_page_count t s + k) * PageSize \<le> (table_page_count t s + Suc k) * PageSize"
    by (rule mult_le_mono1)
  also have "\<dots> < 2 ^ 63" using a unfolding has_room_def by blast
  finally show ?thesis using a unfolding has_room_def by simp
qed

lemma session_view_file:
  "pool_view s' = (pool_view s)((f, i) \<mapsto> bs) \<Longrightarrow> fst b \<noteq> f \<Longrightarrow> pool_view s' b = pool_view s b"
  by auto

text \<open>The attempt on a page of the table with an empty slot: the row is stored there.\<close>

lemma insert_row_here:
  assumes inv: "table_inv t s" and spare: "spare_frame s" and fits: "row_fits (m_schema (t_marshal t)) row"
    and lt: "current_page_index t < table_page_count t s" and bs: "pool_view s (t_file t, current_page_index t) = Some bs"
    and id: "inserted_id (current_page_index t) (page_rows (t_marshal t) bs) = Some rid"
  shows "\<exists>s1. insert_row row t s = Some (Inr (rid, t, s1)) \<and> row_stored row t s rid t s1 \<and> session_kept s s1"
proof -
  let ?cur = "current_page_index t" and ?ms = "t_marshal t"
  have ok: "page_ok ?ms bs" using table_invD(6) [OF inv bs] .
  obtain s1 where s1: "insert_attempt row t s = Some (Inr (Some rid, t, s1))"
      "session_kept s s1" "pool_view s1 = (pool_view s)((t_file t, ?cur) \<mapsto> page_after ?ms row bs)"
    using insert_attempt_page [OF inv spare fits bs] id by auto
  have inv1: "table_inv t s1"
    using table_inv_view [OF inv s1(2) page_after_works(1) [OF ok fits] s1(3)] .
  note keep = session_keptD [OF s1(2)]
  obtain k where k: "first_empty (page_rows ?ms bs) = Some k" "rid = \<lparr>page_index = ?cur, row_index = k\<rparr>"
    using id by (auto simp: inserted_id_def)
  have "page_list t s1 = (page_list t s)[?cur := (page_rows ?ms bs)[k := Some row]]"
    using page_list_update [OF s1(3) keep(4)] lt page_after_works(2) [OF ok fits] k(1) by simp
  with k lt have "(rid, page_list t s1, current_page_index t) = ref_insert (slots_of ?ms) row (page_list t s, ?cur)"
    using ref_insert_here [of ?cur "page_list t s" k] page_list_nth [of ?cur t s bs] bs by simp
  then have "row_stored row t s rid t s1"
    using insert_attempt_rows [OF inv s1(2) fits bs s1(3) id] inv1 keep spare session_view_file [OF s1(3)] s1(2) has_room_Suc
    unfolding row_stored_def session_kept_def by blast
  moreover have "insert_row row t s = Some (Inr (rid, t, s1))" using s1(1) by (simp add: insert_row.simps)
  ultimately show ?thesis using s1(2) by blast
qed

text \<open>Running past the end of the file.\<close>

lemma insert_row_append:
  assumes inv: "table_inv t s" and spare: "spare_frame s" and room: "has_room t s (Suc k)"
    and fits: "row_fits (m_schema (t_marshal t)) row" and slots: "0 < slots_of (t_marshal t)"
    and cur: "current_page_index t = table_page_count t s"
  shows "\<exists>rid t' s'. insert_row row t s = Some (Inr (rid, t', s')) \<and> row_stored row t s rid t' s'"
proof -
  let ?n = "table_page_count t s" and ?ms = "t_marshal t" and ?z = "replicate PageSize (0::byte)"
  obtain w where w: "alloc_page (t_file t) (snd s) = Inr (?n, w)"
      "table_inv (t\<lparr>current_page_index := ?n\<rparr>) (fst s, w)" "table_page_count t (fst s, w) = ?n + 1"
      "pool_view (fst s, w) = (pool_view s)((t_file t, ?n) \<mapsto> ?z)"
      "pins (fst s, w) = pins s" "frames_of (fst s, w) = frames_of s"
      "w_space w = w_space (snd s) - PageSize"
      "w_open w = w_open (snd s)" "table_rows t (fst s, w) = table_rows t s"
    by (rule alloc_table_page [OF inv room refl])
  have t: "t\<lparr>current_page_index := ?n\<rparr> = t" using cur by simp
  let ?s1 = "(fst s, w)"
  have inv1: "table_inv t ?s1" using w(2) t by simp
  have spare1: "spare_frame ?s1" using spare w(5,6) by (simp add: spare_frame_def)
  have zero: "pool_view ?s1 (t_file t, current_page_index t) = Some ?z" using w(4) cur by simp
  have ms: "marshal_ok ?ms" using table_invD(2) [OF inv] .
  have rid: "inserted_id (current_page_index t) (page_rows ?ms ?z) = Some \<lparr>page_index = ?n, row_index = 0\<rparr>"
    unfolding inserted_id_def zero_page_ok(3) [OF ms slots] cur by simp
  have "current_page_index t < table_page_count t ?s1" using w(3) cur by simp
  from insert_row_here [OF inv1 spare1 fits this zero rid] obtain s2 where
      s2: "insert_row row t ?s1 = Some (Inr (\<lparr>page_index = ?n, row_index = 0\<rparr>, t, s2))"
        "row_stored row t ?s1 \<lparr>page_index = ?n, row_index = 0\<rparr> t s2" "session_kept ?s1 s2"
    by blast
  have "insert_attempt row t s = insert_attempt row t ?s1"
    using w(1,3) cur by (simp add: insert_attempt_def t)
  then have run: "insert_row row t s = insert_row row t ?s1"
    unfolding insert_row.simps [of row t s] insert_row.simps [of row t ?s1] by simp
  have "page_list t ?s1 = page_list t s @ [replicate (slots_of ?ms) None]"
    using page_list_append [OF w(4) refl w(3)] zero_page_ok(2) [OF ms] by simp
  then have "ref_insert (slots_of ?ms) row (page_list t ?s1, current_page_index t) =
      ref_insert (slots_of ?ms) row (page_list t s, current_page_index t)"
    using ref_insert_fresh [OF slots, of row "page_list t s"] cur by simp
  moreover have "has_room t s2 k" if "has_room t s (Suc k)" for k
  proof -
    have "has_room t ?s1 k"
      using that w(3,7) unfolding has_room_def by (simp add: add.assoc le_diff_conv2)
    then show ?thesis using session_keptD(3) [OF s2(3)] by simp
  qed
  ultimately have "row_stored row t s \<lparr>page_index = ?n, row_index = 0\<rparr> t s2"
    using s2(2) w(5,9) session_view_file [OF w(4)] unfolding row_stored_def by simp
  with run s2(1) show ?thesis by auto
qed

text \<open>On a full page the walk goes on.\<close>

lemma insert_row_passes:
  assumes inv: "table_inv t s" and spare: "spare_frame s" and fits: "row_fits (m_schema (t_marshal t)) row"
    and lt: "current_page_index t < table_page_count t s" and bs: "pool_view s (t_file t, current_page_index t) = Some bs"
    and id: "inserted_id (current_page_index t) (page_rows (t_marshal t) bs) = None"
    and t1: "t1 = t\<lparr>current_page_index := current_page_index t + 1\<rparr>"
  shows "\<exists>s1. insert_row row t s = insert_row row t1 s1 \<and> table_inv t1 s1 \<and> spare_frame s1 \<and>
    table_page_count t1 s1 = table_page_count t s \<and> (\<forall>k. has_room t1 s1 k = has_room t s k) \<and>
    (\<forall>rid t' s'. row_stored row t1 s1 rid t' s' \<longrightarrow> row_stored row t s rid t' s')"
proof -
  let ?cur = "current_page_index t" and ?ms = "t_marshal t"
  have ok: "page_ok ?ms bs" using table_invD(6) [OF inv bs] .
  obtain s1 where s1: "insert_attempt row t s = Some (Inr (None, t, s1))"
      "session_kept s s1" "pool_view s1 = (pool_view s)((t_file t, ?cur) \<mapsto> page_after ?ms row bs)"
    using insert_attempt_page [OF inv spare fits bs] id by auto
  have inv1: "table_inv t s1"
    using table_inv_view [OF inv s1(2) page_after_works(1) [OF ok fits] s1(3)] .
  note keep = session_keptD [OF s1(2)]
  have "page_after ?ms row bs = bs" using id by (simp add: inserted_id_def page_after_def)
  with s1(3) bs have view: "pool_view s1 = pool_view s" by auto
  have count: "table_page_count t1 s1 = table_page_count t s" "has_room t1 s1 k = has_room t s k" for k
    using keep(3,4) by (simp_all add: t1 table_page_count_def has_room_def)
  have "table_rows t1 s1 = table_rows t s" by (intro table_rows_cong) (simp_all add: view t1)
  moreover have "page_list t1 s1 = page_list t s" using view count(1) by (simp add: page_list_def t1 table_page_count_def)
  ultimately have rows: "table_page_count t1 s1 = table_page_count t s" "has_room t1 s1 k = has_room t s k"
      "table_rows t1 s1 = table_rows t s" "page_list t1 s1 = page_list t s" for k
    using count by simp_all
  have inv2: "table_inv t1 s1" using inv1 lt rows(1) by (simp add: t1 table_inv_def table_page_count_def)
  have "first_empty (page_list t s ! ?cur) = None" using id bs lt by (simp add: inserted_id_def page_list_nth)
  with lt have next_page: "ref_insert (slots_of ?ms) row (page_list t s, ?cur) = ref_insert (slots_of ?ms) row (page_list t s, ?cur + 1)"
    by (intro ref_insert_further) simp_all
  have "insert_row row t s = insert_row row t1 s1" using s1(1) by (subst insert_row.simps) (simp add: t1)
  moreover have "pins s1 = pins s" using s1(2) by (simp add: session_kept_def)
  then have "row_stored row t s rid t' s'" if "row_stored row t1 s1 rid t' s'" for rid t' s'
    using that rows view next_page by (auto simp: row_stored_def t1)
  ultimately show ?thesis using inv2 rows keep(2) spare by blast
qed

lemma insert_row_stores_row:
  assumes "table_inv t s" and "spare_frame s" and "has_room t s (Suc k)"
    and "row_fits (m_schema (t_marshal t)) row" and "0 < slots_of (t_marshal t)"
  shows "\<exists>rid t' s'. insert_row row t s = Some (Inr (rid, t', s')) \<and> row_stored row t s rid t' s'"
  using assms
proof (induction "table_page_count t s - current_page_index t" arbitrary: t s)
  case 0
  then have "current_page_index t = table_page_count t s" using table_invD(5) [of t s] by simp
  with insert_row_append 0 show ?case by blast
next
  case (Suc d)
  let ?t = "t\<lparr>current_page_index := current_page_index t + 1\<rparr>"
  have lt: "current_page_index t < table_page_count t s" using Suc.hyps(2) by simp
  then obtain bs where bs: "pool_view s (t_file t, current_page_index t) = Some bs"
    using table_page_ex [OF Suc.prems(1)] by blast
  show ?case
  proof (cases "inserted_id (current_page_index t) (page_rows (t_marshal t) bs)")
    case (Some rid)
    then show ?thesis using insert_row_here [OF Suc.prems(1,2,4) lt bs] by blast
  next
    case None
    from insert_row_passes [OF Suc.prems(1,2,4) lt bs None refl] obtain s1 where s1: "insert_row row t s = insert_row row ?t s1"
        "table_inv ?t s1" "spare_frame s1" "table_page_count ?t s1 = table_page_count t s" "\<And>k. has_room ?t s1 k = has_room t s k"
        "\<And>rid t' s'. row_stored row ?t s1 rid t' s' \<Longrightarrow> row_stored row t s rid t' s'"
      by blast
    have "d = table_page_count ?t s1 - current_page_index ?t" using Suc.hyps(2) s1(4) by simp
    from Suc.hyps(1) [OF this s1(2,3)] Suc.prems(3-5) s1(1,5,6) show ?thesis by auto
  qed
qed

section \<open>Reading a row\<close>

lemma get_row_works:
  assumes inv: "table_inv t s" and spare: "spare_frame s"
    and rid: "page_index rid < table_page_count t s" "row_index rid < slots_of (t_marshal t)"
  shows "\<exists>s'. get_row rid t s = Some (Inr (case table_rows t s rid of None \<Rightarrow> [] | Some r \<Rightarrow> r, s')) \<and>
    session_kept s s' \<and> pool_view s' = pool_view s"
proof -
  note d = table_invD [OF inv]
  obtain bs where bs: "pool_view s (t_file t, page_index rid) = Some bs" and ok: "page_ok (t_marshal t) bs"
    using table_page_ex [OF inv rid(1)] by blast
  obtain j where j: "j < frames_of s" "pins s j = 0" "\<forall>k. pins s k \<noteq> -1"
    using spare by (auto simp: spare_frame_def)
  obtain n s1 s2 where get: "get_page (t_file t) (page_index rid) s =
        Some (Inr (\<lparr>pp_frame_index = n, pp_data_frame = n * PageSize\<rparr>, s1))"
      and fb: "frame_bytes (fp_data (fst s1)) n = bs" and n: "n < frames_of s"
      and len: "length (fp_data (fst s1)) = frames_of s * PageSize"
      and drop: "drop_page \<lparr>pp_frame_index = n, pp_data_frame = n * PageSize\<rparr> s1 = Inr s2"
      and s2: "pool_inv s2" "pool_view s2 = pool_view s" "frames_of s2 = frames_of s" "pins s2 = pins s"
        "(w_open (snd s2), w_file_size (snd s2), w_space (snd s2)) =
          (w_open (snd s), w_file_size (snd s), w_space (snd s))"
    using bp.read_session [OF d(1) bs j] by blast
  have at: "page_at (n * PageSize) (fp_data (fst s1)) = bs"
    using fb by (simp add: page_at_def frame_bytes_def)
  have "tp_get_row (transform (t_marshal t) \<lparr>pp_frame_index = n, pp_data_frame = n * PageSize\<rparr>)
      (row_index rid) s1 = Inr (case table_rows t s rid of None \<Rightarrow> [] | Some r \<Rightarrow> r)"
    using page_get_row_ok [OF d(2) frame_fits [OF len n] rid(2), unfolded at, OF ok] bs rid(2)
    by (simp add: tp_get_row_def transform_def table_rows_def)
  with get drop have "get_row rid t s =
      Some (Inr (case table_rows t s rid of None \<Rightarrow> [] | Some r \<Rightarrow> r, s2))"
    by (simp add: get_row_def get_table_page_def transform_def)
  with s2 show ?thesis by (auto simp: session_kept_def)
qed

lemma table_rows_valid:
  assumes "table_inv t s" and "table_rows t s rid = Some r"
  shows "page_index rid < table_page_count t s" and "row_index rid < slots_of (t_marshal t)"
  using assms table_pages [OF assms(1), of "page_index rid"]
  by (auto simp: table_rows_def split: option.splits if_splits)

section \<open>A device with no room\<close>

lemma file_write_size:
  "file_write f i bs (w\<lparr>w_file_size := g\<rparr>) =
    (case file_write f i bs w of Inl e \<Rightarrow> Inl e | Inr w' \<Rightarrow> Inr (w'\<lparr>w_file_size := g\<rparr>))"
  by (auto simp: file_write_def sys_pwrite_def sys_store_def Let_def assertE_def split: option.split)

lemma dump_frame_size:
  "dump_frame i (p, w) = Inr (p, w') \<Longrightarrow>
    dump_frame i (p, w\<lparr>w_file_size := g\<rparr>) = Inr (p, w'\<lparr>w_file_size := g\<rparr>)"
  by (auto simp: dump_frame_def dump_data_def result_simps file_write_size split: option.splits)

lemma file_read_size: "file_read f i (w\<lparr>w_file_size := g\<rparr>) = file_read f i w"
  by (cases "w_open w f") (simp_all add: file_read_def sys_pread_def)

lemma get_missing_page:
  assumes inv: "pool_inv s" and spare: "spare_frame s" and fd: "0 < f"
    and none: "disk_page (snd s) (f, page) = None" and small: "page * PageSize < 2 ^ 64"
  shows "get_page f page (fst s, snd s\<lparr>w_file_size := g\<rparr>) = Some (Inl (AssertionFailed ''r == PageSize''))"
proof -
  note d = pool_invD [OF inv]
  have miss: "cached_at s (f, page) = None"
    using d(8) [of "(f, page)"] none by (cases "cached_at s (f, page)") auto
  obtain j where j: "j < frames_of s" "refs s j = 0"
    using spare by (auto simp: spare_frame_def pins_def)
  then have "\<not> cc_locked (fp_cache (fst s)) j" "j < capacity (fp_cache (fst s))"
    using d(6) by (auto simp: frames_of_def)
  with cc.put_new [OF d(2) _ _ this(2,1), of "(f, page)"] miss fd obtain i c where
      c: "cc_put (f, page) (fp_cache (fst s)) = Some (Inr (i, c))" "i < frames_of s"
    unfolding cached_at_def frames_of_def by auto
  let ?p = "fst s\<lparr>fp_cache := c\<rparr>"
  obtain w where w: "dump_frame i (?p, snd s) = Inr (?p, w)"
      "disk_page w = (\<lambda>b. if cached_at s b = Some i then Some (frame_bytes (fp_data (fst s)) i)
        else disk_page (snd s) b)"
    using dump_frame_works [OF inv c(2), of ?p] by auto
  then have "disk_page w (f, page) = None" using miss none by simp
  then have "file_read f page (w\<lparr>w_file_size := g\<rparr>) = Inl (AssertionFailed ''r == PageSize'')"
    using file_read_missing small file_read_size by metis
  with c w(1) d(3) miss show ?thesis
    by (simp add: get_page_def acquire_frame_def locate_frame_def Let_def cc_get_def cached_at_def
        dump_frame_size [OF w(1)] read_frame_def upload_data_def)
qed

text \<open>Past the last page of a full device the allocation fails unnoticed, and reading the page it
  names fails its assertion.\<close>

lemma insert_attempt_no_room:
  assumes inv: "table_inv t s" and spare: "spare_frame s"
    and cur: "current_page_index t = table_page_count t s" and full: "w_space (snd s) < PageSize"
  shows "insert_attempt row t s = Some (Inl (AssertionFailed ''r == PageSize''))"
proof -
  note d = table_invD [OF inv]
  let ?n = "table_page_count t s" and ?w = "snd s"
  obtain ino where ino: "w_open ?w (t_file t) = Some ino" using d(3) by blast
  have files: "files_ok ?w" using pool_invD(1) [OF d(1)] .
  then have len: "length (w_bytes ?w ino) = ?n * PageSize" and fd: "0 < t_file t"
    using ino d(4) by (auto simp: files_ok_def unaliased_def world_ok_def)
  have small: "length (w_bytes ?w ino) < 2 ^ 63" using files by (simp add: files_ok_def world_ok_def)
  let ?g = "(w_file_size ?w)(t_file t := ?n * PageSize + PageSize)"
  have "alloc_page (t_file t) ?w = Inr (?n, ?w\<lparr>w_file_size := ?g\<rparr>)"
    using ino len d(4) full
    by (simp add: alloc_page_def file_alloc_def sys_fallocate_def sys_store_def Let_def)
  moreover have "disk_page ?w (t_file t, ?n) = None"
    using pool_view_disk [OF d(1)] table_pages [OF inv, of ?n] by simp
  then have "get_page (t_file t) ?n (fst s, ?w\<lparr>w_file_size := ?g\<rparr>) =
      Some (Inl (AssertionFailed ''r == PageSize''))"
    using len small by (intro get_missing_page [OF d(1) spare fd]) simp_all
  ultimately show ?thesis using cur by (simp add: insert_attempt_def get_table_page_def)
qed

lemma insert_row_no_room:
  assumes "table_inv t s" and "spare_frame s" and "current_page_index t = table_page_count t s" and "w_space (snd s) < PageSize"
  shows "insert_row row t s = Some (Inl (AssertionFailed ''r == PageSize''))"
  by (simp add: insert_row.simps insert_attempt_no_room [OF assms])

text \<open>A round of the loop that finds no slot, and the walk of several such rounds.\<close>

definition wasted_round :: "row \<Rightarrow> table \<times> pool_state \<Rightarrow> table \<times> pool_state \<Rightarrow> bool" where
  "wasted_round row a b \<longleftrightarrow> (\<exists>t1 s1. insert_attempt row (fst a) (snd a) = Some (Inr (None, t1, s1)) \<and>
     b = (t1\<lparr>current_page_index := current_page_index t1 + 1\<rparr>, s1))"

lemma wasted_rounds_insert:
  assumes "rtranclp (wasted_round row) a b"
  shows "insert_row row (fst a) (snd a) = insert_row row (fst b) (snd b)"
  using assms
proof (induction rule: rtranclp_induct)
  case (step b c)
  from step.hyps(2) have "insert_row row (fst b) (snd b) = insert_row row (fst c) (snd c)"
    by (subst insert_row.simps) (auto simp: wasted_round_def)
  with step.IH show ?case by simp
qed simp

text \<open>A row wider than a page: no page ever takes it, so the loop appends pages until the device is
  full.\<close>

lemma insert_attempt_no_slot:
  assumes inv: "table_inv t s" and spare: "spare_frame s"
    and bs: "pool_view s (t_file t, current_page_index t) = Some bs"
    and slots: "slots_of (t_marshal t) = 0"
  shows "\<exists>s'. insert_attempt row t s = Some (Inr (None, t, s')) \<and> session_kept s s' \<and> pool_view s' = pool_view s"
proof -
  note d = table_invD [OF inv]
  let ?cur = "current_page_index t" and ?ms = "t_marshal t"
  have here: "?cur \<noteq> table_page_count t s" using table_pages [OF inv, of ?cur] bs by simp
  obtain j where j: "j < frames_of s" "pins s j = 0" "\<forall>k. pins s k \<noteq> -1"
    using spare by (auto simp: spare_frame_def)
  obtain n s1 s2 where get: "get_page (t_file t) ?cur s =
        Some (Inr (\<lparr>pp_frame_index = n, pp_data_frame = n * PageSize\<rparr>, s1))"
      and "frame_bytes (fp_data (fst s1)) n = bs" "n < frames_of s"
        "length (fp_data (fst s1)) = frames_of s * PageSize"
      and drop: "drop_page \<lparr>pp_frame_index = n, pp_data_frame = n * PageSize\<rparr> s1 = Inr s2"
      and s2: "pool_inv s2" "pool_view s2 = pool_view s" "frames_of s2 = frames_of s" "pins s2 = pins s"
        "(w_open (snd s2), w_file_size (snd s2), w_space (snd s2)) =
          (w_open (snd s), w_file_size (snd s), w_space (snd s))"
    using bp.read_session [OF d(1) bs j] by blast
  have "tp_insert_row (transform ?ms \<lparr>pp_frame_index = n, pp_data_frame = n * PageSize\<rparr>) row s1 =
      Inr ((False, 0), s1)"
    using slots d(2)
    by (simp add: tp_insert_row_def transform_def page_insert_row_def find_free_slot_def
        max_row_index_ok set_mem_def)
  with here get drop have "insert_attempt row t s = Some (Inr (None, t, s2))"
    by (simp add: insert_attempt_def get_table_page_def transform_def)
  with s2 show ?thesis by (auto simp: session_kept_def)
qed

lemma insert_row_skip:
  assumes inv: "table_inv t s" and spare: "spare_frame s" and slots: "slots_of (t_marshal t) = 0"
    and cur: "current_page_index t < table_page_count t s"
  shows "\<exists>s'. wasted_round row (t, s) (t\<lparr>current_page_index := current_page_index t + 1\<rparr>, s') \<and>
    table_inv (t\<lparr>current_page_index := current_page_index t + 1\<rparr>) s' \<and> session_kept s s'"
proof -
  obtain bs where bs: "pool_view s (t_file t, current_page_index t) = Some bs"
    using table_page_ex [OF inv cur] by blast
  obtain s' where s': "insert_attempt row t s = Some (Inr (None, t, s'))" "session_kept s s'"
      "pool_view s' = pool_view s"
    using insert_attempt_no_slot [OF inv spare bs slots] by blast
  then have "wasted_round row (t, s) (t\<lparr>current_page_index := current_page_index t + 1\<rparr>, s')" by (simp add: wasted_round_def)
  moreover have "table_inv (t\<lparr>current_page_index := current_page_index t + 1\<rparr>) s'"
    using inv s'(2,3) cur by (simp add: table_inv_def session_kept_def table_page_count_def get_page_count_def)
  ultimately show ?thesis using s'(2) by blast
qed

text \<open>One round of the loop at the end of the file: a page is taken from the device, and skipped.\<close>

lemma insert_row_wasted_page:
  assumes inv: "table_inv t s" and spare: "spare_frame s" and slots: "slots_of (t_marshal t) = 0"
    and cur: "current_page_index t = table_page_count t s" and room: "has_room t s (Suc k)"
  shows "\<exists>t' s'. wasted_round row (t, s) (t', s') \<and> table_inv t' s' \<and> spare_frame s' \<and>
    t_marshal t' = t_marshal t \<and> current_page_index t' = table_page_count t' s' \<and>
    table_page_count t' s' = table_page_count t s + 1 \<and> w_space (snd s') = w_space (snd s) - PageSize"
proof -
  let ?n = "table_page_count t s"
  obtain w where w: "alloc_page (t_file t) (snd s) = Inr (?n, w)"
      "table_inv (t\<lparr>current_page_index := ?n\<rparr>) (fst s, w)" "table_page_count t (fst s, w) = ?n + 1"
      "pins (fst s, w) = pins s" "frames_of (fst s, w) = frames_of s"
      "w_space w = w_space (snd s) - PageSize"
    by (rule alloc_table_page [OF inv room refl])
  have t: "t\<lparr>current_page_index := ?n\<rparr> = t" using cur by simp
  have inv1: "table_inv t (fst s, w)" using w(2) t by simp
  have spare1: "spare_frame (fst s, w)" using spare w(4,5) by (simp add: spare_frame_def)
  have same: "insert_attempt row t s = insert_attempt row t (fst s, w)"
    using w(1,3) cur by (simp add: insert_attempt_def t)
  have "current_page_index t < table_page_count t (fst s, w)" using w(3) cur by simp
  from insert_row_skip [OF inv1 spare1 slots this] obtain s' where
      "wasted_round row (t, (fst s, w)) (t\<lparr>current_page_index := current_page_index t + 1\<rparr>, s')"
      "table_inv (t\<lparr>current_page_index := current_page_index t + 1\<rparr>) s'" "session_kept (fst s, w) s'"
    by blast
  with same w(3,6) cur spare1 session_keptD(2,4) [OF this(3)] show ?thesis
    by (intro exI [of _ "t\<lparr>current_page_index := current_page_index t + 1\<rparr>"] exI [of _ s'])
      (simp add: session_kept_def table_page_count_def wasted_round_def)
qed

text \<open>The walk ends at the end of a file that has taken every page of the device.\<close>

definition device_taken :: "row \<Rightarrow> table \<times> pool_state \<Rightarrow> table \<times> pool_state \<Rightarrow> bool" where
  "device_taken row a b \<longleftrightarrow> rtranclp (wasted_round row) a b \<and> table_inv (fst b) (snd b) \<and> spare_frame (snd b) \<and>
     current_page_index (fst b) = table_page_count (fst b) (snd b) \<and>
     table_page_count (fst b) (snd b) = table_page_count (fst a) (snd a) + w_space (snd (snd a)) div PageSize \<and>
     w_space (snd (snd b)) = w_space (snd (snd a)) mod PageSize"

lemma insert_row_too_wide_end:
  assumes "table_inv t s" and "spare_frame s" and "slots_of (t_marshal t) = 0" and "current_page_index t = table_page_count t s"
    and "(table_page_count t s + w_space (snd s) div PageSize) * PageSize < 2 ^ 63"
  shows "\<exists>t' s'. device_taken row (t, s) (t', s')"
  using assms
proof (induction "w_space (snd s) div PageSize" arbitrary: t s)
  case 0
  then have "w_space (snd s) < PageSize" using PageSize_pos by (simp add: div_eq_0_iff)
  then have "device_taken row (t, s) (t, s)" using 0 by (simp add: device_taken_def)
  then show ?case by blast
next
  case (Suc k)
  have le: "Suc k * PageSize \<le> w_space (snd s)"
    using Suc.hyps(2) by (metis div_times_less_eq_dividend)
  then have room: "has_room t s (Suc k)" using Suc.prems(5) Suc.hyps(2) by (simp add: has_room_def)
  obtain t1 s1 where s1: "wasted_round row (t, s) (t1, s1)" "table_inv t1 s1" "spare_frame s1"
      "t_marshal t1 = t_marshal t" "current_page_index t1 = table_page_count t1 s1"
      "table_page_count t1 s1 = table_page_count t s + 1"
      "w_space (snd s1) = w_space (snd s) - PageSize"
    using insert_row_wasted_page [OF Suc.prems(1-4) room] by blast
  have page: "PageSize \<le> w_space (snd s)" using add_leD1 [OF le [simplified]] .
  have k: "k = w_space (snd s1) div PageSize"
    using Suc.hyps(2) s1(7) le_div_geq [OF PageSize_pos page] by simp
  have count: "table_page_count t1 s1 + w_space (snd s1) div PageSize =
      table_page_count t s + w_space (snd s) div PageSize"
    using Suc.hyps(2) s1(6) k by linarith
  then have "(table_page_count t1 s1 + w_space (snd s1) div PageSize) * PageSize < 2 ^ 63"
    using Suc.prems(5) by simp
  with Suc.hyps(1) [OF k s1(2,3) _ s1(5)] s1(4) Suc.prems(3) obtain t' s' where "device_taken row (t1, s1) (t', s')" by auto
  moreover have "w_space (snd s1) mod PageSize = w_space (snd s) mod PageSize" using s1(7) page by (simp add: le_mod_geq)
  ultimately have "device_taken row (t, s) (t', s')"
    using s1(1) count unfolding device_taken_def by (auto intro: converse_rtranclp_into_rtranclp)
  then show ?case by blast
qed

lemma insert_row_too_wide:
  assumes "table_inv t s" and "spare_frame s" and "slots_of (t_marshal t) = 0"
    and "(table_page_count t s + w_space (snd s) div PageSize) * PageSize < 2 ^ 63"
  shows "\<exists>t' s'. device_taken row (t, s) (t', s')"
  using assms
proof (induction "table_page_count t s - current_page_index t" arbitrary: t s)
  case 0
  then have "current_page_index t = table_page_count t s" using table_invD(5) [of t s] by simp
  with insert_row_too_wide_end 0 show ?case by blast
next
  case (Suc d)
  then have "current_page_index t < table_page_count t s" by simp
  from insert_row_skip [OF Suc.prems(1-3) this] obtain s1 where s1:
      "wasted_round row (t, s) (t\<lparr>current_page_index := current_page_index t + 1\<rparr>, s1)"
      "table_inv (t\<lparr>current_page_index := current_page_index t + 1\<rparr>) s1" "session_kept s s1"
    by blast
  let ?t = "t\<lparr>current_page_index := current_page_index t + 1\<rparr>"
  have same: "table_page_count ?t s1 = table_page_count t s" "w_space (snd s1) = w_space (snd s)"
    using session_keptD(4) [OF s1(3), of t] s1(3) by (simp_all add: table_page_count_def session_kept_def)
  with Suc.hyps(1) [of ?t s1] Suc.hyps(2) Suc.prems s1 session_keptD(2) [OF s1(3)]
  have "\<exists>t' s'. device_taken row (?t, s1) (t', s')" by simp
  then obtain t' s' where "device_taken row (?t, s1) (t', s')" by blast
  then have "device_taken row (t, s) (t', s')"
    using s1(1) same unfolding device_taken_def by (auto intro: converse_rtranclp_into_rtranclp)
  then show ?case by blast
qed

section \<open>The interface: a store of rows\<close>

text \<open>Running an operation over a list, as the loops of the clients do.\<close>

primrec run_all :: "('x \<Rightarrow> 's \<Rightarrow> ('y \<times> 's) outcome) \<Rightarrow> 'x list \<Rightarrow> 's \<Rightarrow> ('y list \<times> 's) outcome" where
  "run_all f [] s = Some (Inr ([], s))"
| "run_all f (x # xs) s =
     bindO (f x s) (\<lambda>(y, s1). bindO (run_all f xs s1) (\<lambda>(ys, s2). Some (Inr (y # ys, s2))))"

locale row_store =
  fixes rows :: "'s \<Rightarrow> 'i \<Rightarrow> 'r option"
    and wf :: "'s \<Rightarrow> bool"
    and room :: "'s \<Rightarrow> nat \<Rightarrow> bool"
    and fits :: "'s \<Rightarrow> 'r \<Rightarrow> bool"
    and ins_op :: "'r \<Rightarrow> 's \<Rightarrow> ('i \<times> 's) outcome"
    and get_op :: "'i \<Rightarrow> 's \<Rightarrow> ('r \<times> 's) outcome"
  assumes ins_law: "wf s \<Longrightarrow> fits s r \<Longrightarrow> room s (Suc k) \<Longrightarrow>
      \<exists>i s'. ins_op r s = Some (Inr (i, s')) \<and> wf s' \<and> fits s' = fits s \<and> room s' k \<and>
        rows s i = None \<and> rows s' = (rows s)(i \<mapsto> r)"
    and get_law: "wf s \<Longrightarrow> rows s i = Some r \<Longrightarrow>
      \<exists>s'. get_op i s = Some (Inr (r, s')) \<and> wf s' \<and> rows s' = rows s"
begin

lemma insert_many:
  assumes "wf s" and "\<forall>r \<in> set rs. fits s r" and "room s (length rs)"
  shows "\<exists>ids s'. run_all ins_op rs s = Some (Inr (ids, s')) \<and> wf s' \<and> length ids = length rs \<and>
    distinct ids \<and> (\<forall>i \<in> set ids. rows s i = None) \<and> rows s' = rows s ++ map_of (zip ids rs)"
  using assms
proof (induction rs arbitrary: s)
  case (Cons r rs)
  obtain i s1 where s1: "ins_op r s = Some (Inr (i, s1))" "wf s1" "fits s1 = fits s"
      "room s1 (length rs)" "rows s i = None" "rows s1 = (rows s)(i \<mapsto> r)"
    using ins_law [OF Cons.prems(1), of r "length rs"] Cons.prems(2,3) by auto
  obtain ids s2 where s2: "run_all ins_op rs s1 = Some (Inr (ids, s2))" "wf s2" "length ids = length rs"
      "distinct ids" "\<forall>i \<in> set ids. rows s1 i = None" "rows s2 = rows s1 ++ map_of (zip ids rs)"
    using Cons.IH [OF s1(2) _ s1(4)] s1(3) Cons.prems(2) by auto
  have new: "i \<notin> set ids" using s2(5) s1(6) by auto
  then have "map_of (zip ids rs) i = None" using s2(3) by simp
  then have "rows s2 = rows s ++ map_of (zip (i # ids) (r # rs))"
    by (auto simp: s2(6) s1(6) map_add_def fun_eq_iff split: option.split)
  with s1 s2 new show ?case by (auto split: if_splits)
qed simp

lemma get_many:
  assumes "wf s" and "rows s = R" and "list_all2 (\<lambda>i r. R i = Some r) ids rs"
  shows "\<exists>s'. run_all get_op ids s = Some (Inr (rs, s')) \<and> wf s' \<and> rows s' = R"
  using assms(3,1,2)
proof (induction arbitrary: s rule: list_all2_induct)
  case (Cons i ids r rs)
  then obtain s1 where s1: "get_op i s = Some (Inr (r, s1))" "wf s1" "rows s1 = R"
    using get_law [of s i r] by auto
  with Cons.IH [OF s1(2,3)] show ?case by auto
qed simp

lemma insert_many_get_many:
  assumes "wf s" and "\<forall>r \<in> set rs. fits s r" and "room s (length rs)"
  shows "\<exists>ids s' s''. run_all ins_op rs s = Some (Inr (ids, s')) \<and> run_all get_op ids s' = Some (Inr (rs, s'')) \<and>
    distinct ids \<and> (\<forall>i r. rows s i = Some r \<longrightarrow> rows s'' i = Some r)"
proof -
  obtain ids s' where s': "run_all ins_op rs s = Some (Inr (ids, s'))" "wf s'" "length ids = length rs"
      "distinct ids" "\<forall>i \<in> set ids. rows s i = None" "rows s' = rows s ++ map_of (zip ids rs)"
    using insert_many [OF assms] by blast
  have "list_all2 (\<lambda>i r. rows s' i = Some r) ids rs"
    using s'(3,4) by (auto simp: s'(6) list_all2_conv_all_nth map_of_zip_nth)
  from get_many [OF s'(2) refl this] obtain s'' where
      "run_all get_op ids s' = Some (Inr (rs, s''))" "rows s'' = rows s'"
    by blast
  moreover have "rows s' i = Some r" if "rows s i = Some r" for i r
  proof -
    have "i \<notin> set ids" using that s'(5) by auto
    with s'(3) have "map_of (zip ids rs) i = None" by simp
    with that s'(6) show ?thesis by (simp add: map_add_def)
  qed
  ultimately show ?thesis using s' by metis
qed

end

text \<open>A table and the pool it uses, as one state.\<close>

definition ts_rows :: "table \<times> pool_state \<Rightarrow> row_id \<Rightarrow> row option" where
  "ts_rows x = table_rows (fst x) (snd x)"

definition ts_ok :: "table \<times> pool_state \<Rightarrow> bool" where
  "ts_ok x \<longleftrightarrow> table_inv (fst x) (snd x) \<and> spare_frame (snd x) \<and> 0 < slots_of (t_marshal (fst x))"

definition ts_room :: "table \<times> pool_state \<Rightarrow> nat \<Rightarrow> bool" where
  "ts_room x k = has_room (fst x) (snd x) k"

definition ts_fits :: "table \<times> pool_state \<Rightarrow> row \<Rightarrow> bool" where
  "ts_fits x r = row_fits (m_schema (t_marshal (fst x))) r"

definition ts_insert :: "row \<Rightarrow> table \<times> pool_state \<Rightarrow> (row_id \<times> table \<times> pool_state) outcome" where
  "ts_insert r x = insert_row r (fst x) (snd x)"

definition ts_get :: "row_id \<Rightarrow> table \<times> pool_state \<Rightarrow> (row \<times> table \<times> pool_state) outcome" where
  "ts_get i x = bindO (get_row i (fst x) (snd x)) (\<lambda>(r, s). Some (Inr (r, fst x, s)))"

interpretation ts: row_store ts_rows ts_ok ts_room ts_fits ts_insert ts_get
proof unfold_locales
  fix x :: "table \<times> pool_state" and r :: row and k :: nat
  assume "ts_ok x" and "ts_fits x r" and "ts_room x (Suc k)"
  then have a: "table_inv (fst x) (snd x)" "spare_frame (snd x)" "has_room (fst x) (snd x) (Suc k)"
      "row_fits (m_schema (t_marshal (fst x))) r" "0 < slots_of (t_marshal (fst x))"
    by (simp_all add: ts_ok_def ts_fits_def ts_room_def)
  obtain i t' s' where "insert_row r (fst x) (snd x) = Some (Inr (i, t', s'))"
      "row_stored r (fst x) (snd x) i t' s'"
    using insert_row_stores_row [OF a] by blast
  with a(3,5) show "\<exists>i x'. ts_insert r x = Some (Inr (i, x')) \<and> ts_ok x' \<and> ts_fits x' = ts_fits x \<and>
      ts_room x' k \<and> ts_rows x i = None \<and> ts_rows x' = (ts_rows x)(i \<mapsto> r)"
    by (intro exI [of _ i] exI [of _ "(t', s')"])
      (simp add: ts_insert_def row_stored_def ts_ok_def ts_fits_def ts_room_def ts_rows_def fun_eq_iff)
next
  fix x :: "table \<times> pool_state" and i :: row_id and r :: row
  assume a: "ts_ok x" "ts_rows x i = Some r"
  then have inv: "table_inv (fst x) (snd x)" and spare: "spare_frame (snd x)"
      and row: "table_rows (fst x) (snd x) i = Some r"
    by (simp_all add: ts_ok_def ts_rows_def)
  obtain s' where s': "get_row i (fst x) (snd x) = Some (Inr (r, s'))" "session_kept (snd x) s'"
      "pool_view s' = pool_view (snd x)"
    using get_row_works [OF inv spare table_rows_valid [OF inv row]] row by auto
  have "table_inv (fst x) s'" using inv s'(2,3) session_keptD(1,4) [OF s'(2)]
    by (simp add: table_inv_def session_kept_def)
  moreover have "table_rows (fst x) s' = table_rows (fst x) (snd x)"
    using s'(3) by (intro table_rows_cong) simp_all
  ultimately show "\<exists>x'. ts_get i x = Some (Inr (r, x')) \<and> ts_ok x' \<and> ts_rows x' = ts_rows x"
    using a(1) s' session_keptD(2) [OF s'(2)]
    by (intro exI [of _ "(fst x, s')"]) (simp add: ts_get_def ts_ok_def ts_rows_def)
qed

section \<open>Properties\<close>

text \<open>The pool and file of the frame pool's witnesses, with room for ten more pages, and the table of
  one number per row over it.\<close>

definition roomy_pool :: pool_state where
  "roomy_pool = (fst small_pool, full_world\<lparr>w_space := 10 * PageSize\<rparr>)"

lemma roomy_pool_ok:
  "pool_inv roomy_pool" "pool_view roomy_pool (3, 0) = Some (replicate PageSize 0)"
  "pins roomy_pool = (\<lambda>_. 0)" "frames_of roomy_pool = 1"
  "pool_view roomy_pool b = disk_page full_world b"
proof -
  have w: "files_ok (full_world\<lparr>w_space := 10 * PageSize\<rparr>)"
    using full_world_ok by (simp add: files_ok_def world_ok_def unaliased_def)
  have page: "disk_page (full_world\<lparr>w_space := 10 * PageSize\<rparr>) = disk_page full_world"
    by (auto simp: disk_page_def fun_eq_iff split: option.split)
  note m = make_frame_pool_inv [OF w, of "replicate PageSize 5" 1]
  show "pool_inv roomy_pool" "pool_view roomy_pool (3, 0) = Some (replicate PageSize 0)"
    "pins roomy_pool = (\<lambda>_. 0)" "frames_of roomy_pool = 1"
    "pool_view roomy_pool b = disk_page full_world b"
    using m full_world_page by (simp_all add: roomy_pool_def small_pool_def page)
qed

lemma full_world_pages: "disk_page full_world (3, i) = Some bs \<Longrightarrow> bs = replicate PageSize 0"
  by (auto simp: disk_page_def full_world_def region_def PageSize_def split: if_splits)

lemma full_world_count: "get_page_count 3 (full_world\<lparr>w_space := n\<rparr>) = 1" "get_page_count 3 full_world = 1"
  by (simp_all add: get_page_count_def full_world_def PageSize_def)

lemma small_table_inv:
  assumes "marshal_ok ms" and "i \<le> 1" and "s = roomy_pool \<or> s = small_pool"
  shows "table_inv (make_table 3 ms\<lparr>current_page_index := i\<rparr>) s" and "spare_frame s"
    and "table_page_count (make_table 3 ms\<lparr>current_page_index := i\<rparr>) s = 1"
proof -
  have view: "pool_view s b = disk_page full_world b" for b
    using assms(3) roomy_pool_ok(5) [of b]
      fun_cong [OF make_frame_pool_inv(2) [OF full_world_ok, of "replicate PageSize 5" 1], of b]
    by (elim disjE) (simp_all add: small_pool_def)
  have sizes: "get_page_count 3 (snd s) = 1" "w_file_size (snd s) 3 = PageSize" "w_open (snd s) 3 = Some 0"
    using assms(3) full_world_count by (auto simp: roomy_pool_def small_pool_def full_world_def)
  have "page_ok ms bs" if "pool_view s (3, j) = Some bs" for j bs
    using that full_world_pages zero_page_ok(1) [OF assms(1)] by (simp add: view)
  with assms sizes roomy_pool_ok(1) small_pool_ok(1)
  show "table_inv (make_table 3 ms\<lparr>current_page_index := i\<rparr>) s"
    by (auto simp: table_inv_def make_table_def table_page_count_def)
  show "spare_frame s"
    using assms(3) roomy_pool_ok small_pool_ok by (auto simp: spare_frame_def)
  show "table_page_count (make_table 3 ms\<lparr>current_page_index := i\<rparr>) s = 1"
    using sizes by (simp add: table_page_count_def make_table_def)
qed

lemma make_table_current: "make_table f ms\<lparr>current_page_index := 0\<rparr> = make_table f ms"
  by (simp add: make_table_def)

lemmas roomy_table = small_table_inv [OF id_marshal_ok(1), of 0, unfolded make_table_current, of roomy_pool]

text \<open>C12. Inserting a fitting row into a table returns as soon as a frame can be taken and the device
  has room for one page: the walk over the pages ends. The row is stored under an identifier
  that named no row, every other identifier names what it did, and no page of another file
  changes.\<close>

theorem insert_row_stores:
  assumes "table_inv t s" and "spare_frame s" and "has_room t s 1"
    and "row_fits (m_schema (t_marshal t)) row" and "0 < slots_of (t_marshal t)"
  shows "\<exists>rid t' s'. insert_row row t s = Some (Inr (rid, t', s')) \<and> table_inv t' s' \<and> spare_frame s' \<and>
    table_rows t s rid = None \<and> table_rows t' s' = (table_rows t s)(rid \<mapsto> row) \<and>
    (\<forall>b. fst b \<noteq> t_file t \<longrightarrow> pool_view s' b = pool_view s b)"
  using insert_row_stores_row [OF assms(1,2) _ assms(4,5), of 0] assms(3) by (auto simp: row_stored_def)

theorem insert_row_stores_witness:
  "\<exists>rid t' s'. insert_row [U64 7] (make_table 3 id_marshal) roomy_pool = Some (Inr (rid, t', s')) \<and>
    table_rows t' s' rid = Some [U64 7]"
proof -
  have "has_room (make_table 3 id_marshal) roomy_pool 1"
    using roomy_table(3) by (simp add: has_room_def roomy_pool_def PageSize_def)
  from insert_row_stores [OF roomy_table(1,2) this, of "[U64 7]"] id_marshal_ok(2,3)
  show ?thesis by (auto simp: make_table_def)
qed

text \<open>C24. Reading a row by an identifier within the table returns the row it names, the empty row
  when it names none, and changes no page.\<close>

theorem get_row_reads:
  assumes "table_inv t s" and "spare_frame s" and "page_index rid < table_page_count t s"
    and "row_index rid < slots_of (t_marshal t)"
  shows "\<exists>s'. get_row rid t s = Some (Inr (case table_rows t s rid of None \<Rightarrow> [] | Some r \<Rightarrow> r, s')) \<and>
    table_inv t s' \<and> spare_frame s' \<and> pool_view s' = pool_view s"
proof -
  obtain s' where s': "get_row rid t s = Some (Inr (case table_rows t s rid of None \<Rightarrow> [] | Some r \<Rightarrow> r, s'))"
      "session_kept s s'" "pool_view s' = pool_view s"
    using get_row_works [OF assms] by blast
  moreover have "table_inv t s'"
    using assms(1) s'(2,3) session_keptD(1,4) [OF s'(2)] by (simp add: table_inv_def session_kept_def)
  ultimately show ?thesis using assms(2) session_keptD(2) [OF s'(2)] by blast
qed

theorem get_row_reads_witness:
  "\<exists>s'. get_row \<lparr>page_index = 0, row_index = 0\<rparr> (make_table 3 id_marshal) roomy_pool = Some (Inr ([], s'))"
proof -
  have slots: "0 < slots_of (t_marshal (make_table 3 id_marshal))"
    using id_marshal_ok(2) by (simp add: make_table_def)
  have "pool_view roomy_pool (t_file (make_table 3 id_marshal), page_index \<lparr>page_index = 0, row_index = 0\<rparr>) =
      Some (replicate PageSize 0)"
    using roomy_pool_ok(2) by (simp add: make_table_def)
  from table_rows_page [OF this]
  have "table_rows (make_table 3 id_marshal) roomy_pool \<lparr>page_index = 0, row_index = 0\<rparr> = None"
    using slots by (simp add: make_table_def zero_page_ok(2) [OF id_marshal_ok(1)])
  with get_row_reads [OF roomy_table(1,2), of "\<lparr>page_index = 0, row_index = 0\<rparr>"] roomy_table(3) slots
  show ?thesis by auto
qed

text \<open>C13. A client that inserts a list of fitting rows and then reads the identifiers it was given
  gets its rows back in order, whatever pages were displaced in between; the identifiers are
  distinct and rows stored before are still there.\<close>

theorem insert_all_get_all:
  assumes "table_inv t s" and "spare_frame s" and "0 < slots_of (t_marshal t)"
    and "\<forall>r \<in> set rs. row_fits (m_schema (t_marshal t)) r" and "has_room t s (length rs)"
  shows "\<exists>ids x y. run_all ts_insert rs (t, s) = Some (Inr (ids, x)) \<and> run_all ts_get ids x = Some (Inr (rs, y)) \<and>
    distinct ids \<and> (\<forall>i r. table_rows t s i = Some r \<longrightarrow> ts_rows y i = Some r)"
proof -
  have "ts_ok (t, s)" "\<forall>r \<in> set rs. ts_fits (t, s) r" "ts_room (t, s) (length rs)"
    using assms by (simp_all add: ts_ok_def ts_fits_def ts_room_def)
  from ts.insert_many_get_many [OF this] show ?thesis by (simp add: ts_rows_def)
qed

theorem insert_all_get_all_witness:
  "\<exists>ids x y. run_all ts_insert [[U64 1], [U64 2]] (make_table 3 id_marshal, roomy_pool) = Some (Inr (ids, x)) \<and>
    run_all ts_get ids x = Some (Inr ([[U64 1], [U64 2]], y))"
proof -
  have "row_fits (m_schema id_marshal) [U64 v]" for v
    by (simp add: id_marshal_def make_marshal_def row_fits_def)
  moreover have "has_room (make_table 3 id_marshal) roomy_pool 2"
    using roomy_table(3) by (simp add: has_room_def roomy_pool_def PageSize_def)
  ultimately have "\<exists>ids x y. run_all ts_insert [[U64 1], [U64 2]] (make_table 3 id_marshal, roomy_pool) =
        Some (Inr (ids, x)) \<and>
      run_all ts_get ids x = Some (Inr ([[U64 1], [U64 2]], y)) \<and> distinct ids \<and>
      (\<forall>i r. table_rows (make_table 3 id_marshal) roomy_pool i = Some r \<longrightarrow> ts_rows y i = Some r)"
    using roomy_table id_marshal_ok(2)
    by (intro insert_all_get_all) (auto simp: make_table_def numeral_2_eq_2)
  then show ?thesis by blast
qed

text \<open>C14. Pool, frames and bytes do not show: inserting a list of fitting rows through a pool of any size
  gives the identifiers and leaves the pages that the reference gives, a plain list of pages where a
  row goes to the first empty slot from the current page on. So two tables with the same pages answer
  alike, whatever is cached, displaced or still to be written back.\<close>

theorem insert_all_equals_reference:
  assumes "table_inv t s" and "spare_frame s" and "0 < slots_of (t_marshal t)"
    and "\<forall>r \<in> set rs. row_fits (m_schema (t_marshal t)) r" and "has_room t s (length rs)"
  shows "\<exists>rids t' s'. run_all ts_insert rs (t, s) = Some (Inr (rids, t', s')) \<and>
    (rids, page_list t' s', current_page_index t') =
      ref_insert_all (slots_of (t_marshal t)) rs (page_list t s, current_page_index t)"
  using assms
proof (induction rs arbitrary: t s)
  case (Cons r rs)
  have room: "has_room t s (Suc (length rs))" and fits: "row_fits (m_schema (t_marshal t)) r" using Cons.prems(4,5) by simp_all
  obtain rid t1 s1 where one: "insert_row r t s = Some (Inr (rid, t1, s1))" "row_stored r t s rid t1 s1"
    using insert_row_stores_row [OF Cons.prems(1,2) room fits Cons.prems(3)] by blast
  then have kept: "t_marshal t1 = t_marshal t" "table_inv t1 s1" "spare_frame s1" "has_room t1 s1 (length rs)"
      and ref: "ref_insert (slots_of (t_marshal t)) r (page_list t s, current_page_index t) =
        (rid, page_list t1 s1, current_page_index t1)"
    using room by (simp_all add: row_stored_def)
  from Cons.IH [OF kept(2,3) _ _ kept(4)] Cons.prems(3,4) kept(1) obtain rids t2 s2 where
      two: "run_all ts_insert rs (t1, s1) = Some (Inr (rids, t2, s2))"
        "(rids, page_list t2 s2, current_page_index t2) =
          ref_insert_all (slots_of (t_marshal t)) rs (page_list t1 s1, current_page_index t1)"
    by auto
  have "run_all ts_insert (r # rs) (t, s) = Some (Inr (rid # rids, t2, s2))"
    using one(1) two(1) by (simp add: ts_insert_def)
  moreover have "(rid # rids, page_list t2 s2, current_page_index t2) =
      ref_insert_all (slots_of (t_marshal t)) (r # rs) (page_list t s, current_page_index t)"
    by (simp add: ref two(2) [symmetric])
  ultimately show ?case by blast
qed simp

theorem insert_all_equals_reference_witness:
  "\<exists>t' s'. run_all ts_insert [[U64 1], [U64 2]] (make_table 3 id_marshal, roomy_pool) =
    Some (Inr ([\<lparr>page_index = 0, row_index = 0\<rparr>, \<lparr>page_index = 0, row_index = 1\<rparr>], t', s'))"
proof -
  let ?t = "make_table 3 id_marshal" and ?n = "slots_of id_marshal"
  have "row_fits (m_schema id_marshal) [U64 v]" for v
    by (simp add: id_marshal_def make_marshal_def row_fits_def)
  moreover have "has_room ?t roomy_pool 2"
    using roomy_table(3) by (simp add: has_room_def roomy_pool_def PageSize_def)
  ultimately obtain rids t' s' where run: "run_all ts_insert [[U64 1], [U64 2]] (?t, roomy_pool) = Some (Inr (rids, t', s'))"
      and ref: "(rids, page_list t' s', current_page_index t') =
        ref_insert_all (slots_of (t_marshal ?t)) [[U64 1], [U64 2]] (page_list ?t roomy_pool, current_page_index ?t)"
    using insert_all_equals_reference [of ?t roomy_pool "[[U64 1], [U64 2]]"] roomy_table id_marshal_ok(2)
    by (auto simp: make_table_def numeral_2_eq_2)
  have page: "page_list ?t roomy_pool = [replicate ?n None]"
    using roomy_pool_ok(2) roomy_table(3) zero_page_ok(2) [OF id_marshal_ok(1)] by (simp add: page_list_def make_table_def)
  have n: "1 < ?n" by (simp add: id_marshal_def make_marshal_def slots_of_def slot_size_def PageSize_def)
  then have "first_empty (replicate ?n (None :: row option)) = Some 0"
    by (auto simp: first_empty_def find_Some_iff intro!: exI [of _ 0])
  moreover have "first_empty ((replicate ?n None)[0 := Some [U64 1]]) = Some 1"
    using n by (auto simp: first_empty_def find_Some_iff nth_list_update intro!: exI [of _ 1])
  moreover have "t_marshal ?t = id_marshal" "current_page_index ?t = 0" by (simp_all add: make_table_def)
  ultimately have "rids = [\<lparr>page_index = 0, row_index = 0\<rparr>, \<lparr>page_index = 0, row_index = 1\<rparr>]"
    using ref by (simp add: page ref_insert_here)
  with run show ?thesis by blast
qed

text \<open>C35. When the walk runs past the end of a file on a full device, the call does not report it: the
  failed allocation goes unnoticed and the process stops at the assertion in the read of a page
  that was never allocated.\<close>

theorem insert_row_full_device:
  assumes "table_inv t s" and "spare_frame s" and "current_page_index t = table_page_count t s"
    and "w_space (snd s) < PageSize"
  shows "insert_row row t s = Some (Inl (AssertionFailed ''r == PageSize''))"
  using insert_row_no_room [OF assms] .

theorem insert_row_full_device_witness:
  "insert_row [U64 7] (make_table 3 id_marshal\<lparr>current_page_index := 1\<rparr>) small_pool =
    Some (Inl (AssertionFailed ''r == PageSize''))"
  using small_table_inv [OF id_marshal_ok(1), of 1 small_pool]
  by (intro insert_row_full_device) (simp_all add: small_pool_def full_world_def)

text \<open>C36. With a schema wider than a page, inserting any row takes every page the device has room for
  and then stops at the same assertion: nothing refuses the schema or the row. The loop of the call goes
  through rounds that find no slot to a state in which the file has grown by all the whole pages that were
  left on the device and less than one page is left; there the next round fails, and so the call.\<close>

theorem insert_row_wider_than_page:
  assumes "table_inv t s" and "spare_frame s" and "PageSize < slot_size (t_marshal t)"
    and "(table_page_count t s + w_space (snd s) div PageSize) * PageSize < 2 ^ 63"
  shows "\<exists>t' s'. rtranclp (wasted_round row) (t, s) (t', s') \<and>
    table_page_count t' s' = table_page_count t s + w_space (snd s) div PageSize \<and>
    w_space (snd s') = w_space (snd s) mod PageSize \<and>
    insert_attempt row t' s' = Some (Inl (AssertionFailed ''r == PageSize'')) \<and>
    insert_row row t s = Some (Inl (AssertionFailed ''r == PageSize''))"
proof -
  have "slots_of (t_marshal t) = 0" using assms(3) by (simp add: slots_of_def)
  from insert_row_too_wide [OF assms(1,2) this assms(4)] obtain t' s' where b: "device_taken row (t, s) (t', s')" by blast
  then have walk: "rtranclp (wasted_round row) (t, s) (t', s')" and full: "w_space (snd s') < PageSize"
      and at: "table_inv t' s'" "spare_frame s'" "current_page_index t' = table_page_count t' s'"
    by (simp_all add: device_taken_def)
  have "insert_row row t s = insert_row row t' s'" using wasted_rounds_insert [OF walk] by simp
  with b walk insert_attempt_no_room [OF at full] insert_row_no_room [OF at full] show ?thesis
    by (intro exI [of _ t'] exI [of _ s']) (simp add: device_taken_def)
qed

text \<open>A schema of 512 numbers.\<close>

definition wide_marshal :: marshal where
  "wide_marshal = make_marshal 0 (replicate 512 \<lparr>col_name = ''n'', col_type = Uint64, col_length = 8\<rparr>)"

lemma wide_marshal_ok: "marshal_ok wide_marshal" "slot_size wide_marshal = 4097"
proof -
  show "marshal_ok wide_marshal"
    unfolding wide_marshal_def
    by (intro marshal_ok_make) (simp add: schema_ok_def row_size_def sum_list_replicate)
qed (simp add: wide_marshal_def row_size_def sum_list_replicate slot_size_def make_marshal_def)

theorem insert_row_wider_than_page_witness:
  "\<exists>t' s'. rtranclp (wasted_round []) (make_table 3 wide_marshal, roomy_pool) (t', s') \<and> table_page_count t' s' = 11 \<and>
    w_space (snd s') = 0 \<and> insert_row [] (make_table 3 wide_marshal) roomy_pool = Some (Inl (AssertionFailed ''r == PageSize''))"
proof -
  note t = small_table_inv [OF wide_marshal_ok(1), of 0 roomy_pool, unfolded make_table_current, simplified]
  have space: "w_space (snd roomy_pool) = 10 * PageSize" by (simp add: roomy_pool_def)
  have "PageSize < slot_size (t_marshal (make_table 3 wide_marshal))"
    using wide_marshal_ok(2) by (simp add: make_table_def PageSize_def)
  from insert_row_wider_than_page [OF t(1,2) this, of "[]"] t(3) space show ?thesis by (auto simp: PageSize_def)
qed

end
