(* ===== verification/Store.thy ===== *)
theory Store
  imports Table
begin

text \<open>
  \<open>src/store/store.cpp\<close>: a directory of tables over one buffer pool. Connecting a table opens
  its file, or creates it, and wraps it in a new \<open>Table\<close>; nothing remembers that a file is
  already open. A store is the path of its directory; the pool it owns is the \<open>pool_state\<close>
  its operations take.
\<close>

section \<open>The class Store\<close>

text \<open>The path \<open>base / p\<close> of \<open>std::filesystem\<close>.\<close>

definition path_append :: "string \<Rightarrow> string \<Rightarrow> string" where
  "path_append base p =
     (if p \<noteq> [] \<and> hd p = CHR ''/'' then p
      else if base = [] \<or> last base = CHR ''/'' then base @ p
      else base @ ''/'' @ p)"

definition sys_exists :: "string \<Rightarrow> world \<Rightarrow> bool" where
  "sys_exists path w \<longleftrightarrow> w_dir w path \<noteq> None"

text \<open>A removed file lives on for the descriptors that have it open.\<close>

definition sys_remove :: "string \<Rightarrow> world \<Rightarrow> world" where
  "sys_remove path w = w\<lparr>w_dir := (w_dir w)(path := None)\<rparr>"

definition make_store :: "memory \<Rightarrow> nat \<Rightarrow> world \<Rightarrow> pool_state" where
  "make_store mem n w = (make_buffer_pool mem n, w)"

definition connect_table :: "string \<Rightarrow> string \<Rightarrow> byte \<Rightarrow> schema \<Rightarrow> pool_state \<Rightarrow> (table \<times> pool_state) result" where
  "connect_table dir name null cs s =
     (let path = path_append dir name in
      bindE (if sys_exists path (snd s) then open_file path (snd s) else create_file path (snd s))
        (\<lambda>(f, w). Inr (make_table f (make_fixed_page_provider null cs), (fst s, w))))"

definition store_exists :: "string \<Rightarrow> string \<Rightarrow> pool_state \<Rightarrow> bool" where
  "store_exists dir name s = sys_exists (path_append dir name) (snd s)"

definition store_drop :: "string \<Rightarrow> string \<Rightarrow> pool_state \<Rightarrow> pool_state" where
  "store_drop dir name s = (fst s, sys_remove (path_append dir name) (snd s))"

section \<open>Opening files\<close>

lemma open_file_works:
  assumes "world_ok w" and "w_dir w path = Some ino"
  shows "open_file path w = Inr (w_next_fd w,
    w\<lparr>w_open := (w_open w)(w_next_fd w \<mapsto> ino), w_next_fd := w_next_fd w + 1,
      w_file_size := (w_file_size w)(w_next_fd w := length (w_bytes w ino))\<rparr>)"
  using assms
  by (simp add: open_file_def file_ctor_def sys_open_def sys_fstat_size_def world_ok_def)

lemma create_file_works:
  assumes "world_ok w" and "w_dir w path = None"
  shows "create_file path w = Inr (w_next_fd w,
    w\<lparr>w_dir := (w_dir w)(path \<mapsto> w_next_inode w), w_bytes := (w_bytes w)(w_next_inode w := []),
      w_open := (w_open w)(w_next_fd w \<mapsto> w_next_inode w), w_next_inode := w_next_inode w + 1,
      w_next_fd := w_next_fd w + 1, w_file_size := (w_file_size w)(w_next_fd w := 0)\<rparr>)"
  using assms
  by (simp add: create_file_def file_ctor_def sys_open_def sys_fstat_size_def world_ok_def)

text \<open>A file opened by a descriptor of its own leaves the pages of the others alone.\<close>

lemma files_ok_open:
  assumes "files_ok w" and "ino < w_next_inode w" and "\<And>fd. w_open w fd \<noteq> Some ino"
  shows "files_ok (w\<lparr>w_open := (w_open w)(w_next_fd w \<mapsto> ino), w_next_fd := w_next_fd w + 1,
      w_file_size := (w_file_size w)(w_next_fd w := length (w_bytes w ino))\<rparr>)"
proof -
  have old: "fd < w_next_fd w + 1" if "w_open w fd = Some ino'" for fd ino'
    using assms(1) that unfolding files_ok_def world_ok_def by fastforce
  have fresh: "w_open w (w_next_fd w) = None"
    using assms(1) unfolding files_ok_def world_ok_def
    by (cases "w_open w (w_next_fd w)") (fastforce, fastforce)
  show ?thesis
    using assms old fresh by (auto simp: files_ok_def world_ok_def unaliased_def)
qed

lemma pool_world_same:
  assumes "pool_inv s" and "files_ok w" and "disk_page w = disk_page (snd s)"
  shows "pool_inv (fst s, w)" and "pool_view (fst s, w) = pool_view s"
proof -
  show "pool_inv (fst s, w)" by (rule pool_inv_world [OF assms(1,2)]) (simp add: assms(3))
  show "pool_view (fst s, w) = pool_view s"
    by (rule ext) (simp add: pool_view_def cached_at_def assms(3) cong: option.case_cong)
qed

text \<open>The process ends and another starts: no file is open.\<close>

definition new_process :: "world \<Rightarrow> world" where
  "new_process w = w\<lparr>w_open := Map.empty, w_next_fd := 3, w_file_size := (\<lambda>_. 0)\<rparr>"

lemma new_process_ok: "files_ok w \<Longrightarrow> files_ok (new_process w)"
  by (auto simp: new_process_def files_ok_def world_ok_def unaliased_def)

section \<open>Connecting a new name\<close>

lemma connect_new:
  assumes inv: "pool_inv s" and new: "w_dir (snd s) (path_append dir name) = None"
  obtains w where
    "connect_table dir name null cs s = Inr (make_table (w_next_fd (snd s)) (make_marshal null cs), (fst s, w))"
    and "pool_inv (fst s, w)" and "pool_view (fst s, w) = pool_view s"
    and "\<And>i. pool_view s (w_next_fd (snd s), i) = None"
    and "w_dir w (path_append dir name) \<noteq> None" and "w_open w (w_next_fd (snd s)) \<noteq> None"
    and "w_file_size w (w_next_fd (snd s)) = 0" and "w_space w = w_space (snd s)"
proof -
  let ?w = "snd s" and ?path = "path_append dir name"
  let ?w' = "?w\<lparr>w_dir := (w_dir ?w)(?path \<mapsto> w_next_inode ?w), w_bytes := (w_bytes ?w)(w_next_inode ?w := []),
      w_open := (w_open ?w)(w_next_fd ?w \<mapsto> w_next_inode ?w), w_next_inode := w_next_inode ?w + 1,
      w_next_fd := w_next_fd ?w + 1, w_file_size := (w_file_size ?w)(w_next_fd ?w := 0)\<rparr>"
  have files: "files_ok ?w" using pool_invD(1) [OF inv] .
  then have w: "world_ok ?w" by (simp add: files_ok_def)
  have fd: "ino < w_next_inode ?w" "fd < w_next_fd ?w" if "w_open ?w fd = Some ino" for fd ino
    using w that unfolding world_ok_def by blast+
  have fresh: "w_open ?w (w_next_fd ?w) = None"
    using fd by (cases "w_open ?w (w_next_fd ?w)") fastforce+
  let ?u = "?w\<lparr>w_dir := (w_dir ?w)(?path \<mapsto> w_next_inode ?w), w_bytes := (w_bytes ?w)(w_next_inode ?w := []),
      w_next_inode := w_next_inode ?w + 1\<rparr>"
  have "files_ok ?u"
    using files fd unfolding files_ok_def world_ok_def unaliased_def by (auto simp: less_SucI)
  then have ok: "files_ok ?w'"
  proof -
    have "w_open ?u fd \<noteq> Some (w_next_inode ?w)" for fd using fd(1) by fastforce
    moreover have eq: "?w' = ?u\<lparr>w_open := (w_open ?u)(w_next_fd ?u \<mapsto> w_next_inode ?w),
        w_next_fd := w_next_fd ?u + 1,
        w_file_size := (w_file_size ?u)(w_next_fd ?u := length (w_bytes ?u (w_next_inode ?w)))\<rparr>"
      by (cases "snd s") simp
    ultimately show ?thesis
      unfolding eq by (intro files_ok_open [OF \<open>files_ok ?u\<close>]) simp_all
  qed
  have "disk_page ?w' b = disk_page ?w b" for b
    using fresh fd(1) [of "fst b"] PageSize_pos
    by (auto simp: disk_page_def simp del: PageSize_pos split: option.split)
  then have pages: "disk_page ?w' = disk_page ?w" by (rule ext)
  note s' = pool_world_same [OF inv ok this]
  have none: "pool_view s (w_next_fd ?w, i) = None" for i
    using pool_view_disk [OF inv, of "(w_next_fd ?w, i)"] fresh by (simp add: disk_page_def)
  have "connect_table dir name null cs s = Inr (make_table (w_next_fd ?w) (make_marshal null cs), (fst s, ?w'))"
    using create_file_works [OF w new] new
    by (simp add: connect_table_def sys_exists_def Let_def make_fixed_page_provider_def)
  from that [OF this s'(1,2) none] show ?thesis by simp
qed

section \<open>Properties\<close>

text \<open>C27. Connecting a name that does not exist creates its file and gives a well-formed table with no
  rows; the pages of every open file are as before.\<close>

theorem connect_table_creates:
  assumes inv: "pool_inv s" and new: "w_dir (snd s) (path_append dir name) = None" and cs: "schema_ok cs"
  shows "\<exists>t s'. connect_table dir name null cs s = Inr (t, s') \<and> table_inv t s' \<and>
    table_rows t s' = Map.empty \<and> store_exists dir name s' \<and> pool_view s' = pool_view s \<and>
    t_marshal t = make_marshal null cs"
proof -
  let ?fd = "w_next_fd (snd s)"
  obtain w where w: "connect_table dir name null cs s = Inr (make_table ?fd (make_marshal null cs), (fst s, w))"
      "pool_inv (fst s, w)" "pool_view (fst s, w) = pool_view s" "\<And>i. pool_view s (?fd, i) = None"
      "w_dir w (path_append dir name) \<noteq> None" "w_open w ?fd \<noteq> None" "w_file_size w ?fd = 0"
    using connect_new [OF inv new] by metis
  have "table_inv (make_table ?fd (make_marshal null cs)) (fst s, w)"
    using w(2-4,6,7) marshal_ok_make [OF cs]
    by (simp add: table_inv_def make_table_def table_page_count_def get_page_count_def PageSize_def)
  moreover have "table_rows (make_table ?fd (make_marshal null cs)) (fst s, w) = Map.empty"
    using w(3,4) by (simp add: table_rows_def make_table_def fun_eq_iff)
  moreover have "store_exists dir name (fst s, w)" using w(5) by (simp add: store_exists_def sys_exists_def)
  ultimately show ?thesis using w(1,3) by (auto simp: make_table_def)
qed

theorem connect_table_creates_witness:
  "\<exists>t s'. connect_table [] ''u'' 0 (m_schema id_marshal) roomy_pool = Inr (t, s') \<and> table_rows t s' = Map.empty"
  using connect_table_creates [OF roomy_pool_ok(1), of "[]" "''u''" "m_schema id_marshal" 0] id_marshal_ok(1)
  by (auto simp: roomy_pool_def full_world_def path_append_def marshal_ok_def)

text \<open>C15. Rows survive a clean shutdown: after the pool is closed and another process connects the same
  file with the same schema, through a pool of any size, the table holds exactly the rows it
  held.\<close>

theorem rows_survive_restart:
  assumes inv: "table_inv t s" and ms: "t_marshal t = make_marshal null cs"
    and dir: "w_dir (snd s) (path_append dir name) = Some ino" and fd: "w_open (snd s) (t_file t) = Some ino"
    and mem: "length mem = n * PageSize" "0 < n"
  shows "\<exists>p w t' s'. close_frame_pool s = Inr (p, w) \<and>
    connect_table dir name null cs (make_store mem n (new_process w)) = Inr (t', s') \<and>
    table_inv t' s' \<and> table_rows t' s' = table_rows t s"
proof -
  note d = table_invD [OF inv]
  obtain w where w: "close_frame_pool s = Inr (fst s, w)" "files_ok w" "same_files (snd s) w"
      "disk_page w = pool_view s"
    using close_frame_pool_works [OF d(1)] by blast
  let ?u = "new_process w"
  let ?v = "?u\<lparr>w_open := (w_open ?u)(w_next_fd ?u \<mapsto> ino), w_next_fd := w_next_fd ?u + 1,
      w_file_size := (w_file_size ?u)(w_next_fd ?u := length (w_bytes ?u ino))\<rparr>"
  let ?t = "make_table 3 (make_marshal null cs)" and ?s = "(make_frame_pool mem n, ?v)"
  have ok0: "files_ok ?u" using new_process_ok [OF w(2)] .
  have at: "w_dir w (path_append dir name) = Some ino" "w_open w (t_file t) = Some ino"
    using dir fd w(3) by (simp_all add: same_files_def)
  have lt: "ino < w_next_inode ?u"
    using at w(2) unfolding files_ok_def world_ok_def new_process_def by auto
  have ok: "files_ok ?v" using files_ok_open [OF ok0 lt] by (simp add: new_process_def)
  note m = make_frame_pool_inv [OF ok mem]
  have len: "length (w_bytes w ino) = table_page_count t s * PageSize"
    using at w(2,3) d(4) by (auto simp: files_ok_def unaliased_def same_files_def)
  have "disk_page ?v (3, i) = disk_page w (t_file t, i)" for i
    using at by (simp add: disk_page_def new_process_def)
  then have view: "pool_view ?s (3, i) = pool_view s (t_file t, i)" for i
    using m(2) w(4) by simp
  have "open_file (path_append dir name) ?u = Inr (3, ?v)"
    using open_file_works [of ?u "path_append dir name" ino] ok0 at
    by (simp add: files_ok_def new_process_def)
  then have "connect_table dir name null cs (make_store mem n ?u) = Inr (?t, ?s)"
    using at by (simp add: connect_table_def sys_exists_def Let_def make_fixed_page_provider_def
        make_store_def new_process_def)
  moreover have "w_file_size ?v 3 = table_page_count t s * PageSize" using len by (simp add: new_process_def)
  note page_count_multiple [OF this] this
  then have "table_inv ?t ?s"
    using m(1) d(2,6) ms view
    by (simp add: table_inv_def make_table_def table_page_count_def) (simp add: new_process_def)
  moreover have "table_rows ?t ?s = table_rows t s"
    using view ms by (intro table_rows_cong) (simp_all add: make_table_def)
  ultimately show ?thesis using w(1) by blast
qed

theorem rows_survive_restart_witness:
  "\<exists>p w t' s'. close_frame_pool roomy_pool = Inr (p, w) \<and>
    connect_table [] ''t'' 0 (m_schema id_marshal) (make_store (replicate PageSize 0) 1 (new_process w)) =
      Inr (t', s') \<and>
    table_rows t' s' = table_rows (make_table 3 id_marshal) roomy_pool"
proof -
  have ms: "t_marshal (make_table 3 id_marshal) = make_marshal 0 (m_schema id_marshal)"
    by (simp add: make_table_def id_marshal_def make_marshal_def)
  have dir: "w_dir (snd roomy_pool) (path_append [] ''t'') = Some 0"
      "w_open (snd roomy_pool) (t_file (make_table 3 id_marshal)) = Some 0"
    by (simp_all add: roomy_pool_def full_world_def path_append_def make_table_def)
  show ?thesis
    using rows_survive_restart [OF roomy_table(1) ms dir, of "replicate PageSize 0" 1] by auto
qed

end
