(* ===== verification/Numerals.thy ===== *)
theory Numerals
  imports Prelude
begin

text \<open>
  Decimal numerals, as the streams of the program print them, and that they can be read back.
\<close>

section \<open>Numbers\<close>

text \<open>The decimal numeral of a number, as streams and \<open>std::to_string\<close> print it.\<close>

definition digit :: "nat \<Rightarrow> char" where
  "digit n = char_of (48 + n)"

fun nat_text :: "nat \<Rightarrow> string" where
  "nat_text n = (if n < 10 then [digit n] else nat_text (n div 10) @ [digit (n mod 10)])"

declare nat_text.simps [simp del]

definition int_text :: "int \<Rightarrow> string" where
  "int_text i = (if i < 0 then CHR ''-'' # nat_text (nat (- i)) else nat_text (nat i))"

definition u32_text :: "u32 \<Rightarrow> string" where
  "u32_text w = nat_text (unat w)"

section \<open>Reading numerals\<close>

text \<open>A separator splits a text in one way only.\<close>

lemma split_at_separator:
  assumes "c \<notin> set a" and "c \<notin> set b"
  shows "a @ c # x = b @ c # y \<longleftrightarrow> a = b \<and> x = y"
  using assms
proof (induction a arbitrary: b)
  case Nil
  then show ?case by (cases b) auto
next
  case (Cons d a)
  then show ?case by (cases b) auto
qed

definition digit_value :: "char \<Rightarrow> nat" where
  "digit_value c = of_char c - 48"

definition numeral_value :: "string \<Rightarrow> nat" where
  "numeral_value cs = foldl (\<lambda>n c. 10 * n + digit_value c) 0 cs"

lemma digit_value_digit: "n < 10 \<Longrightarrow> digit_value (digit n) = n"
  by (simp add: digit_value_def digit_def)

lemma digit_char: "n < 10 \<Longrightarrow> of_char (digit n) = 48 + n"
  by (simp add: digit_def)

lemma numeral_value_nat_text: "numeral_value (nat_text n) = n"
proof (induction n rule: nat_text.induct)
  case (1 n)
  show ?case
  proof (cases "n < 10")
    case True
    then show ?thesis by (subst nat_text.simps) (simp add: numeral_value_def digit_value_digit)
  next
    case False
    with 1 show ?thesis by (subst nat_text.simps) (simp add: numeral_value_def digit_value_digit)
  qed
qed

lemma nat_text_digits: "c \<in> set (nat_text n) \<Longrightarrow> 48 \<le> (of_char c :: nat) \<and> (of_char c :: nat) \<le> 57"
proof (induction n rule: nat_text.induct)
  case (1 n)
  show ?case
  proof (cases "n < 10")
    case True
    with 1(2) show ?thesis by (subst (asm) nat_text.simps) (simp add: digit_char)
  next
    case False
    with 1 show ?thesis by (subst (asm) (2) nat_text.simps) (auto simp: digit_char)
  qed
qed

lemma nat_text_inject [simp]: "nat_text m = nat_text n \<longleftrightarrow> m = n"
  by (metis numeral_value_nat_text)

lemma nat_text_no:
  assumes "(of_char c :: nat) < 48 \<or> 57 < (of_char c :: nat)"
  shows "c \<notin> set (nat_text n)"
  using nat_text_digits [of c n] assms by auto

lemma int_text_no:
  assumes "((of_char c :: nat) < 48 \<or> 57 < (of_char c :: nat)) \<and> c \<noteq> CHR ''-''"
  shows "c \<notin> set (int_text i)"
  using assms nat_text_no [of c] by (simp add: int_text_def)

lemma int_text_inject [simp]: "int_text i = int_text j \<longleftrightarrow> i = j"
proof -
  have "CHR ''-'' \<notin> set (nat_text n)" for n by (rule nat_text_no) simp
  then have "CHR ''-'' # x \<noteq> nat_text n" "nat_text n \<noteq> CHR ''-'' # x" for x n
    by (metis list.set_intros(1))+
  then show ?thesis by (cases "i < 0"; cases "j < 0") (auto simp: int_text_def)
qed

lemma u32_text_inject [simp]: "u32_text v = u32_text w \<longleftrightarrow> v = w"
  by (simp add: u32_text_def word_unat_eq_iff)

end
