(* ===== verification/Programs.thy ===== *)
theory Programs
  imports Store Numerals
begin

text \<open>
  The programs over the store: \<open>example/main.cpp\<close>, which fills a table and reads it back, and
  \<open>src/db/database.cpp\<close>, a database whose operations are still empty. The example never ends
  normally: its rows do not fit its schema.
\<close>

section \<open>What the example prints\<close>

text \<open>The \<open>operator<<\<close> of the alternatives of a value.\<close>

fun attr_text :: "attr \<Rightarrow> string" where
  "attr_text NullAttribute = ''null''"
| "attr_text (Bool b) = (if b then ''1'' else ''0'')"
| "attr_text (U64 v) = nat_text (unat v)"

definition line :: "string \<Rightarrow> string" where
  "line t = t @ [CHR 0x0A]"

definition example_row_text :: "row \<Rightarrow> string" where
  "example_row_text row = line ''=== row:'' @ concat (map (\<lambda>v. line (attr_text v)) row)"

section \<open>example/main.cpp\<close>

definition example_schema :: schema where
  "example_schema =
     [\<lparr>col_name = ''id'', col_type = Uint64, col_length = 4\<rparr>,
      \<lparr>col_name = ''status'', col_type = Boolean, col_length = 1\<rparr>,
      \<lparr>col_name = ''number'', col_type = Uint64, col_length = 4\<rparr>]"

text \<open>\<open>i % 2\<close> is a \<open>size_t\<close>: the second value is a number, not a boolean.\<close>

definition example_row :: "nat \<Rightarrow> row" where
  "example_row i = [U64 (of_nat i), U64 (of_nat (i mod 2)), U64 (100 + of_nat i)]"

text \<open>\<open>unordered_map::insert\<close> keeps the entry that is there.\<close>

definition expect_row :: "row_id \<Rightarrow> row \<Rightarrow> (row_id \<times> row) list \<Rightarrow> (row_id \<times> row) list" where
  "expect_row rid row expected = (if rid \<in> fst ` set expected then expected else expected @ [(rid, row)])"

primrec example_inserts :: "nat list \<Rightarrow> (row_id \<times> row) list \<Rightarrow> table \<Rightarrow> pool_state \<Rightarrow>
    ((row_id \<times> row) list \<times> table \<times> pool_state) outcome" where
  "example_inserts [] expected t s = Some (Inr (expected, t, s))"
| "example_inserts (i # is) expected t s =
     bindO (insert_row (example_row i) t s) (\<lambda>(rid, t1, s1).
       example_inserts is (expect_row rid (example_row i) expected) t1 s1)"

primrec example_reads :: "(row_id \<times> row) list \<Rightarrow> table \<Rightarrow> string \<times> pool_state \<Rightarrow> (string \<times> pool_state) outcome" where
  "example_reads [] t s = Some (Inr s)"
| "example_reads (e # es) t s =
     bindO (get_row (fst e) t (snd s)) (\<lambda>(row, s1).
     bindO (returns (assertE (row = snd e) ''row == row_expected'')) (\<lambda>_.
       example_reads es t (fst s @ example_row_text row @ line [], s1)))"

text \<open>\<open>order\<close> is the order in which the map is visited, \<open>mem\<close> what \<open>new\<close> found in the memory of the
  frames, \<open>null\<close> the byte of a null; at the end the pool is flushed and the file closed.\<close>

definition example_main :: "((row_id \<times> row) list \<Rightarrow> (row_id \<times> row) list) \<Rightarrow> byte \<Rightarrow> memory \<Rightarrow> world \<Rightarrow>
    (string \<times> world) outcome" where
  "example_main order null mem w =
     (let s = make_store mem 5 w in
      bindO (returns (connect_table [] ''test_db'' null example_schema s)) (\<lambda>(t, s1).
      bindO (example_inserts [0..<3] [] t s1) (\<lambda>(expected, t1, s2).
      bindO (example_reads (order expected) t1 (line ''Hello, World!'', s2)) (\<lambda>(out, s3).
      bindO (returns (close_frame_pool s3)) (\<lambda>s4.
        Some (Inr (out, close_file (t_file t1) (snd s4))))))))"

section \<open>db/database.cpp\<close>

text \<open>A database is a store.\<close>

record database =
  db_path :: string
  db_store :: pool_state

definition make_database :: "memory \<Rightarrow> string \<Rightarrow> nat \<Rightarrow> world \<Rightarrow> database" where
  "make_database mem path n w = \<lparr>db_path = path, db_store = make_store mem n w\<rparr>"

definition db_add_table :: "database \<Rightarrow> database" where
  "db_add_table db = db"

definition db_insert_row :: "database \<Rightarrow> database" where
  "db_insert_row db = db"

definition db_get_row :: "database \<Rightarrow> database" where
  "db_get_row db = db"

section \<open>The first row of the example\<close>

lemma example_misfit: "\<not> row_fits example_schema (example_row i)"
  by (simp add: example_schema_def example_row_def)

definition example_marshal :: "byte \<Rightarrow> marshal" where
  "example_marshal null = make_marshal null example_schema"

lemma example_space: "fixed_row_space (example_marshal null) = Inr 9"
  by (simp add: example_marshal_def fixed_row_space_def make_marshal_def calculate_row_space_def example_schema_def)

lemma example_indexes: "max_row_index (example_marshal null) = Inr 409" "[0..<409] = 0 # [1..<409]"
  using upt_conv_Cons [of 0 409]
  by (simp_all add: max_row_index_def example_space PageSize_def del: upt_rec_numeral upt_Suc)

text \<open>The page is empty: slot 0 is taken, and what is read back is not the row.\<close>

lemma example_page_insert:
  assumes "page + PageSize \<le> length m" and "m ! page = 0"
  shows "page_insert_row (example_marshal null) page (example_row 0) m = Inl (AssertionFailed ''actual_row == row'')"
proof -
  let ?ms = "example_marshal null" and ?r = "example_row 0"
  have len: "page + 25 \<le> length m" using assms(1) by (simp add: PageSize_def)
  have free: "find_free_slot ?ms page m = Inr (True, 0)"
    using len assms(2)
    by (simp add: find_free_slot_def example_indexes data_by_index_def example_space region_def
        del: upt_rec_numeral upt_Suc)
  let ?m1 = "overlay page [1] m" and ?bs = "u64_bytes 0 @ u64_bytes 0 @ u64_bytes 100"
  have len1: "length ?m1 = length m" using len by (simp add: length_overlay)
  have bytes: "row_bytes null' ?r = ?bs" for null' by (simp add: example_row_def)
  let ?m2 = "overlay (page + 1) ?bs ?m1"
  have ser: "serialize_row (m_null_byte ?ms) ?r (page + 1) ?m1 = Inr ?m2"
    using serialize_row_store [of "page + 1" "m_null_byte ?ms" ?r ?m1] len len1 by (simp add: bytes)
  have len2: "length ?m2 = length m" using len len1 by (simp add: length_overlay)
  have "region (page + 9) 1 ?m2 = region 8 1 (region (page + 1) 24 ?m2)"
    by (simp add: region_region add.commute)
  also have "region (page + 1) 24 ?m2 = ?bs" using len len1 by (simp add: region_overlay_same)
  also have "region 8 1 ?bs = [0]" by (simp add: region_def u64_bytes_def upt_rec)
  finally have status: "region (9 + page) 1 ?m2 = [0]" by (simp add: add.commute)
  have "\<exists>r. deserialize_row example_schema (page + 1) ?m2 = Inr r"
    using len len2 status by (simp add: example_schema_def deserialize_bool_def deserialize_u64_def definedE_def)
  then obtain r where r: "deserialize_row (m_schema ?ms) (page + 1) ?m2 = Inr r"
    by (auto simp: example_marshal_def make_marshal_def)
  then have "row_fits example_schema r"
    using deserialize_row_fits by (fastforce simp: example_marshal_def make_marshal_def)
  then have "r \<noteq> ?r" using example_misfit by blast
  then show ?thesis
    using free ser r len by (simp add: page_insert_row_def data_by_index_def example_space)
qed

text \<open>So the first insertion stops at the assertion.\<close>

lemma insert_attempt_fits:
  assumes "insert_attempt row t s = Some (Inr (o1, t1, s1))"
  shows "t_marshal t1 = t_marshal t" and "o1 \<noteq> None \<Longrightarrow> row_fits (m_schema (t_marshal t)) row"
proof -
  obtain ta sa tp sb ok i sc where
      ta: "(if current_page_index t = table_page_count t s
          then bindE (alloc_page (t_file t) (snd s)) (\<lambda>(i, w). Inr (t\<lparr>current_page_index := i\<rparr>, (fst s, w)))
          else Inr (t, s)) = Inr (ta, sa)"
      and tp: "get_table_page ta (current_page_index ta) sa = Some (Inr (tp, sb))"
      and ins: "tp_insert_row tp row sb = Inr ((ok, i), sc)"
      and res: "t1 = ta" "o1 = (if ok then Some \<lparr>page_index = current_page_index ta, row_index = i\<rparr> else None)"
    using assms by (fastforce simp: insert_attempt_def result_simps split: prod.splits)
  have ms: "t_marshal ta = t_marshal t" using ta by (auto simp: result_simps split: if_splits)
  then show "t_marshal t1 = t_marshal t" by (simp add: res)
  have "tp_marshal tp = t_marshal t"
    using tp ms by (auto simp: get_table_page_def transform_def result_simps)
  moreover assume "o1 \<noteq> None"
  then have "ok" by (simp add: res split: if_splits)
  ultimately obtain m' where
    "page_insert_row (t_marshal t) (pp_data_frame (tp_page tp)) row (fp_data (fst sb)) = Inr ((True, i), m')"
    using ins by (auto simp: tp_insert_row_def result_simps)
  then show "row_fits (m_schema (t_marshal t)) row" using page_insert_row_misfit by blast
qed

lemma insert_row_fits:
  assumes "insert_row row t s = Some (Inr (rid, t1, s1))"
  shows "row_fits (m_schema (t_marshal t)) row"
proof -
  let ?P = "\<lambda>row (t :: table) (s :: pool_state) (r :: (row_id \<times> table \<times> pool_state) result).
    case r of Inl _ \<Rightarrow> True | Inr _ \<Rightarrow> row_fits (m_schema (t_marshal t)) row"
  have "?P row t s (Inr (rid, t1, s1))"
  proof (rule insert_row.raw_induct [OF _ assms, where P = ?P])
    fix walk row t s r
    assume ih: "\<And>row t s r. walk row t s = Some r \<Longrightarrow> ?P row t s r"
      and eq: "(case insert_attempt row t s of None \<Rightarrow> None | Some (Inl e) \<Rightarrow> Some (Inl e)
        | Some (Inr (None, t1, s1)) \<Rightarrow> walk row (t1\<lparr>current_page_index := current_page_index t1 + 1\<rparr>) s1
        | Some (Inr (Some rid, t1, s1)) \<Rightarrow> Some (Inr (rid, t1, s1))) = Some r"
    show "?P row t s r"
    proof (cases r)
      case (Inr x)
      from eq Inr obtain o1 t1 s1 where at: "insert_attempt row t s = Some (Inr (o1, t1, s1))"
        by (auto split: option.splits sum.splits)
      note kept = insert_attempt_fits [OF at]
      have "row_fits (m_schema (t_marshal t)) row"
      proof (cases o1)
        case None
        let ?t = "t1\<lparr>current_page_index := current_page_index t1 + 1\<rparr>"
        from None eq at Inr have "walk row ?t s1 = Some (Inr x)" by simp
        from ih [OF this] have "row_fits (m_schema (t_marshal ?t)) row" by simp
        then show ?thesis using kept(1) by simp
      qed (use kept(2) in simp)
      with Inr show ?thesis by simp
    qed simp
  qed
  then show ?thesis by simp
qed

lemma example_first_insert:
  assumes files: "pool_inv s" and t: "t = make_table f (example_marshal null)"
    and size: "w_file_size (snd s) f = 0" and opened: "w_open (snd s) f \<noteq> None"
    and none: "\<And>i. pool_view s (f, i) = None" and room: "PageSize \<le> w_space (snd s)"
    and spare: "j < frames_of s" "pins s j = 0" "\<forall>k. pins s k \<noteq> -1"
  shows "insert_row (example_row 0) t s = Some (Inl (AssertionFailed ''actual_row == row''))"
proof -
  obtain ino where ino: "w_open (snd s) f = Some ino" using opened by blast
  have "w_file_size (snd s) f = 0 * PageSize" "(0 + 1) * PageSize < 2 ^ 63" using size by (simp_all add: PageSize_def)
  from alloc_page_works [OF pool_invD(1) [OF files] ino this(1) room this(2)]
  obtain w where w: "alloc_page f (snd s) = Inr (0, w)" "files_ok w"
      "disk_page w = (disk_page (snd s))((f, 0) \<mapsto> replicate PageSize 0)"
    by blast
  have "disk_page (snd s) (f, 0) = None" using none pool_view_disk [OF files] by blast
  note g = pool_grows [OF files w(2) this w(3)]
  have bs: "pool_view (fst s, w) (f, 0) = Some (replicate PageSize 0)" by (simp add: g(2))
  from bp.write_session [OF g(1) bs] spare g(3,4)
  obtain n s1 where get: "get_page f 0 (fst s, w) = Some (Inr (\<lparr>pp_frame_index = n, pp_data_frame = n * PageSize\<rparr>, s1))"
      and fb: "frame_bytes (fp_data (fst s1)) n = replicate PageSize 0" and n: "n < frames_of s"
      and len: "length (fp_data (fst s1)) = frames_of s * PageSize"
    by metis
  note fits = frame_fits [OF len n]
  have "fp_data (fst s1) ! (n * PageSize) = frame_bytes (fp_data (fst s1)) n ! 0"
    using fits PageSize_pos by (simp add: frame_bytes_def nth_region del: PageSize_pos)
  then have "fp_data (fst s1) ! (n * PageSize) = 0" using fb PageSize_pos by simp
  note page = example_page_insert [OF fits this, of null]
  have "table_page_count t s = 0" using size by (simp add: t make_table_def table_page_count_def get_page_count_def)
  then have "insert_attempt (example_row 0) t s = Some (Inl (AssertionFailed ''actual_row == row''))"
    using w(1) get page
    by (simp add: insert_attempt_def get_table_page_def t make_table_def transform_def tp_insert_row_def)
  then show ?thesis by (simp add: insert_row.simps)
qed

section \<open>Properties\<close>

text \<open>C22. \<open>example/main.cpp\<close> never ends normally, whatever the working directory holds: the second value of
  its rows is a number where the schema has a boolean. In a directory without \<open>test_db\<close> and with
  room for a page it stops at its first insertion, at the assertion that compares the row written
  with the row read back.\<close>

theorem example_main_aborts:
  "(\<forall>y. example_main order null mem w \<noteq> Some (Inr y)) \<and>
   (files_ok w \<and> w_dir w ''test_db'' = None \<and> PageSize \<le> w_space w \<and> length mem = 5 * PageSize \<longrightarrow>
      example_main order null mem w = Some (Inl (AssertionFailed ''actual_row == row'')))"
proof (intro conjI allI impI)
  fix y
  show "example_main order null mem w \<noteq> Some (Inr y)"
  proof
    assume "example_main order null mem w = Some (Inr y)"
    then obtain t s x where t: "connect_table [] ''test_db'' null example_schema (make_store mem 5 w) = Inr (t, s)"
        and x: "example_inserts [0..<3] [] t s = Some (Inr x)"
      by (auto simp: example_main_def Let_def result_simps)
    have "m_schema (t_marshal t) = example_schema"
      using t by (auto simp: connect_table_def Let_def make_table_def make_fixed_page_provider_def make_marshal_def result_simps)
    moreover obtain z where "insert_row (example_row 0) t s = Some (Inr z)"
      using x by (auto simp: upt_rec result_simps)
    ultimately show False using insert_row_fits [of "example_row 0" t s] example_misfit [of 0] by (cases z) auto
  qed
next
  assume a: "files_ok w \<and> w_dir w ''test_db'' = None \<and> PageSize \<le> w_space w \<and> length mem = 5 * PageSize"
  let ?s = "make_store mem 5 w" and ?fd = "w_next_fd w"
  have s: "pool_inv ?s" "pins ?s = (\<lambda>_. 0)" "frames_of ?s = 5"
    using a make_frame_pool_inv [of w mem 5] by (simp_all add: make_store_def)
  have new: "w_dir (snd ?s) (path_append [] ''test_db'') = None" "snd ?s = w"
    using a by (simp_all add: make_store_def path_append_def)
  obtain v where v: "connect_table [] ''test_db'' null example_schema ?s =
        Inr (make_table ?fd (make_marshal null example_schema), (fst ?s, v))"
      "pool_inv (fst ?s, v)" "pool_view (fst ?s, v) = pool_view ?s" "\<And>i. pool_view ?s (?fd, i) = None"
      "w_open v ?fd \<noteq> None" "w_file_size v ?fd = 0" "w_space v = w_space w"
    using connect_new [OF s(1) new(1)] unfolding new(2) by metis
  have "pins (fst ?s, v) = (\<lambda>_. 0)" "frames_of (fst ?s, v) = 5"
    using s(2,3) by (auto simp: pins_def refs_def frames_of_def fun_eq_iff split: if_splits)
  then have "insert_row (example_row 0) (make_table ?fd (example_marshal null)) (fst ?s, v) =
      Some (Inl (AssertionFailed ''actual_row == row''))"
    using v a by (intro example_first_insert [of _ _ _ _ 0]) simp_all
  then show "example_main order null mem w = Some (Inl (AssertionFailed ''actual_row == row''))"
    using v(1) by (simp add: example_main_def Let_def upt_rec example_marshal_def)
qed

theorem example_main_aborts_witness:
  "example_main (\<lambda>es. es) 0 (replicate (5 * PageSize) 0) (full_world\<lparr>w_space := PageSize\<rparr>) =
    Some (Inl (AssertionFailed ''actual_row == row''))"
proof -
  have "files_ok (full_world\<lparr>w_space := PageSize\<rparr>)"
    using full_world_ok by (simp add: files_ok_def world_ok_def unaliased_def)
  moreover have "w_dir (full_world\<lparr>w_space := PageSize\<rparr>) ''test_db'' = None" by (simp add: full_world_def)
  moreover have "length (replicate (5 * PageSize) 0) = 5 * PageSize" by (rule length_replicate)
  moreover have "PageSize \<le> w_space (full_world\<lparr>w_space := PageSize\<rparr>)" by simp
  ultimately show ?thesis using example_main_aborts by blast
qed

end
