(* ===== verification/Reconnect.thy ===== *)
theory Reconnect
  imports Store
begin

text \<open>
  Two connections of \<open>src/store/store.cpp\<close> to one table: each opens the file for itself, and the pool
  (\<open>src/buffer_pool/frame_pool.cpp\<close>) knows pages by descriptor. What the second connection reads is
  the file, not the pages the pool holds for the first.
\<close>

section \<open>A file opened once more\<close>

definition opened :: "int \<Rightarrow> nat \<Rightarrow> nat \<Rightarrow> world \<Rightarrow> world" where
  "opened fd ino n w = w\<lparr>w_open := (w_open w)(fd \<mapsto> ino), w_next_fd := fd + 1, w_file_size := (w_file_size w)(fd := n)\<rparr>"

lemma file_write_opened:
  assumes "g \<noteq> fd"
  shows "file_write g i bs (opened fd ino n w) = bindE (file_write g i bs w) (\<lambda>w'. Inr (opened fd ino n w'))"
  using assms
  by (auto simp: file_write_def sys_pwrite_def sys_store_def opened_def Let_def assertE_def split: option.splits)

lemma dump_frame_opened:
  assumes "f_owner (fp_frames p ! i) \<noteq> Some fd" and "dump_frame i (p, w) = Inr (p, w')"
  shows "dump_frame i (p, opened fd ino n w) = Inr (p, opened fd ino n w')"
proof (cases "f_owner (fp_frames p ! i)")
  case (Some g)
  then have "g \<noteq> fd" using assms(1) by simp
  with Some assms(2) show ?thesis by (auto simp: dump_frame_def dump_data_def file_write_opened result_simps)
qed (use assms(2) in \<open>auto simp: dump_frame_def dump_data_def result_simps\<close>)

lemma file_read_opened:
  "w_open w f = Some ino \<Longrightarrow> file_read fd i (opened fd ino n w) = file_read f i w"
  by (simp add: file_read_def sys_pread_def opened_def)

lemma connect_opened:
  assumes "world_ok (snd s)" and "w_dir (snd s) (path_append dir name) = Some ino"
  shows "connect_table dir name null cs s = Inr (make_table (w_next_fd (snd s)) (make_marshal null cs),
    (fst s, opened (w_next_fd (snd s)) ino (length (w_bytes (snd s) ino)) (snd s)))"
  using open_file_works [OF assms] assms(2)
  by (simp add: connect_table_def Let_def sys_exists_def make_fixed_page_provider_def opened_def)

section \<open>Reading through the second connection\<close>

text \<open>A row read from the frame its page was given.\<close>

definition row_read :: "row option \<Rightarrow> row" where
  "row_read r = (case r of None \<Rightarrow> [] | Some row \<Rightarrow> row)"

lemma get_row_in_frame:
  assumes loc: "locate_frame (t_file t) (page_index rid) s = Some (Inr (i, s1))"
    and i: "i < length (fp_frames (fst s1))" "i < capacity (fp_cache (fst s1))"
    and fr: "f_data (fp_frames (fst s1) ! i) = i * PageSize" "f_ref_count (fp_frames (fst s1) ! i) = 0"
    and data: "i * PageSize + PageSize \<le> length (fp_data (fst s1))" "frame_bytes (fp_data (fst s1)) i = bs"
    and ms: "marshal_ok (t_marshal t)" "page_ok (t_marshal t) bs" "row_index rid < slots_of (t_marshal t)"
  shows "\<exists>s'. get_row rid t s = Some (Inr (row_read (slot (t_marshal t) bs (row_index rid)), s'))"
proof -
  obtain s2 where pin: "pin_frame i s1 = Inr ((i, i * PageSize), s2)" "fp_data (fst s2) = fp_data (fst s1)"
      "length (fp_frames (fst s2)) = length (fp_frames (fst s1))" "capacity (fp_cache (fst s2)) = capacity (fp_cache (fst s1))"
    using i fr by (simp add: pin_frame_def Let_def cc_lock_def)
  have "\<exists>s3. drop_page \<lparr>pp_frame_index = i, pp_data_frame = i * PageSize\<rparr> s2 = Inr s3"
    using pin(3,4) i by (simp add: drop_page_def release_frame_def Let_def cc_unlock_def)
  moreover have "page_get_row (t_marshal t) (i * PageSize) (row_index rid) (fp_data (fst s1)) =
      Inr (row_read (slot (t_marshal t) bs (row_index rid)))"
    using page_get_row_ok [OF ms(1) data(1) ms(3)] ms(2) data(2) by (simp add: page_at_def frame_bytes_def row_read_def)
  ultimately show ?thesis
    using loc pin(1,2) by (auto simp: get_row_def get_table_page_def get_page_def acquire_frame_def transform_def tp_get_row_def)
qed

text \<open>The page of a descriptor just opened is not in the pool: it takes a frame, whose page is
  written back first.\<close>

lemma locate_opened:
  assumes inv: "pool_inv s" and fd: "fd = w_next_fd (snd s)" and f: "w_open (snd s) f = Some ino"
    and victim: "cc_put (fd, i) (fp_cache (fst s)) = Some (Inr (j, c))" and free: "k < frames_of s" "pins s k = 0"
    and bs: "disk_page (snd s) (f, i) = Some bs" and now: "now = (if cached_at s (f, i) = Some j then frame_bytes (fp_data (fst s)) j else bs)"
  shows "j < frames_of s \<and> (\<exists>w. locate_frame fd i (fst s, opened fd ino n (snd s)) =
    Some (Inr (j, (frame_load fd i j now (fst s\<lparr>fp_cache := c\<rparr>), w)))) \<and> capacity c = frames_of s \<and> length now = PageSize"
proof -
  note d = pool_invD [OF inv]
  let ?p = "fst s\<lparr>fp_cache := c\<rparr>"
  have fresh: "w_open (snd s) fd = None" and pos: "0 < fd"
    using d(1) fd unfolding files_ok_def world_ok_def by (cases "w_open (snd s) fd"; fastforce)+
  then have new: "cached_at s (fd, i') = None" for i'
    using d(8) [of "(fd, i')"] by (cases "cached_at s (fd, i')") (simp_all add: disk_page_def)
  have "\<not> cc_locked (fp_cache (fst s)) k" "k < capacity (fp_cache (fst s))"
    using d(6) free by (auto simp: pins_def frames_of_def)
  with cc.put_new [OF d(2) _ _ this(2,1), of "(fd, i)"] new victim pos
  have j: "j < frames_of s" and cap: "capacity c = frames_of s"
    unfolding cached_at_def frames_of_def by auto
  obtain w where w: "dump_frame j (?p, snd s) = Inr (?p, w)" "files_ok w" "same_files (snd s) w"
      "disk_page w = (\<lambda>b. if cached_at s b = Some j then Some (frame_bytes (fp_data (fst s)) j) else disk_page (snd s) b)"
    using dump_frame_works [OF inv j, of ?p] by auto
  have "f_owner (fp_frames ?p ! j) \<noteq> Some fd" using d(7) [of "(fd, _)" j] j new by auto
  then have dump: "dump_frame j (?p, opened fd ino n (snd s)) = Inr (?p, opened fd ino n w)"
    using w(1) by (rule dump_frame_opened)
  have page: "disk_page w (f, i) = Some now" using w(4) bs now by simp
  have "file_read f i w = Inr now" using file_read_page [OF _ page] w(2) by (simp add: files_ok_def)
  moreover have "w_open w f = Some ino" using w(3) f by (simp add: same_files_def)
  ultimately have read: "file_read fd i (opened fd ino n w) = Inr now" by (simp add: file_read_opened)
  have len: "length now = PageSize" using disk_page_length [OF page] .
  have "read_frame fd j i (?p, opened fd ino n w) = Inr (frame_load fd i j now ?p, opened fd ino n w)"
    using j d(3,5) frame_fits [OF d(4) j] by (intro read_frame_loads [OF _ _ _ read len]) simp_all
  then have "locate_frame fd i (fst s, opened fd ino n (snd s)) = Some (Inr (j, (frame_load fd i j now ?p, opened fd ino n w)))"
    using new [of i] victim dump by (simp add: locate_frame_def Let_def cc_get_def cached_at_def)
  with j cap len show ?thesis by blast
qed

section \<open>Properties\<close>

text \<open>C38. A second connection to a table reads the file, not the pool. With the first connection's pages
  still in the pool, connecting the name again opens a descriptor of its own; reading a row through it
  returns what the page's bytes on disk hold, while the first connection returns what the pool holds of
  the page, so a row that was not written back is missed. The one exception is a read for which the
  pool gives up the very frame that holds the page: the page is then written back before it is read.\<close>

theorem reconnect_misses_rows:
  assumes inv: "table_inv t s" and spare: "spare_frame s"
    and dir: "w_dir (snd s) (path_append dir name) = w_open (snd s) (t_file t)"
    and bs: "disk_page (snd s) (t_file t, page_index rid) = Some bs" "page_ok (t_marshal t) bs"
    and rid: "row_index rid < slots_of (t_marshal t)"
    and victim: "cc_put (w_next_fd (snd s), page_index rid) (fp_cache (fst s)) = Some (Inr (j, c))"
  shows "\<exists>t' s' x y. connect_table dir name null (m_schema (t_marshal t)) s = Inr (t', s') \<and> t_file t' \<noteq> t_file t \<and>
    get_row rid t s = Some (Inr (row_read (table_rows t s rid), x)) \<and>
    get_row rid t' s' = Some (Inr (row_read
      (if cached_at s (t_file t, page_index rid) = Some j then table_rows t s rid
       else slot (t_marshal t) bs (row_index rid)), y))"
proof -
  note d = table_invD [OF inv]
  let ?fd = "w_next_fd (snd s)" and ?b = "(t_file t, page_index rid)" and ?cs = "m_schema (t_marshal t)"
  obtain ino where f: "w_open (snd s) (t_file t) = Some ino" using d(3) by blast
  let ?t = "make_table ?fd (make_marshal null ?cs)" and ?w = "opened ?fd ino (length (w_bytes (snd s) ino)) (snd s)"
  have world: "world_ok (snd s)" using pool_invD(1) [OF d(1)] by (simp add: files_ok_def)
  then have "t_file t < ?fd" using f unfolding world_ok_def by blast
  moreover have conn: "connect_table dir name null ?cs s = Inr (?t, (fst s, ?w))" using connect_opened [OF world] dir f by simp
  have "page_index rid < table_page_count t s"
    using bs(1) pool_view_disk [OF d(1), of ?b] table_pages [OF inv] by simp
  from get_row_works [OF inv spare this rid] obtain x where
      x: "get_row rid t s = Some (Inr (row_read (table_rows t s rid), x))"
    by (auto simp: row_read_def)
  obtain k where k: "k < frames_of s" "pins s k = 0" using spare by (auto simp: spare_frame_def)
  define now where "now = (if cached_at s ?b = Some j then frame_bytes (fp_data (fst s)) j else bs)"
  from locate_opened [OF d(1) refl f victim k bs(1) now_def] obtain w where j: "j < frames_of s"
      and loc: "locate_frame ?fd (page_index rid) (fst s, ?w) = Some (Inr (j, (frame_load ?fd (page_index rid) j now (fst s\<lparr>fp_cache := c\<rparr>), w)))"
      and cap: "capacity c = frames_of s" and len: "length now = PageSize"
    by blast
  note p = pool_invD [OF d(1)]
  have view: "pool_view s ?b = Some now" if "cached_at s ?b = Some j" using that by (simp add: pool_view_def now_def)
  then have now: "page_ok (t_marshal t) now" using d(6) bs(2) by (cases "cached_at s ?b = Some j") (auto simp: now_def)
  have rows: "slot (t_marshal t) now (row_index rid) = (if cached_at s ?b = Some j then table_rows t s rid
      else slot (t_marshal t) bs (row_index rid))"
    using view rid by (cases "cached_at s ?b = Some j") (simp_all add: table_rows_def, simp add: now_def)
  have same: "slots_of (t_marshal ?t) = slots_of (t_marshal t)" "page_ok (t_marshal ?t) = page_ok (t_marshal t)"
      "slot (t_marshal ?t) = slot (t_marshal t)" "marshal_ok (t_marshal ?t)"
    using d(2) marshal_ok_make [of ?cs null]
    by (simp_all add: make_table_def make_marshal_def slots_of_def slot_size_def page_ok_def slot_def fun_eq_iff marshal_ok_def)
  have "\<exists>y. get_row rid ?t (fst s, ?w) = Some (Inr (row_read (slot (t_marshal ?t) now (row_index rid)), y))"
  proof (rule get_row_in_frame)
    show "locate_frame (t_file ?t) (page_index rid) (fst s, ?w) =
        Some (Inr (j, (frame_load ?fd (page_index rid) j now (fst s\<lparr>fp_cache := c\<rparr>), w)))"
      using loc by (simp add: make_table_def)
  qed (use j cap len p(3-5) now rid same frame_fits [OF p(4) j] in
      \<open>simp_all add: frame_load_def length_overlay frame_bytes_overlay [OF p(4) j j len]\<close>)
  then obtain y where "get_row rid ?t (fst s, ?w) = Some (Inr (row_read (slot (t_marshal ?t) now (row_index rid)), y))" by blast
  then have "get_row rid ?t (fst s, ?w) = Some (Inr (row_read (if cached_at s ?b = Some j then table_rows t s rid
      else slot (t_marshal t) bs (row_index rid)), y))"
    unfolding same(3) rows .
  moreover have "t_file ?t \<noteq> t_file t" using \<open>t_file t < ?fd\<close> by (simp add: make_table_def)
  ultimately show ?thesis using conn x by blast
qed

text \<open>Two frames over the file \<open>t\<close>, and the pool once the first row has been inserted: the page is in
  frame 0 and has not been written back.\<close>

definition two_pool :: pool_state where
  "two_pool = make_store (replicate (2 * PageSize) 5) 2 full_world"

definition cache_after :: "page_id clock_cache" where
  "cache_after = \<lparr>buffer_table_layer = [(3, 0) \<mapsto> 0],
     buffer_descriptors_layer = [\<lparr>tag = (3, 0), usage = 1, lock = False\<rparr>, \<lparr>tag = (0, 0), usage = 0, lock = False\<rparr>],
     capacity = 2, cursor = 1\<rparr>"

definition dirty_pool :: "memory \<Rightarrow> frame_pool" where
  "dirty_pool m = \<lparr>fp_data = m,
     fp_frames = [\<lparr>f_data = 0, f_owner = Some 3, f_page_index = 0, f_ref_count = 0\<rparr>,
       \<lparr>f_data = PageSize, f_owner = None, f_page_index = 0, f_ref_count = 0\<rparr>],
     fp_cache = cache_after\<rparr>"

definition held_pool :: "memory \<Rightarrow> frame_pool" where
  "held_pool m = (dirty_pool m)
     \<lparr>fp_frames := [\<lparr>f_data = 0, f_owner = Some 3, f_page_index = 0, f_ref_count = 1\<rparr>,
        \<lparr>f_data = PageSize, f_owner = None, f_page_index = 0, f_ref_count = 0\<rparr>],
      fp_cache := cache_after\<lparr>buffer_descriptors_layer :=
        [\<lparr>tag = (3, 0), usage = 1, lock = True\<rparr>, \<lparr>tag = (0, 0), usage = 0, lock = False\<rparr>]\<rparr>\<rparr>"

lemma cache_after_init: "cc_put (3, 0) (cc_init (0, 0) 2) = Some (Inr (0, cache_after))"
  by (simp add: cc_put_def cc_init_def cc_sweep.simps Let_def numeral_2_eq_2 cc_increase_def cache_after_def)

lemma cache_after_other: "\<exists>c. cc_put (4, 0) cache_after = Some (Inr (1, c))"
  by (simp add: cc_put_def cc_sweep.simps Let_def cc_increase_def cache_after_def)

lemma full_world_read: "file_read 3 0 full_world = Inr (replicate PageSize 0)"
  using file_read_page [OF _ full_world_page] full_world_ok by (simp add: files_ok_def)

lemma get_page_two_pool:
  "get_page 3 0 two_pool = Some (Inr (\<lparr>pp_frame_index = 0, pp_data_frame = 0\<rparr>,
    held_pool (overlay 0 (replicate PageSize 0) (replicate (2 * PageSize) 5)), full_world))"
proof -
  have upt: "[0..<2] = [0, Suc 0]" by (simp add: upt_rec)
  have fresh: "buffer_table_layer (cc_init (0, 0) 2) (3, 0) = None" by (simp add: cc_init_def)
  have lock: "cc_lock 0 cache_after = Inr (cache_after\<lparr>buffer_descriptors_layer :=
      [\<lparr>tag = (3, 0), usage = 1, lock = True\<rparr>, \<lparr>tag = (0, 0), usage = 0, lock = False\<rparr>]\<rparr>)"
    by (simp add: cc_lock_def cache_after_def)
  show ?thesis
    by (simp add: get_page_def acquire_frame_def locate_frame_def two_pool_def make_store_def
        make_frame_pool_def Let_def cc_get_def fresh cache_after_init upt dump_frame_def dump_data_def
        read_frame_def upload_data_def full_world_read pin_frame_def lock held_pool_def dirty_pool_def
        PageSize_def)
qed

lemma two_pool_table: "table_inv (make_table 3 id_marshal) two_pool" "spare_frame two_pool"
    "pool_view two_pool (3, 0) = Some (replicate PageSize 0)" "table_page_count (make_table 3 id_marshal) two_pool = 1"
proof -
  have m: "length (replicate (2 * PageSize) (5::byte)) = 2 * PageSize" by simp
  note p = make_frame_pool_inv [OF full_world_ok m, folded make_buffer_pool_def, folded make_store_def, folded two_pool_def]
  have page: "page_ok id_marshal bs" if "disk_page full_world (3, i) = Some bs" for i bs
    using full_world_pages [OF that] zero_page_ok(1) [OF id_marshal_ok(1)] by simp
  have world: "snd two_pool = full_world" by (simp add: two_pool_def make_store_def)
  have sizes: "w_open full_world 3 = Some 0" "w_file_size full_world 3 = PageSize"
    by (simp_all add: full_world_def)
  show count: "table_page_count (make_table 3 id_marshal) two_pool = 1"
    using full_world_count(2) by (simp add: table_page_count_def make_table_def world)
  show "table_inv (make_table 3 id_marshal) two_pool"
    using p(1,2) page sizes count id_marshal_ok(1) by (simp add: table_inv_def) (simp add: make_table_def world)
  show "spare_frame two_pool"
    using p(3,4) by (auto simp: spare_frame_def intro: exI [of _ 0])
  show "pool_view two_pool (3, 0) = Some (replicate PageSize 0)" using p(2) full_world_page by simp
qed

lemma drop_first_page:
  "drop_page \<lparr>pp_frame_index = 0, pp_data_frame = 0\<rparr> (held_pool m, w) =
    Inr (dirty_pool m, w)"
  by (simp add: drop_page_def release_frame_def Let_def cc_unlock_def cache_after_def held_pool_def
      dirty_pool_def)

lemma insert_two_pool:
  obtains m where "insert_row [U64 7] (make_table 3 id_marshal) two_pool =
      Some (Inr (\<lparr>page_index = 0, row_index = 0\<rparr>, make_table 3 id_marshal, (dirty_pool m, full_world)))"
    and "length m = 2 * PageSize"
    and "table_inv (make_table 3 id_marshal) (dirty_pool m, full_world)" and "spare_frame (dirty_pool m, full_world)"
    and "table_rows (make_table 3 id_marshal) (dirty_pool m, full_world) \<lparr>page_index = 0, row_index = 0\<rparr> =
      Some [U64 7]"
proof -
  let ?t = "make_table 3 id_marshal" and ?z = "replicate PageSize (0::byte)"
  let ?rid = "\<lparr>page_index = 0, row_index = 0\<rparr>"
  let ?m = "overlay 0 ?z (replicate (2 * PageSize) 5)"
  have t: "t_marshal ?t = id_marshal" "t_file ?t = 3" "current_page_index ?t = 0"
    by (simp_all add: make_table_def)
  have fits: "row_fits (m_schema (t_marshal ?t)) [U64 7]" using id_marshal_ok(3) t by simp
  have rid: "inserted_id 0 (page_rows id_marshal ?z) = Some ?rid"
    unfolding inserted_id_def zero_page_ok(3) [OF id_marshal_ok(1,2)] by simp
  have view: "pool_view two_pool (t_file ?t, current_page_index ?t) = Some ?z"
    using two_pool_table(3) t by simp
  have "current_page_index ?t < table_page_count ?t two_pool" using two_pool_table(4) t by simp
  from insert_row_here [OF two_pool_table(1,2) fits this view, unfolded t rid, OF refl] obtain s1 where
      s1: "insert_row [U64 7] ?t two_pool = Some (Inr (?rid, ?t, s1))" "row_stored [U64 7] ?t two_pool ?rid ?t s1"
    by blast
  have len: "length ?m = 2 * PageSize" by (simp add: length_overlay)
  have data: "fp_data (fst (held_pool ?m, full_world)) = ?m" by (simp add: held_pool_def dirty_pool_def)
  have "frame_bytes (fp_data (fst (held_pool ?m, full_world))) 0 = ?z"
    unfolding data by (simp add: frame_bytes_def region_overlay_same)
  moreover have "length (fp_data (fst (held_pool ?m, full_world))) = 2 * PageSize" unfolding data by (rule len)
  ultimately obtain ok i m where m:
      "tp_insert_row (transform id_marshal \<lparr>pp_frame_index = 0, pp_data_frame = 0 * PageSize\<rparr>) [U64 7]
        (held_pool ?m, full_world) = Inr ((ok, i), set_mem m (held_pool ?m, full_world))"
      "(if ok then Some i else None) = first_empty (page_rows id_marshal ?z)"
      "length m = length (fp_data (fst (held_pool ?m, full_world)))"
      "frame_bytes m 0 = page_after id_marshal [U64 7] ?z"
      "\<forall>j < 2. j \<noteq> 0 \<longrightarrow> frame_bytes m j = frame_bytes (fp_data (fst (held_pool ?m, full_world))) j"
    using tp_insert_row_ok [OF id_marshal_ok(1) zero_page_ok(1) [OF id_marshal_ok(1)] id_marshal_ok(3),
        of "(held_pool ?m, full_world)" 0 2] by auto
  have "insert_attempt [U64 7] ?t two_pool = Some (Inr (if ok then Some \<lparr>page_index = 0, row_index = i\<rparr> else None,
      ?t, (dirty_pool m, full_world)))"
    using two_pool_table(4) t get_page_two_pool m(1) drop_first_page [of m full_world]
    by (simp add: insert_attempt_def get_table_page_def transform_def set_mem_def held_pool_def
        dirty_pool_def)
  then have "s1 = (dirty_pool m, full_world)" using s1(1) m(2) rid
    by (simp add: insert_row.simps inserted_id_def split: if_splits)
  with s1 m(3) len data show ?thesis by (intro that [of m]) (simp_all add: row_stored_def)
qed

theorem reconnect_misses_rows_witness:
  "\<exists>rid t s t' s' x y.
    insert_row [U64 7] (make_table 3 id_marshal) two_pool = Some (Inr (rid, t, s)) \<and>
    get_row rid t s = Some (Inr ([U64 7], x)) \<and>
    connect_table [] ''t'' 0 (m_schema id_marshal) s = Inr (t', s') \<and>
    get_row rid t' s' = Some (Inr ([], y))"
proof -
  let ?t = "make_table 3 id_marshal" and ?rid = "\<lparr>page_index = 0, row_index = 0\<rparr>"
  obtain m where m: "insert_row [U64 7] ?t two_pool = Some (Inr (?rid, ?t, (dirty_pool m, full_world)))"
      "length m = 2 * PageSize" "table_inv ?t (dirty_pool m, full_world)" "spare_frame (dirty_pool m, full_world)"
      "table_rows ?t (dirty_pool m, full_world) ?rid = Some [U64 7]"
    using insert_two_pool by blast
  obtain c where c: "cc_put (4, 0) cache_after = Some (Inr (1, c))" using cache_after_other by blast
  have t: "t_marshal ?t = id_marshal" "t_file ?t = 3" by (simp_all add: make_table_def)
  have world: "w_next_fd full_world = 4" "w_dir full_world (path_append [] ''t'') = w_open full_world 3"
    by (simp_all add: full_world_def path_append_def)
  have empty: "slot id_marshal (replicate PageSize 0) 0 = None"
    using zero_page_ok(2) [OF id_marshal_ok(1)] id_marshal_ok(2)
    by (metis (no_types) add.left_neutral length_map length_upt diff_zero nth_map nth_replicate nth_upt page_rows_def)
  have kept: "cached_at (dirty_pool m, full_world) (3, 0) \<noteq> Some 1" by (simp add: cached_at_def dirty_pool_def cache_after_def)
  from reconnect_misses_rows [OF m(3,4), of "[]" "''t''" ?rid "replicate PageSize 0" 1 c 0] world c t
  have "\<exists>t' s' x y. connect_table [] ''t'' 0 (m_schema id_marshal) (dirty_pool m, full_world) = Inr (t', s') \<and>
      get_row ?rid ?t (dirty_pool m, full_world) = Some (Inr ([U64 7], x)) \<and> get_row ?rid t' s' = Some (Inr ([], y))"
    using zero_page_ok(1) [OF id_marshal_ok(1)] id_marshal_ok(2) full_world_page empty kept m(5)
    by (auto simp: row_read_def dirty_pool_def)
  with m(1) show ?thesis by blast
qed

end
