(* ===== verification/Random_Numbers.thy ===== *)
theory Random_Numbers
  imports Prelude
begin

text \<open>
  \<open>src/common/random/generator.cpp\<close>: numbers drawn from a range. The distribution of the standard
  library is a parameter, with the state of the engine; all that is relied on is that it stays
  in its range. The bounds are unsigned and are handed on as signed numbers, so the upper half
  of the range is not usable.
\<close>

definition generate :: "(int \<Rightarrow> int \<Rightarrow> 'g \<Rightarrow> int \<times> 'g) \<Rightarrow> u32 \<Rightarrow> u32 \<Rightarrow> 'g \<Rightarrow> (u32 \<times> 'g) result" where
  "generate distrib lo hi g =
     bindE (definedE (sint lo \<le> sint hi) ''uniform_int_distribution'') (\<lambda>_.
     let (res, g1) = distrib (sint lo) (sint hi) g in
     bindE (assertE (res \<ge> 0) ''res>=0'') (\<lambda>_. Inr (word_of_int res, g1)))"

definition in_range :: "(int \<Rightarrow> int \<Rightarrow> 'g \<Rightarrow> int \<times> 'g) \<Rightarrow> bool" where
  "in_range distrib \<longleftrightarrow> (\<forall>a b g. a \<le> b \<longrightarrow> a \<le> fst (distrib a b g) \<and> fst (distrib a b g) \<le> b)"

lemma sint_small: "(w :: u32) < 2 ^ 31 \<Longrightarrow> sint w = uint w"
  by (simp add: sint_uint word_less_def signed_take_bit_eq_if_positive take_bit_int_eq_self bit_iff_odd)

lemma sint_big:
  assumes "2 ^ 31 \<le> (w :: u32)"
  shows "sint w < 0"
proof -
  have "2 ^ 31 \<le> uint w" "uint w < 2 ^ 32" using assms uint_lt2p [of w] by (simp_all add: word_le_def)
  then have "uint w div 2 ^ 31 = 1" by (intro div_pos_geq [THEN trans]) (simp_all add: div_pos_pos_trivial)
  then show ?thesis by (simp add: sint_uint bit_iff_odd)
qed

text \<open>Below \<open>2 ^ 31\<close> a number of the range is returned, whatever the distribution.\<close>

lemma generate_in_range:
  assumes "in_range distrib" and "lo \<le> hi" and "hi < 2 ^ 31"
  shows "\<exists>r g1. generate distrib lo hi g = Inr (r, g1) \<and> lo \<le> r \<and> r \<le> hi"
proof -
  have "lo < 2 ^ 31" using assms(2,3) by (rule order_le_less_trans)
  then have s: "sint lo = uint lo" "sint hi = uint hi" using assms(3) sint_small by blast+
  obtain r g1 where d: "distrib (uint lo) (uint hi) g = (r, g1)" by (metis surj_pair)
  have le: "uint lo \<le> uint hi" using assms(2) by (simp add: word_le_def)
  then have r: "uint lo \<le> r" "r \<le> uint hi" using assms(1) d unfolding in_range_def by (metis fst_conv)+
  then have "0 \<le> r" "r < 2 ^ 32" using uint_lt2p [of hi] uint_ge_0 [of lo] by (linarith, simp)
  then have "uint (word_of_int r :: u32) = r" by (simp add: uint_word_of_int_eq take_bit_int_eq_self)
  with r have "lo \<le> word_of_int r" "word_of_int r \<le> hi" by (simp_all add: word_le_def)
  with le \<open>0 \<le> r\<close> show ?thesis by (simp add: generate_def s d)
qed

text \<open>Above it every call fails.\<close>

lemma generate_above_fails:
  assumes "in_range distrib" and "2 ^ 31 \<le> hi"
  shows "\<exists>e. generate distrib lo hi g = Inl e"
proof (cases "sint lo \<le> sint hi")
  case True
  obtain r g1 where d: "distrib (sint lo) (sint hi) g = (r, g1)" by (metis surj_pair)
  then have "r \<le> sint hi" using assms(1) True unfolding in_range_def by (metis fst_conv)
  with sint_big [OF assms(2)] have "\<not> 0 \<le> r" by linarith
  with True d show ?thesis by (simp add: generate_def assertE_def)
qed (simp add: generate_def)

end
