(* ===== verification/Message.thy ===== *)
theory Message
  imports Prelude
begin

text \<open>
  \<open>src/tx/types.h\<close>, \<open>src/tx/msg/\<close>, \<open>src/tx/generator/\<close> and \<open>src/tx/clock/\<close>: the vocabulary of the
  transaction system. Actor identifiers, transaction identifiers, keys, values and timestamps
  are 64-bit signed numbers in the code; they only grow by one at a time from small values, so
  they are integers here. Message identifiers are 32-bit and wrap around.

  The generator's counters are process-wide variables of the code and an explicit state here.
\<close>

section \<open>Numbers and clocks\<close>

definition UNDEFINED_TX_ID :: int where "UNDEFINED_TX_ID = -1"
definition UNDEFINED_ACTOR_ID :: int where "UNDEFINED_ACTOR_ID = -1"
definition UNDEFINED_TS :: int where "UNDEFINED_TS = -1"

type_synonym key_interval = "int \<times> int"

record clock =
  tm :: int

definition clock_init :: clock where
  "clock_init = \<lparr>tm = 0\<rparr>"

definition clock_current :: "clock \<Rightarrow> int" where
  "clock_current c = tm c"

definition clock_next :: "clock \<Rightarrow> int \<times> clock" where
  "clock_next c = (tm c + 1, c\<lparr>tm := tm c + 1\<rparr>)"

record generator =
  g_msg_id :: u32
  g_tx_id :: int

definition generator_init :: generator where
  "generator_init = \<lparr>g_msg_id = 0, g_tx_id = 1000\<rparr>"

definition get_next_msg_id :: "generator \<Rightarrow> u32 \<times> generator" where
  "get_next_msg_id g = (g_msg_id g + 1, g\<lparr>g_msg_id := g_msg_id g + 1\<rparr>)"

definition get_next_tx_id :: "generator \<Rightarrow> int \<times> generator" where
  "get_next_tx_id g = (g_tx_id g + 1, g\<lparr>g_tx_id := g_tx_id g + 1\<rparr>)"

definition get_current_tx_id :: "generator \<Rightarrow> int" where
  "get_current_tx_id g = g_tx_id g"

section \<open>Messages\<close>

datatype message_type =
    MSG_UNDEFINED
  | MSG_START
  | MSG_START_ACK
  | MSG_PUT
  | MSG_PUT_REPLY
  | MSG_COMMIT
  | MSG_COMMIT_ACK
  | MSG_ROLLED_BACK_BY_SERVER

text \<open>Enumerators compare by their position.\<close>

fun type_index :: "message_type \<Rightarrow> nat" where
  "type_index MSG_UNDEFINED = 0"
| "type_index MSG_START = 1"
| "type_index MSG_START_ACK = 2"
| "type_index MSG_PUT = 3"
| "type_index MSG_PUT_REPLY = 4"
| "type_index MSG_COMMIT = 5"
| "type_index MSG_COMMIT_ACK = 6"
| "type_index MSG_ROLLED_BACK_BY_SERVER = 7"

lemma type_index_inject: "type_index a = type_index b \<longleftrightarrow> a = b"
  by (cases a; cases b) simp_all

instantiation message_type :: linorder
begin

definition less_eq_message_type :: "message_type \<Rightarrow> message_type \<Rightarrow> bool" where
  "less_eq_message_type a b \<longleftrightarrow> type_index a \<le> type_index b"

definition less_message_type :: "message_type \<Rightarrow> message_type \<Rightarrow> bool" where
  "less_message_type a b \<longleftrightarrow> type_index a < type_index b"

instance
  by standard (auto simp: less_eq_message_type_def less_message_type_def type_index_inject)

end

text \<open>The alternatives of the payload, with their fields in order.\<close>

datatype msg_payload =
    MsgStartPayload int int
  | MsgAckStartPayload int int
  | MsgPutPayload int int int
  | MsgPutReplyPayload int u32
  | MsgCommitPayload int
  | MsgCommitAckPayload int int
  | MsgRolledBackByServerPayload int int

record message =
  msg_type :: message_type
  msg_source :: int
  msg_destination :: int
  msg_id :: u32
  msg_payload :: msg_payload

text \<open>\<open>payload.get<T>()\<close>: the fields of the alternative \<open>T\<close>, or the exception of \<open>std::get\<close>.\<close>

fun get_start :: "msg_payload \<Rightarrow> (int \<times> int) result" where
  "get_start (MsgStartPayload txid read_ts) = Inr (txid, read_ts)"
| "get_start _ = Inl BadVariantAccess"

fun get_ack_start :: "msg_payload \<Rightarrow> (int \<times> int) result" where
  "get_ack_start (MsgAckStartPayload txid read_ts) = Inr (txid, read_ts)"
| "get_ack_start _ = Inl BadVariantAccess"

fun get_put :: "msg_payload \<Rightarrow> (int \<times> int \<times> int) result" where
  "get_put (MsgPutPayload txid key value) = Inr (txid, key, value)"
| "get_put _ = Inl BadVariantAccess"

fun get_put_reply :: "msg_payload \<Rightarrow> (int \<times> u32) result" where
  "get_put_reply (MsgPutReplyPayload txid mid) = Inr (txid, mid)"
| "get_put_reply _ = Inl BadVariantAccess"

fun get_commit :: "msg_payload \<Rightarrow> int result" where
  "get_commit (MsgCommitPayload txid) = Inr txid"
| "get_commit _ = Inl BadVariantAccess"

fun get_commit_ack :: "msg_payload \<Rightarrow> (int \<times> int) result" where
  "get_commit_ack (MsgCommitAckPayload txid commit_ts) = Inr (txid, commit_ts)"
| "get_commit_ack _ = Inl BadVariantAccess"

fun get_rolled_back :: "msg_payload \<Rightarrow> (int \<times> int) result" where
  "get_rolled_back (MsgRolledBackByServerPayload txid conflict_txid) = Inr (txid, conflict_txid)"
| "get_rolled_back _ = Inl BadVariantAccess"

definition get_txid_from_msg_payload :: "message \<Rightarrow> int result" where
  "get_txid_from_msg_payload m =
     (case msg_type m of
        MSG_UNDEFINED \<Rightarrow> Inr UNDEFINED_TX_ID
      | MSG_START \<Rightarrow> bindE (get_start (msg_payload m)) (\<lambda>(txid, _). Inr txid)
      | MSG_START_ACK \<Rightarrow> bindE (get_ack_start (msg_payload m)) (\<lambda>(txid, _). Inr txid)
      | MSG_PUT \<Rightarrow> bindE (get_put (msg_payload m)) (\<lambda>(txid, _). Inr txid)
      | MSG_PUT_REPLY \<Rightarrow> bindE (get_put_reply (msg_payload m)) (\<lambda>(txid, _). Inr txid)
      | MSG_COMMIT \<Rightarrow> get_commit (msg_payload m)
      | MSG_COMMIT_ACK \<Rightarrow> bindE (get_commit_ack (msg_payload m)) (\<lambda>(txid, _). Inr txid)
      | MSG_ROLLED_BACK_BY_SERVER \<Rightarrow> bindE (get_rolled_back (msg_payload m)) (\<lambda>(txid, _). Inr txid))"

text \<open>Equality of payloads: the same alternative, with the same fields.\<close>

definition start_equal :: "int \<times> int \<Rightarrow> int \<times> int \<Rightarrow> bool" where
  "start_equal lhs rhs \<longleftrightarrow> (fst lhs, snd lhs) = (fst rhs, snd rhs)"

definition ack_start_equal :: "int \<times> int \<Rightarrow> int \<times> int \<Rightarrow> bool" where
  "ack_start_equal lhs rhs \<longleftrightarrow> (fst lhs, snd lhs) = (fst rhs, snd rhs)"

definition put_equal :: "int \<times> int \<times> int \<Rightarrow> int \<times> int \<times> int \<Rightarrow> bool" where
  "put_equal lhs rhs \<longleftrightarrow> (fst lhs, fst (snd lhs), snd (snd lhs)) = (fst rhs, fst (snd rhs), snd (snd rhs))"

definition put_reply_equal :: "int \<times> u32 \<Rightarrow> int \<times> u32 \<Rightarrow> bool" where
  "put_reply_equal lhs rhs \<longleftrightarrow> (fst lhs, snd lhs) = (fst rhs, snd rhs)"

definition commit_equal :: "int \<Rightarrow> int \<Rightarrow> bool" where
  "commit_equal lhs rhs \<longleftrightarrow> lhs = rhs"

definition commit_ack_equal :: "int \<times> int \<Rightarrow> int \<times> int \<Rightarrow> bool" where
  "commit_ack_equal lhs rhs \<longleftrightarrow> (fst lhs, snd lhs) = (fst rhs, snd rhs)"

definition rolled_back_equal :: "int \<times> int \<Rightarrow> int \<times> int \<Rightarrow> bool" where
  "rolled_back_equal lhs rhs \<longleftrightarrow> (fst lhs, snd lhs) = (fst rhs, snd rhs)"

lemmas payload_equals = start_equal_def ack_start_equal_def put_equal_def put_reply_equal_def commit_equal_def
  commit_ack_equal_def rolled_back_equal_def

fun payload_equal :: "msg_payload \<Rightarrow> msg_payload \<Rightarrow> bool" where
  "payload_equal (MsgStartPayload i r) (MsgStartPayload j s) = start_equal (i, r) (j, s)"
| "payload_equal (MsgAckStartPayload i r) (MsgAckStartPayload j s) = ack_start_equal (i, r) (j, s)"
| "payload_equal (MsgPutPayload i k v) (MsgPutPayload j l w) = put_equal (i, k, v) (j, l, w)"
| "payload_equal (MsgPutReplyPayload i m) (MsgPutReplyPayload j n) = put_reply_equal (i, m) (j, n)"
| "payload_equal (MsgCommitPayload i) (MsgCommitPayload j) = commit_equal i j"
| "payload_equal (MsgCommitAckPayload i c) (MsgCommitAckPayload j d) = commit_ack_equal (i, c) (j, d)"
| "payload_equal (MsgRolledBackByServerPayload i c) (MsgRolledBackByServerPayload j d) = rolled_back_equal (i, c) (j, d)"
| "payload_equal _ _ = False"

lemma payload_equal_iff: "payload_equal a b \<longleftrightarrow> a = b"
  by (cases a; cases b) (simp_all add: payload_equals)

text \<open>\<open>operator==\<close> compares every field; \<open>operator<\<close> compares the tuple of type, identifier, source
  and destination.\<close>

definition msg_equal :: "message \<Rightarrow> message \<Rightarrow> bool" where
  "msg_equal a b \<longleftrightarrow>
     (msg_id a, msg_type a, msg_source a, msg_destination a) = (msg_id b, msg_type b, msg_source b, msg_destination b) \<and>
     payload_equal (msg_payload a) (msg_payload b)"

definition msg_less :: "message \<Rightarrow> message \<Rightarrow> bool" where
  "msg_less a b \<longleftrightarrow>
     msg_type a < msg_type b \<or> msg_type a = msg_type b \<and>
      (msg_id a < msg_id b \<or> msg_id a = msg_id b \<and>
       (msg_source a < msg_source b \<or> msg_source a = msg_source b \<and>
        msg_destination a < msg_destination b))"

section \<open>Factories\<close>

definition create_msg_start :: "int \<Rightarrow> int \<Rightarrow> generator \<Rightarrow> message \<times> generator" where
  "create_msg_start source destination g =
     (let (mid, g1) = get_next_msg_id g; (txid, g2) = get_next_tx_id g1 in
      (\<lparr>msg_type = MSG_START, msg_source = source, msg_destination = destination, msg_id = mid,
        msg_payload = MsgStartPayload txid UNDEFINED_TS\<rparr>, g2))"

definition create_msg_start_ack :: "int \<Rightarrow> int \<Rightarrow> int \<Rightarrow> int \<Rightarrow> generator \<Rightarrow> message \<times> generator" where
  "create_msg_start_ack source destination txid read_ts g =
     (let (mid, g1) = get_next_msg_id g in
      (\<lparr>msg_type = MSG_START_ACK, msg_source = source, msg_destination = destination, msg_id = mid,
        msg_payload = MsgAckStartPayload txid read_ts\<rparr>, g1))"

definition create_msg_put :: "int \<Rightarrow> int \<Rightarrow> int \<Rightarrow> int \<Rightarrow> int \<Rightarrow> generator \<Rightarrow> message \<times> generator" where
  "create_msg_put source destination txid key value g =
     (let (mid, g1) = get_next_msg_id g in
      (\<lparr>msg_type = MSG_PUT, msg_source = source, msg_destination = destination, msg_id = mid,
        msg_payload = MsgPutPayload txid key value\<rparr>, g1))"

definition create_msg_put_reply :: "int \<Rightarrow> int \<Rightarrow> int \<Rightarrow> u32 \<Rightarrow> generator \<Rightarrow> message \<times> generator" where
  "create_msg_put_reply source destination txid original_msg_id g =
     (let (mid, g1) = get_next_msg_id g in
      (\<lparr>msg_type = MSG_PUT_REPLY, msg_source = source, msg_destination = destination, msg_id = mid,
        msg_payload = MsgPutReplyPayload txid original_msg_id\<rparr>, g1))"

definition create_msg_commit :: "int \<Rightarrow> int \<Rightarrow> int \<Rightarrow> generator \<Rightarrow> message \<times> generator" where
  "create_msg_commit source destination txid g =
     (let (mid, g1) = get_next_msg_id g in
      (\<lparr>msg_type = MSG_COMMIT, msg_source = source, msg_destination = destination, msg_id = mid,
        msg_payload = MsgCommitPayload txid\<rparr>, g1))"

definition create_msg_commit_ack :: "int \<Rightarrow> int \<Rightarrow> int \<Rightarrow> int \<Rightarrow> generator \<Rightarrow> message \<times> generator" where
  "create_msg_commit_ack source destination txid commit_ts g =
     (let (mid, g1) = get_next_msg_id g in
      (\<lparr>msg_type = MSG_COMMIT_ACK, msg_source = source, msg_destination = destination, msg_id = mid,
        msg_payload = MsgCommitAckPayload txid commit_ts\<rparr>, g1))"

definition create_msg_rolled_back_by_server :: "int \<Rightarrow> int \<Rightarrow> int \<Rightarrow> int \<Rightarrow> generator \<Rightarrow> message \<times> generator" where
  "create_msg_rolled_back_by_server source destination txid conflict_txid g =
     (let (mid, g1) = get_next_msg_id g in
      (\<lparr>msg_type = MSG_ROLLED_BACK_BY_SERVER, msg_source = source, msg_destination = destination,
        msg_id = mid, msg_payload = MsgRolledBackByServerPayload txid conflict_txid\<rparr>, g1))"

section \<open>Messages in flight\<close>

record sent_message =
  send_timestamp :: int
  delivery_timestamp :: int
  sent_msg :: message

definition delivered_last :: "sent_message \<Rightarrow> sent_message \<Rightarrow> bool" where
  "delivered_last a b \<longleftrightarrow>
     delivery_timestamp a > delivery_timestamp b \<or>
     delivery_timestamp a = delivery_timestamp b \<and> send_timestamp a > send_timestamp b"

section \<open>Typed messages\<close>

text \<open>The payload is the alternative that belongs to the type.\<close>

fun payload_type :: "msg_payload \<Rightarrow> message_type" where
  "payload_type (MsgStartPayload _ _) = MSG_START"
| "payload_type (MsgAckStartPayload _ _) = MSG_START_ACK"
| "payload_type (MsgPutPayload _ _ _) = MSG_PUT"
| "payload_type (MsgPutReplyPayload _ _) = MSG_PUT_REPLY"
| "payload_type (MsgCommitPayload _) = MSG_COMMIT"
| "payload_type (MsgCommitAckPayload _ _) = MSG_COMMIT_ACK"
| "payload_type (MsgRolledBackByServerPayload _ _) = MSG_ROLLED_BACK_BY_SERVER"

fun payload_txid :: "msg_payload \<Rightarrow> int" where
  "payload_txid (MsgStartPayload txid _) = txid"
| "payload_txid (MsgAckStartPayload txid _) = txid"
| "payload_txid (MsgPutPayload txid _ _) = txid"
| "payload_txid (MsgPutReplyPayload txid _) = txid"
| "payload_txid (MsgCommitPayload txid) = txid"
| "payload_txid (MsgCommitAckPayload txid _) = txid"
| "payload_txid (MsgRolledBackByServerPayload txid _) = txid"

definition typed :: "message \<Rightarrow> bool" where
  "typed m \<longleftrightarrow> msg_type m = payload_type (msg_payload m)"

lemma typed_txid: "typed m \<Longrightarrow> get_txid_from_msg_payload m = Inr (payload_txid (msg_payload m))"
  by (cases "msg_payload m") (simp_all add: typed_def get_txid_from_msg_payload_def)

lemma get_txid_cases:
  "get_txid_from_msg_payload m = Inr t \<longleftrightarrow>
    msg_type m = MSG_UNDEFINED \<and> t = UNDEFINED_TX_ID \<or> typed m \<and> t = payload_txid (msg_payload m)"
  by (cases "msg_payload m"; cases "msg_type m") (auto simp: typed_def get_txid_from_msg_payload_def)

lemmas create_msg_defs = create_msg_start_def create_msg_start_ack_def create_msg_put_def
  create_msg_put_reply_def create_msg_commit_def create_msg_commit_ack_def
  create_msg_rolled_back_by_server_def get_next_msg_id_def get_next_tx_id_def Let_def

lemma msg_equal_iff: "msg_equal a b \<longleftrightarrow> a = b"
  by (cases a; cases b) (auto simp: msg_equal_def payload_equal_iff)

text \<open>Comparison is a strict weak order; messages that differ only in their payload are not ordered.\<close>

lemma msg_less_order:
  "\<not> msg_less a a"
  "msg_less a b \<Longrightarrow> msg_less b c \<Longrightarrow> msg_less a c"
  "\<not> msg_less a b \<and> \<not> msg_less b a \<longleftrightarrow> a = b\<lparr>msg_payload := msg_payload a\<rparr>"
  by (cases a; cases b; cases c; force simp: msg_less_def)+

section \<open>Properties\<close>

text \<open>A message gives its transaction exactly when it is undefined (and the transaction too) or
  its payload is the alternative of its type; any other pairing of type and payload throws.\<close>

lemma get_txid_total:
  "get_txid_from_msg_payload m =
    (if msg_type m = MSG_UNDEFINED then Inr UNDEFINED_TX_ID
     else if typed m then Inr (payload_txid (msg_payload m)) else Inl BadVariantAccess)"
  by (cases "msg_payload m"; cases "msg_type m") (auto simp: typed_def get_txid_from_msg_payload_def)

text \<open>The identifiers of messages created in a row.\<close>

primrec msg_ids :: "nat \<Rightarrow> generator \<Rightarrow> u32 list" where
  "msg_ids 0 g = []"
| "msg_ids (Suc n) g = (let (mid, g') = get_next_msg_id g in mid # msg_ids n g')"

lemma msg_ids_nth: "msg_ids n g = map (\<lambda>i. g_msg_id g + 1 + of_nat i) [0..<n]"
proof (induction n arbitrary: g)
  case (Suc n)
  have "map (\<lambda>i. g_msg_id g + 1 + of_nat i) [0..<Suc n] =
      (g_msg_id g + 1) # map (\<lambda>i. g_msg_id g + 1 + of_nat (Suc i)) [0..<n]"
    by (simp add: upt_conv_Cons map_Suc_upt [symmetric] comp_def del: upt_Suc)
  with Suc show ?case by (simp add: get_next_msg_id_def add.commute add.left_commute)
qed simp

text \<open>Any \<open>2 ^ 32\<close> messages created one after the other carry distinct identifiers, and the one
  after them repeats the first: the counter is 32 bits wide.\<close>

lemma msg_ids_distinct:
  "distinct (msg_ids (2 ^ 32) g) \<and> msg_ids (2 ^ 32 + 1) g ! (2 ^ 32) = msg_ids (2 ^ 32 + 1) g ! 0"
proof -
  have "inj_on (\<lambda>i. g_msg_id g + 1 + of_nat i) {0..<2 ^ 32 :: nat}"
  proof (rule inj_onI)
    fix i j :: nat
    assume i: "i \<in> {0..<2 ^ 32}" and j: "j \<in> {0..<2 ^ 32}"
      and "g_msg_id g + 1 + of_nat i = g_msg_id g + 1 + of_nat j"
    then have "unat (of_nat i :: u32) = unat (of_nat j :: u32)" by simp
    with i j show "i = j" by (simp add: unat_of_nat)
  qed
  then have "distinct (msg_ids (2 ^ 32) g)"
    by (simp add: msg_ids_nth distinct_map del: upt_rec_numeral)
  moreover have "(of_nat (2 ^ 32) :: u32) = 0" by simp
  ultimately show ?thesis
    by (simp add: msg_ids_nth del: upt_rec_numeral upt_Suc)
qed

end
