(* ===== verification/Services.thy ===== *)
theory Services
  imports Message "HOL-Library.Multiset"
begin

text \<open>
  What the transactions on both sides are built on: \<open>src/tx/retrier/\<close>, an outbox of messages to
  send; \<open>src/tx/runtime/proxy_runtime.{h,cpp}\<close>, an actor's way out; \<open>src/tx/discovery/\<close>, the server responsible for a key; \<open>src/tx/storage/\<close>, the versions of
  every key.

  The storage shows its clients the interface \<open>versioned_store\<close>: versions are added and never
  change, and the latest version of a key can be asked for.
\<close>

section \<open>The class Retrier\<close>

record retrier =
  schedule_msgs :: "message list"

definition retrier_init :: retrier where
  "retrier_init = \<lparr>schedule_msgs = []\<rparr>"

definition send_once :: "int \<Rightarrow> message \<Rightarrow> retrier \<Rightarrow> retrier" where
  "send_once ts m r = r\<lparr>schedule_msgs := schedule_msgs r @ [m]\<rparr>"

definition schedule :: "int \<Rightarrow> message \<Rightarrow> retrier \<Rightarrow> int \<times> retrier" where
  "schedule ts m r = (-1, send_once ts m r)"

definition get_scheduled_msgs :: "int \<Rightarrow> message list \<Rightarrow> retrier \<Rightarrow> message list \<times> retrier" where
  "get_scheduled_msgs ts messages r = (messages @ schedule_msgs r, r\<lparr>schedule_msgs := []\<rparr>)"

lemmas retrier_defs = send_once_def schedule_def get_scheduled_msgs_def

section \<open>The class ProxyRuntime\<close>

text \<open>What an actor sends goes out under the identifier its proxy was made with; the result of
  \<open>proxy_send\<close> is the message handed to the runtime.\<close>

record proxy_runtime =
  pr_source_actor_id :: int

definition make_proxy_runtime :: "int \<Rightarrow> proxy_runtime" where
  "make_proxy_runtime source = \<lparr>pr_source_actor_id = source\<rparr>"

definition proxy_send :: "proxy_runtime \<Rightarrow> message \<Rightarrow> message" where
  "proxy_send p m = m\<lparr>msg_source := pr_source_actor_id p\<rparr>"

lemma proxy_send_simps [simp]:
  "msg_source (proxy_send p m) = pr_source_actor_id p"
  "msg_destination (proxy_send p m) = msg_destination m"
  "msg_type (proxy_send p m) = msg_type m"
  "msg_id (proxy_send p m) = msg_id m"
  "msg_payload (proxy_send p m) = msg_payload m"
  "typed (proxy_send p m) = typed m"
  by (simp_all add: proxy_send_def typed_def)

section \<open>Messages by transaction\<close>

text \<open>\<open>messages_per_tx[txid].push_back(msg)\<close> on the list of entries.\<close>

fun push_back_at :: "'k \<Rightarrow> 'm \<Rightarrow> ('k \<times> 'm list) list \<Rightarrow> ('k \<times> 'm list) list" where
  "push_back_at k m [] = [(k, [m])]"
| "push_back_at k m ((k', ms) # g) = (if k' = k then (k', ms @ [m]) # g else (k', ms) # push_back_at k m g)"

type_synonym groups = "(int \<times> message list) list"

lemma push_back_at_keys: "fst ` set (push_back_at k m g) = insert k (fst ` set g)"
  by (induction k m g rule: push_back_at.induct) auto

lemma push_back_at_distinct: "distinct (map fst g) \<Longrightarrow> distinct (map fst (push_back_at k m g))"
  by (induction k m g rule: push_back_at.induct) (auto simp: push_back_at_keys)

lemma push_back_at_in:
  "(i, ms) \<in> set (push_back_at k m g) \<Longrightarrow>
    (i, ms) \<in> set g \<or> i = k \<and> (ms = [m] \<or> (\<exists>ms'. (k, ms') \<in> set g \<and> ms = ms' @ [m]))"
  by (induction k m g rule: push_back_at.induct) (auto split: if_splits)

lemma push_back_at_mset: "mset (concat (map snd (push_back_at k m g))) = add_mset m (mset (concat (map snd g)))"
  by (induction k m g rule: push_back_at.induct) auto

section \<open>The class Discovery\<close>

record discovery =
  d_actor_ids :: "int list"
  d_intervals :: "key_interval list"

definition discovery_single :: "int \<Rightarrow> discovery" where
  "discovery_single actor_id = \<lparr>d_actor_ids = [actor_id], d_intervals = []\<rparr>"

definition discovery_multi :: "int list \<Rightarrow> key_interval list \<Rightarrow> discovery" where
  "discovery_multi actor_ids intervals = \<lparr>d_actor_ids = actor_ids, d_intervals = intervals\<rparr>"

definition get_by_key :: "int \<Rightarrow> discovery \<Rightarrow> int result" where
  "get_by_key k d =
     (if length (d_actor_ids d) = 1 then Inr (hd (d_actor_ids d))
      else Inl (InvalidArgument ''Discovery for multi node haven't supported yet.''))"

definition get_random :: "discovery \<Rightarrow> int result" where
  "get_random d =
     (if length (d_actor_ids d) = 1 then Inr (hd (d_actor_ids d))
      else Inl (InvalidArgument ''Discovery for multi node haven't supported yet.''))"

lemma discovery_single_simps [simp]:
  "get_by_key k (discovery_single a) = Inr a"
  "get_random (discovery_single a) = Inr a"
  by (simp_all add: get_by_key_def get_random_def discovery_single_def)

section \<open>The class Storage\<close>

record tag_value =
  tv_txid :: int
  tv_value :: int

text \<open>A \<open>std::map\<close> from timestamps is the list of its entries in the order of their keys; its
  \<open>insert\<close> leaves an entry that is already there alone.\<close>

type_synonym history = "(int \<times> tag_value) list"
type_synonym storage = "int \<Rightarrow> history option"

fun history_insert :: "int \<Rightarrow> tag_value \<Rightarrow> history \<Rightarrow> history" where
  "history_insert ts v [] = [(ts, v)]"
| "history_insert ts v ((t, w) # h) =
     (if ts < t then (ts, v) # (t, w) # h
      else if ts = t then (t, w) # h
      else (t, w) # history_insert ts v h)"

text \<open>\<open>None\<close> is the null pointer.\<close>

definition get_last :: "int \<Rightarrow> storage \<Rightarrow> (int \<times> tag_value) option result" where
  "get_last key st =
     (case st key of
        None \<Rightarrow> Inr None
      | Some h \<Rightarrow> bindE (assertE (h \<noteq> []) ''!data_.at(key).empty()'') (\<lambda>_. Inr (Some (last h))))"

definition storage_apply :: "int \<Rightarrow> int \<Rightarrow> int \<Rightarrow> int \<Rightarrow> storage \<Rightarrow> storage" where
  "storage_apply txid commit_ts key value st =
     st(key \<mapsto> history_insert commit_ts \<lparr>tv_txid = txid, tv_value = value\<rparr>
       (case st key of None \<Rightarrow> [] | Some h \<Rightarrow> h))"

section \<open>Storage as versions\<close>

definition version :: "storage \<Rightarrow> int \<Rightarrow> int \<Rightarrow> tag_value option" where
  "version st key ts = (case st key of None \<Rightarrow> None | Some h \<Rightarrow> map_of h ts)"

definition storage_ok :: "storage \<Rightarrow> bool" where
  "storage_ok st \<longleftrightarrow> (\<forall>key h. st key = Some h \<longrightarrow> h \<noteq> [] \<and> sorted_wrt (<) (map fst h))"

lemma history_insert_keys: "fst ` set (history_insert ts v h) = insert ts (fst ` set h)"
  by (induction ts v h rule: history_insert.induct) auto

lemma history_insert_sorted: "sorted_wrt (<) (map fst h) \<Longrightarrow> sorted_wrt (<) (map fst (history_insert ts v h))"
proof (induction ts v h rule: history_insert.induct)
  case (2 ts v t w h)
  have old: "\<forall>x \<in> fst ` set h. t < x" and h: "sorted_wrt (<) (map fst h)" using 2(2) by auto
  consider "ts < t" | "ts = t" | "t < ts" by linarith
  then show ?case
  proof cases
    case 1
    then have "\<forall>x \<in> fst ` set h. ts < x" using old less_trans by blast
    with 1 old h show ?thesis by simp
  next
    case 3
    then have "\<forall>x \<in> fst ` set (history_insert ts v h). t < x"
      using old by (simp add: history_insert_keys)
    with 3 2(1) h show ?thesis by simp
  qed (use 2(2) in simp)
qed simp

lemma history_insert_map: "sorted_wrt (<) (map fst h) \<Longrightarrow>
  map_of (history_insert ts v h) = (if map_of h ts = None then (map_of h)(ts \<mapsto> v) else map_of h)"
proof (induction ts v h rule: history_insert.induct)
  case (2 ts v t w h)
  have "map_of h ts = None" if "ts < t"
    using that 2(2) by (auto simp: map_of_eq_None_iff)
  with 2 show ?case by (auto simp: fun_eq_iff)
qed (simp add: fun_eq_iff)

lemma history_insert_nonempty: "history_insert ts v h \<noteq> []"
  by (induction ts v h rule: history_insert.induct) auto

lemma storage_apply_ok: "storage_ok st \<Longrightarrow> storage_ok (storage_apply txid ts key value st)"
  by (auto simp: storage_ok_def storage_apply_def history_insert_nonempty history_insert_sorted
      split: option.split)

lemma version_apply:
  assumes "storage_ok st"
  shows "version (storage_apply txid ts key value st) k t =
    (if k = key \<and> t = ts \<and> version st key ts = None then Some \<lparr>tv_txid = txid, tv_value = value\<rparr>
     else version st k t)"
  using assms history_insert_map
  by (cases "st key") (auto simp: version_def storage_apply_def storage_ok_def)

lemma sorted_last_max:
  "sorted_wrt (<) (map fst h) \<Longrightarrow> x \<in> set h \<Longrightarrow> fst x \<le> fst (last h)" for h :: history
  by (induction h) (auto split: if_splits intro: less_imp_le)

lemma get_last_version:
  assumes "storage_ok st"
  shows "(\<exists>r. get_last key st = Inr r) \<and>
    (get_last key st = Inr None \<longleftrightarrow> (\<forall>t. version st key t = None)) \<and>
    (\<forall>t v. get_last key st = Inr (Some (t, v)) \<longrightarrow>
      version st key t = Some v \<and> (\<forall>t'. version st key t' \<noteq> None \<longrightarrow> t' \<le> t))"
proof (cases "st key")
  case None
  then show ?thesis by (simp add: get_last_def version_def)
next
  case (Some h)
  then have h: "h \<noteq> []" "sorted_wrt (<) (map fst h)" using assms by (auto simp: storage_ok_def)
  have dist: "distinct (map fst h)" using h(2) by (simp add: strict_sorted_iff)
  have last: "map_of h (fst (last h)) = Some (snd (last h))"
    using dist h(1) by (intro map_of_is_SomeI) auto
  have "t' \<le> fst (last h)" if known: "map_of h t' \<noteq> None" for t'
  proof -
    obtain v where "map_of h t' = Some v" using known by blast
    then have "(t', v) \<in> set h" by (rule map_of_SomeD)
    then show ?thesis using sorted_last_max [OF h(2)] by fastforce
  qed
  with Some h(1) last show ?thesis
    by (auto simp: get_last_def version_def)
qed

section \<open>The interface: versions\<close>

locale versioned_store =
  fixes versions :: "'s \<Rightarrow> 'k \<Rightarrow> int \<Rightarrow> 'v option"
    and wf :: "'s \<Rightarrow> bool"
    and latest_op :: "'k \<Rightarrow> 's \<Rightarrow> (int \<times> 'v) option result"
    and apply_op :: "int \<Rightarrow> 'k \<Rightarrow> 'v \<Rightarrow> 's \<Rightarrow> 's"
  assumes latest_total: "wf s \<Longrightarrow> \<exists>r. latest_op k s = Inr r"
    and latest_none: "wf s \<Longrightarrow> latest_op k s = Inr None \<longleftrightarrow> (\<forall>t. versions s k t = None)"
    and latest_some: "wf s \<Longrightarrow> latest_op k s = Inr (Some (t, v)) \<Longrightarrow>
      versions s k t = Some v \<and> (\<forall>t'. versions s k t' \<noteq> None \<longrightarrow> t' \<le> t)"
    and apply_wf: "wf s \<Longrightarrow> wf (apply_op ts k v s)"
    and apply_versions: "wf s \<Longrightarrow> versions (apply_op ts k v s) k' t =
      (if k' = k \<and> t = ts \<and> versions s k ts = None then Some v else versions s k' t)"
begin

text \<open>Writing a list of values under one timestamp: for a key written before nothing changes, and
  of several values for a key the first one stays.\<close>

lemma apply_all_wf: "wf s \<Longrightarrow> wf (fold (\<lambda>(k, v). apply_op ts k v) kvs s)"
  by (induction kvs arbitrary: s) (auto simp: apply_wf)

lemma apply_all_versions:
  "wf s \<Longrightarrow> versions (fold (\<lambda>(k, v). apply_op ts k v) kvs s) k t =
    (if t = ts \<and> versions s k ts = None \<and> k \<in> fst ` set kvs then map_of kvs k else versions s k t)"
proof (induction kvs arbitrary: s)
  case (Cons kv kvs)
  obtain k' v where kv: "kv = (k', v)" by (cases kv)
  show ?case
    using Cons.IH [OF apply_wf [OF Cons.prems, of ts k' v]] Cons.prems
    by (auto simp: kv apply_versions weak_map_of_SomeI)
qed simp

text \<open>A key is newer than \<open>t0\<close> exactly when its latest version is.\<close>

lemma latest_newer:
  assumes "wf s"
  shows "(\<exists>t > t0. versions s k t \<noteq> None) \<longleftrightarrow>
    (\<exists>t v. latest_op k s = Inr (Some (t, v)) \<and> t0 < t)"
proof -
  obtain r where r: "latest_op k s = Inr r" using latest_total [OF assms] by blast
  show ?thesis
  proof (cases r)
    case None
    then show ?thesis using r latest_none [OF assms, of k] by auto
  next
    case (Some x)
    then obtain t v where "r = Some (t, v)" by (cases x) auto
    with r latest_some [OF assms, of k t v] show ?thesis by fastforce
  qed
qed

end

interpretation vs: versioned_store version storage_ok get_last
    "\<lambda>ts k v. storage_apply (tv_txid v) ts k (tv_value v)"
proof unfold_locales
  fix s :: storage and k t v
  assume ok: "storage_ok s"
  show "\<exists>r. get_last k s = Inr r" and "get_last k s = Inr None \<longleftrightarrow> (\<forall>t. version s k t = None)"
    using get_last_version [OF ok] by blast+
  show "version s k t = Some v \<and> (\<forall>t'. version s k t' \<noteq> None \<longrightarrow> t' \<le> t)"
    if "get_last k s = Inr (Some (t, v))"
    using that get_last_version [OF ok] by blast
next
  fix s :: storage and ts k k' :: int and t :: int and v :: tag_value
  assume ok: "storage_ok s"
  show "storage_ok (storage_apply (tv_txid v) ts k (tv_value v) s)"
    using storage_apply_ok [OF ok] .
  show "version (storage_apply (tv_txid v) ts k (tv_value v) s) k' t =
      (if k' = k \<and> t = ts \<and> version s k ts = None then Some v else version s k' t)"
    by (simp add: version_apply [OF ok])
qed

end
