(* ===== verification/Server_Tx.thy ===== *)
theory Server_Tx
  imports Services
begin

text \<open>
  \<open>src/tx/server/server_tx.{h,cpp}\<close>: one transaction on the server. It opens at the first start
  message, collects puts, and decides at the commit message: if a key it wrote has a version
  newer than its read timestamp it is rolled back, otherwise its puts become versions at its
  commit timestamp. The storage, the outbox and the generator it shares with its siblings are
  the record \<open>tx_env\<close>.

  The lemmas show what one message does to an invariant of all transactions over one storage,
  with a bound \<open>B\<close> on the timestamps of each: the transaction being ticked is at the current
  timestamp, its siblings strictly before it.
\<close>

section \<open>The class ServerTX\<close>

datatype server_tx_state =
    STX_NOT_STARTED
  | STX_OPEN
  | STX_COMMITTED
  | STX_ROLLED_BACK_BY_SERVER

record server_tx =
  stx_client_id :: int
  stx_state :: server_tx_state
  stx_txid :: int
  stx_read_ts :: int
  stx_commit_ts :: int
  stx_puts :: "(int \<times> int) list"

definition make_server_tx :: "int \<Rightarrow> server_tx" where
  "make_server_tx client_id = \<lparr>stx_client_id = client_id, stx_state = STX_NOT_STARTED,
     stx_txid = UNDEFINED_TX_ID, stx_read_ts = UNDEFINED_TS, stx_commit_ts = UNDEFINED_TS, stx_puts = []\<rparr>"

record tx_env =
  env_storage :: storage
  env_retrier :: retrier
  env_gen :: generator

definition process_msg_not_started ::
    "int \<Rightarrow> message \<Rightarrow> server_tx \<times> tx_env \<Rightarrow> (server_tx \<times> tx_env) result" where
  "process_msg_not_started ts m s =
     (let tx = fst s; env = snd s in
      case msg_type m of
        MSG_START \<Rightarrow>
          bindE (assertE (stx_read_ts tx = UNDEFINED_TS) ''read_ts_ == UNDEFINED_TS'') (\<lambda>_.
          bindE (get_start (msg_payload m)) (\<lambda>(txid, _).
            let (ack, g) = create_msg_start_ack (msg_destination m) (msg_source m) txid ts (env_gen env);
                (_, r) = schedule ts ack (env_retrier env) in
            Inr (tx\<lparr>stx_read_ts := ts, stx_txid := txid, stx_state := STX_OPEN\<rparr>,
                 env\<lparr>env_gen := g, env_retrier := r\<rparr>)))
      | _ \<Rightarrow> Inr (tx, env))"

text \<open>The loop over the puts: whether there is a conflict, and with which transaction.\<close>

primrec find_conflict :: "int \<Rightarrow> storage \<Rightarrow> (int \<times> int) list \<Rightarrow> (bool \<times> int) result" where
  "find_conflict read_ts st [] = Inr (False, UNDEFINED_TX_ID)"
| "find_conflict read_ts st (p # ps) =
     bindE (get_last (fst p) st) (\<lambda>r. case r of
       None \<Rightarrow> find_conflict read_ts st ps
     | Some (old_key_ts, tag) \<Rightarrow>
         if old_key_ts > read_ts then Inr (True, tv_txid tag) else find_conflict read_ts st ps)"

definition apply_puts :: "int \<Rightarrow> int \<Rightarrow> (int \<times> int) list \<Rightarrow> storage \<Rightarrow> storage" where
  "apply_puts txid commit_ts puts st = fold (\<lambda>(key, value). storage_apply txid commit_ts key value) puts st"

definition process_msg_open ::
    "int \<Rightarrow> message \<Rightarrow> server_tx \<times> tx_env \<Rightarrow> (server_tx \<times> tx_env) result" where
  "process_msg_open ts m s =
     (let tx = fst s; env = snd s in
      case msg_type m of
        MSG_PUT \<Rightarrow>
          bindE (get_put (msg_payload m)) (\<lambda>(_, key, value).
            let (reply, g) = create_msg_put_reply (msg_destination m) (msg_source m) (stx_txid tx)
                  (msg_id m) (env_gen env) in
            Inr (tx\<lparr>stx_puts := stx_puts tx @ [(key, value)]\<rparr>,
                 env\<lparr>env_gen := g, env_retrier := send_once ts reply (env_retrier env)\<rparr>))
      | MSG_COMMIT \<Rightarrow>
          (let tx1 = tx\<lparr>stx_commit_ts := ts\<rparr> in
           bindE (find_conflict (stx_read_ts tx1) (env_storage env) (stx_puts tx1))
             (\<lambda>(has_conflict, conflict_txid).
               if has_conflict
               then let (out, g) = create_msg_rolled_back_by_server (msg_destination m) (msg_source m)
                          (stx_txid tx1) conflict_txid (env_gen env);
                        (_, r) = schedule ts out (env_retrier env) in
                    Inr (tx1\<lparr>stx_state := STX_ROLLED_BACK_BY_SERVER\<rparr>, env\<lparr>env_gen := g, env_retrier := r\<rparr>)
               else let (out, g) = create_msg_commit_ack (msg_destination m) (msg_source m)
                          (stx_txid tx1) ts (env_gen env);
                        (_, r) = schedule ts out (env_retrier env) in
                    Inr (tx1\<lparr>stx_state := STX_COMMITTED\<rparr>,
                         env\<lparr>env_storage := apply_puts (stx_txid tx1) ts (stx_puts tx1) (env_storage env),
                           env_gen := g, env_retrier := r\<rparr>)))
      | _ \<Rightarrow> Inr (tx, env))"

definition process_msg :: "int \<Rightarrow> message \<Rightarrow> server_tx \<times> tx_env \<Rightarrow> (server_tx \<times> tx_env) result" where
  "process_msg ts m s =
     (case stx_state (fst s) of
        STX_NOT_STARTED \<Rightarrow> process_msg_not_started ts m s
      | STX_OPEN \<Rightarrow> process_msg_open ts m s
      | STX_COMMITTED \<Rightarrow> Inl (RuntimeError ''server state has broken switch'')
      | STX_ROLLED_BACK_BY_SERVER \<Rightarrow> Inl (RuntimeError ''server state has broken switch''))"

definition server_tx_tick :: "int \<Rightarrow> message list \<Rightarrow> message list \<Rightarrow> server_tx \<times> tx_env \<Rightarrow>
    (message list \<times> server_tx \<times> tx_env) result" where
  "server_tx_tick ts msgs scheduled s =
     bindE (foldE (process_msg ts) msgs s) (\<lambda>(tx, env).
       let (out, r) = get_scheduled_msgs ts scheduled (env_retrier env) in
       Inr (out, tx, env\<lparr>env_retrier := r\<rparr>))"

section \<open>Transactions over one storage\<close>

type_synonym transactions = "int \<Rightarrow> server_tx option"

text \<open>The fields of a transaction go with its state, and its timestamps stay below a bound.\<close>

definition tx_ok :: "int \<Rightarrow> int \<Rightarrow> server_tx \<Rightarrow> bool" where
  "tx_ok bound i tx \<longleftrightarrow>
     (case stx_state tx of
        STX_NOT_STARTED \<Rightarrow> stx_read_ts tx = UNDEFINED_TS \<and> stx_commit_ts tx = UNDEFINED_TS \<and> stx_puts tx = []
      | STX_OPEN \<Rightarrow> stx_txid tx = i \<and> 0 \<le> stx_read_ts tx \<and> stx_read_ts tx \<le> bound \<and>
          stx_commit_ts tx = UNDEFINED_TS
      | _ \<Rightarrow> stx_txid tx = i \<and> 0 \<le> stx_read_ts tx \<and> stx_read_ts tx \<le> stx_commit_ts tx \<and>
          stx_commit_ts tx \<le> bound)"

text \<open>Two committed transactions that wrote a common key did not overlap: one committed no later than
  the other's snapshot.\<close>

definition no_overlap :: "server_tx \<Rightarrow> server_tx \<Rightarrow> bool" where
  "no_overlap a b \<longleftrightarrow>
     stx_state a = STX_COMMITTED \<longrightarrow> stx_state b = STX_COMMITTED \<longrightarrow>
     fst ` set (stx_puts a) \<inter> fst ` set (stx_puts b) \<noteq> {} \<longrightarrow>
     stx_commit_ts a \<le> stx_read_ts b \<or> stx_commit_ts b \<le> stx_read_ts a"

text \<open>The versions in the storage are exactly the first puts of the committed transactions.\<close>

definition store_reflects :: "storage \<Rightarrow> transactions \<Rightarrow> bool" where
  "store_reflects st txs \<longleftrightarrow>
     (\<forall>key ts v. version st key ts = Some v \<longleftrightarrow>
        (\<exists>tx. txs (tv_txid v) = Some tx \<and> stx_state tx = STX_COMMITTED \<and> stx_commit_ts tx = ts \<and>
          map_of (stx_puts tx) key = Some (tv_value v)))"

definition txs_ok :: "(int \<Rightarrow> int) \<Rightarrow> storage \<Rightarrow> transactions \<Rightarrow> bool" where
  "txs_ok B st txs \<longleftrightarrow> storage_ok st \<and> store_reflects st txs \<and>
     (\<forall>i tx. txs i = Some tx \<longrightarrow> tx_ok (B i) i tx) \<and>
     (\<forall>i j tx tx'. txs i = Some tx \<longrightarrow> txs j = Some tx' \<longrightarrow> i \<noteq> j \<longrightarrow> no_overlap tx tx')"

lemma txs_okD:
  assumes "txs_ok B st txs"
  shows "storage_ok st" and "store_reflects st txs" and "txs i = Some tx \<Longrightarrow> tx_ok (B i) i tx"
    and "txs i = Some tx \<Longrightarrow> txs j = Some tx' \<Longrightarrow> i \<noteq> j \<Longrightarrow> no_overlap tx tx'"
  using assms by (auto simp: txs_ok_def)

lemma tx_ok_mono: "tx_ok b i tx \<Longrightarrow> b \<le> b' \<Longrightarrow> tx_ok b' i tx"
  by (auto simp: tx_ok_def split: server_tx_state.splits)

lemma txs_ok_mono: "txs_ok B st txs \<Longrightarrow> (\<And>i. B i \<le> B' i) \<Longrightarrow> txs_ok B' st txs"
  unfolding txs_ok_def using tx_ok_mono by blast

lemma no_overlap_uncommitted:
  "stx_state a \<noteq> STX_COMMITTED \<Longrightarrow> no_overlap a b" "stx_state b \<noteq> STX_COMMITTED \<Longrightarrow> no_overlap a b"
  by (auto simp: no_overlap_def)

lemma no_overlap_sym: "no_overlap a b \<longleftrightarrow> no_overlap b a"
  by (auto simp: no_overlap_def)

text \<open>Changing a transaction that has not committed.\<close>

lemma txs_ok_update:
  assumes "txs_ok B st txs" and "\<And>old. txs i = Some old \<Longrightarrow> stx_state old \<noteq> STX_COMMITTED"
    and "stx_state tx \<noteq> STX_COMMITTED" and "tx_ok (B i) i tx"
  shows "txs_ok B st (txs(i \<mapsto> tx))"
proof -
  have same: "(\<exists>a. (txs(i \<mapsto> tx)) j = Some a \<and> stx_state a = STX_COMMITTED \<and> Q a) \<longleftrightarrow>
      (\<exists>a. txs j = Some a \<and> stx_state a = STX_COMMITTED \<and> Q a)" for j Q
    using assms(2,3) by (cases "j = i") auto
  have "store_reflects st (txs(i \<mapsto> tx))"
    using txs_okD(2) [OF assms(1)] unfolding store_reflects_def same .
  moreover have "tx_ok (B j) j a" if "(txs(i \<mapsto> tx)) j = Some a" for j a
    using that assms(4) txs_okD(3) [OF assms(1), of j a] by (cases "j = i") auto
  moreover have "no_overlap a b" if "(txs(i \<mapsto> tx)) j = Some a" "(txs(i \<mapsto> tx)) k = Some b" "j \<noteq> k" for j k a b
    using that assms(3) txs_okD(4) [OF assms(1), of j a k b] no_overlap_uncommitted
    by (cases "j = i"; cases "k = i") auto
  ultimately show ?thesis using txs_okD(1) [OF assms(1)] unfolding txs_ok_def by blast
qed

section \<open>The conflict check\<close>

lemma find_conflict_result:
  assumes "storage_ok st"
  shows "(\<exists>key ts v. find_conflict read_ts st puts = Inr (True, tv_txid v) \<and> key \<in> fst ` set puts \<and>
      read_ts < ts \<and> version st key ts = Some v) \<or>
    (find_conflict read_ts st puts = Inr (False, UNDEFINED_TX_ID) \<and>
      (\<forall>key \<in> fst ` set puts. \<forall>ts. version st key ts \<noteq> None \<longrightarrow> ts \<le> read_ts))"
proof (induction puts)
  case (Cons p ps)
  obtain r where r: "get_last (fst p) st = Inr r" using vs.latest_total [OF assms] by blast
  note newer = vs.latest_newer [OF assms, of read_ts "fst p"]
  show ?case
  proof (cases "\<exists>t v. r = Some (t, v) \<and> read_ts < t")
    case True
    then obtain t v where t: "r = Some (t, v)" "read_ts < t" by blast
    then have "version st (fst p) t = Some v" using vs.latest_some [OF assms] r by blast
    moreover have "find_conflict read_ts st (p # ps) = Inr (True, tv_txid v)" using r t by simp
    ultimately show ?thesis using t(2) by (metis image_eqI list.set_intros(1))
  next
    case False
    then have skip: "find_conflict read_ts st (p # ps) = find_conflict read_ts st ps"
      using r by (auto split: option.split)
    have old: "\<forall>ts. version st (fst p) ts \<noteq> None \<longrightarrow> ts \<le> read_ts" using False newer r by force
    from Cons.IH show ?thesis
    proof
      assume "\<exists>key ts v. find_conflict read_ts st ps = Inr (True, tv_txid v) \<and> key \<in> fst ` set ps \<and>
          read_ts < ts \<and> version st key ts = Some v"
      with skip show ?thesis by (metis image_mono set_subset_Cons subsetD)
    next
      assume "find_conflict read_ts st ps = Inr (False, UNDEFINED_TX_ID) \<and>
          (\<forall>key \<in> fst ` set ps. \<forall>ts. version st key ts \<noteq> None \<longrightarrow> ts \<le> read_ts)"
      with old show ?thesis unfolding skip by (intro disjI2) auto
    qed
  qed
qed simp

section \<open>Committing\<close>

lemma apply_puts_ok:
  assumes "storage_ok st"
  shows "storage_ok (apply_puts txid ts puts st)"
    and "version (apply_puts txid ts puts st) key t =
      (if t = ts \<and> version st key ts = None then map_option (\<lambda>v. \<lparr>tv_txid = txid, tv_value = v\<rparr>) (map_of puts key)
       else version st key t)"
proof -
  let ?kvs = "map (\<lambda>(k, v). (k, \<lparr>tv_txid = txid, tv_value = v\<rparr>)) puts"
  have eq: "apply_puts txid ts puts st =
      fold (\<lambda>(k, v). storage_apply (tv_txid v) ts k (tv_value v)) ?kvs st"
    by (simp add: apply_puts_def fold_map comp_def case_prod_beta')
  show "storage_ok (apply_puts txid ts puts st)"
    unfolding eq by (rule vs.apply_all_wf [OF assms])
  have keys: "fst ` set ?kvs = fst ` set puts" by force
  have "map_of ?kvs key = map_option (\<lambda>v. \<lparr>tv_txid = txid, tv_value = v\<rparr>) (map_of puts key)"
    by (rule map_of_map [THEN fun_cong, unfolded comp_def])
  moreover have "map_of puts key = None" if "key \<notin> fst ` set puts"
    using that by (simp add: map_of_eq_None_iff)
  ultimately show "version (apply_puts txid ts puts st) key t =
      (if t = ts \<and> version st key ts = None then map_option (\<lambda>v. \<lparr>tv_txid = txid, tv_value = v\<rparr>) (map_of puts key)
       else version st key t)"
    unfolding eq vs.apply_all_versions [OF assms] keys by auto
qed

text \<open>What a transaction writes when it commits is new, and all there is at its timestamp.\<close>

lemma store_reflects_commit:
  assumes ok: "txs_ok B st txs" and tx: "txs i = Some tx" and "open": "stx_state tx = STX_OPEN"
    and B: "\<And>j. j \<noteq> i \<Longrightarrow> B j < ts"
  shows "store_reflects (apply_puts i ts (stx_puts tx) st)
    (txs(i \<mapsto> tx\<lparr>stx_commit_ts := ts, stx_state := STX_COMMITTED\<rparr>))"
  unfolding store_reflects_def
proof (intro allI)
  note d = txs_okD [OF ok]
  let ?tx = "tx\<lparr>stx_commit_ts := ts, stx_state := STX_COMMITTED\<rparr>"
  have ver: "version st key t = Some v \<longleftrightarrow> (\<exists>a. txs (tv_txid v) = Some a \<and> stx_state a = STX_COMMITTED \<and>
      stx_commit_ts a = t \<and> map_of (stx_puts a) key = Some (tv_value v))" for key t v
    using d(2) by (simp add: store_reflects_def)
  have other: "tv_txid v \<noteq> i \<and> t < ts" if v: "version st key t = Some v" for key t v
  proof -
    obtain a where a: "txs (tv_txid v) = Some a" "stx_state a = STX_COMMITTED" "stx_commit_ts a = t"
      using v ver by blast
    then have "tv_txid v \<noteq> i" using tx "open" by auto
    moreover have "stx_commit_ts a \<le> B (tv_txid v)" using d(3) [OF a(1)] a(2) by (simp add: tx_ok_def)
    ultimately show ?thesis using a(3) B by fastforce
  qed
  then have fresh: "version st key ts = None" for key by (cases "version st key ts") fastforce+
  have new: "version (apply_puts i ts (stx_puts tx) st) key t =
      (if t = ts then map_option (\<lambda>v. \<lparr>tv_txid = i, tv_value = v\<rparr>) (map_of (stx_puts tx) key)
       else version st key t)" for key t
    unfolding apply_puts_ok(2) [OF d(1)] by (simp add: fresh)
  fix key t v
  show "version (apply_puts i ts (stx_puts tx) st) key t = Some v \<longleftrightarrow>
      (\<exists>a. (txs(i \<mapsto> ?tx)) (tv_txid v) = Some a \<and> stx_state a = STX_COMMITTED \<and> stx_commit_ts a = t \<and>
        map_of (stx_puts a) key = Some (tv_value v))"
  proof (cases "tv_txid v = i")
    case True
    then show ?thesis using other [of key t v] by (cases v) (auto simp: new)
  next
    case False
    then have "(txs(i \<mapsto> ?tx)) (tv_txid v) = txs (tv_txid v)" by simp
    with ver [of key t v] other [of key t v] False show ?thesis by (auto simp: new)
  qed
qed

text \<open>The check of the code is enough: a transaction that passes it can commit.\<close>

lemma txs_ok_commit:
  assumes ok: "txs_ok B st txs" and tx: "txs i = Some tx" and "open": "stx_state tx = STX_OPEN"
    and B: "B i = ts" "\<And>j. j \<noteq> i \<Longrightarrow> B j < ts"
    and free: "\<And>key t. key \<in> fst ` set (stx_puts tx) \<Longrightarrow> version st key t \<noteq> None \<Longrightarrow> t \<le> stx_read_ts tx"
  shows "txs_ok B (apply_puts i ts (stx_puts tx) st)
    (txs(i \<mapsto> tx\<lparr>stx_commit_ts := ts, stx_state := STX_COMMITTED\<rparr>))"
proof -
  note d = txs_okD [OF ok]
  let ?tx = "tx\<lparr>stx_commit_ts := ts, stx_state := STX_COMMITTED\<rparr>"
  have "store_reflects (apply_puts i ts (stx_puts tx) st) (txs(i \<mapsto> ?tx))"
    by (rule store_reflects_commit [OF ok tx "open" B(2)])
  moreover have "tx_ok (B j) j a" if "(txs(i \<mapsto> ?tx)) j = Some a" for j a
    using that d(3) [OF tx] d(3) [of j a] "open" B(1) by (cases "j = i") (auto simp: tx_ok_def)
  moreover have mine: "no_overlap ?tx b" if "txs j = Some b" "j \<noteq> i" for j b
  proof -
    have "stx_commit_ts b \<le> stx_read_ts tx"
      if c: "stx_state b = STX_COMMITTED" "key \<in> fst ` set (stx_puts tx)" "key \<in> fst ` set (stx_puts b)" for key
    proof -
      obtain x where "map_of (stx_puts b) key = Some x"
        using c(3) by (cases "map_of (stx_puts b) key") (auto simp: map_of_eq_None_iff)
      then have "version st key (stx_commit_ts b) = Some \<lparr>tv_txid = j, tv_value = x\<rparr>"
        using d(2) \<open>txs j = Some b\<close> c(1) by (simp add: store_reflects_def)
      then show ?thesis using free [OF c(2)] by simp
    qed
    then show ?thesis by (auto simp: no_overlap_def)
  qed
  moreover have "no_overlap a b" if "(txs(i \<mapsto> ?tx)) j = Some a" "(txs(i \<mapsto> ?tx)) k = Some b" "j \<noteq> k" for j k a b
    using that mine [of k b] mine [of j a] d(4) [of j a k b] no_overlap_sym [of a b]
    by (cases "j = i"; cases "k = i") auto
  ultimately show ?thesis using apply_puts_ok(1) [OF d(1)] unfolding txs_ok_def by blast
qed

section \<open>One message\<close>

text \<open>What a message of the server says of the transaction it is about.\<close>

definition reply_ok :: "int \<Rightarrow> server_tx \<Rightarrow> message \<Rightarrow> bool" where
  "reply_ok i tx m \<longleftrightarrow> typed m \<and> payload_txid (msg_payload m) = i \<and>
     (case msg_payload m of
        MsgAckStartPayload _ read_ts \<Rightarrow> stx_state tx \<noteq> STX_NOT_STARTED \<and> stx_read_ts tx = read_ts
      | MsgPutReplyPayload _ _ \<Rightarrow> stx_state tx \<noteq> STX_NOT_STARTED
      | MsgCommitAckPayload _ commit_ts \<Rightarrow> stx_state tx = STX_COMMITTED \<and> stx_commit_ts tx = commit_ts
      | MsgRolledBackByServerPayload _ _ \<Rightarrow> stx_state tx = STX_ROLLED_BACK_BY_SERVER
      | _ \<Rightarrow> False)"

text \<open>A transaction only moves forward: once open its identity and snapshot are fixed, once decided
  nothing changes.\<close>

definition tx_later :: "server_tx \<Rightarrow> server_tx \<Rightarrow> bool" where
  "tx_later a b \<longleftrightarrow>
     (stx_state a \<noteq> STX_NOT_STARTED \<longrightarrow> stx_state b \<noteq> STX_NOT_STARTED \<and> stx_txid b = stx_txid a \<and>
        stx_read_ts b = stx_read_ts a) \<and>
     (stx_state a \<in> {STX_COMMITTED, STX_ROLLED_BACK_BY_SERVER} \<longrightarrow> b = a)"

lemma tx_later_refl: "tx_later a a"
  by (simp add: tx_later_def)

lemma tx_later_trans: "tx_later a b \<Longrightarrow> tx_later b c \<Longrightarrow> tx_later a c"
  by (auto simp: tx_later_def)

lemma reply_ok_later: "reply_ok i a m \<Longrightarrow> tx_later a b \<Longrightarrow> reply_ok i b m"
  by (cases "msg_payload m") (auto simp: reply_ok_def tx_later_def)

lemma process_msg_not_started_ok:
  assumes ok: "txs_ok B (env_storage env) txs" and tx: "txs i = Some tx"
    and state: "stx_state tx = STX_NOT_STARTED" and B: "B i = ts" "0 \<le> ts"
    and m: "typed m" "payload_txid (msg_payload m) = i"
  shows "\<exists>tx' env' out. process_msg_not_started ts m (tx, env) = Inr (tx', env') \<and>
    txs_ok B (env_storage env') (txs(i \<mapsto> tx')) \<and> tx_later tx tx' \<and>
    schedule_msgs (env_retrier env') = schedule_msgs (env_retrier env) @ out \<and> (\<forall>r \<in> set out. reply_ok i tx' r)"
proof (cases "msg_type m = MSG_START")
  case True
  then obtain ts' where pay: "msg_payload m = MsgStartPayload i ts'"
    using m by (cases "msg_payload m") (auto simp: typed_def)
  have blank: "stx_read_ts tx = UNDEFINED_TS" "stx_commit_ts tx = UNDEFINED_TS"
    using txs_okD(3) [OF ok tx] state by (simp_all add: tx_ok_def)
  let ?tx = "tx\<lparr>stx_read_ts := ts, stx_txid := i, stx_state := STX_OPEN\<rparr>"
  have "txs_ok B (env_storage env) (txs(i \<mapsto> ?tx))"
    using ok tx state blank B by (intro txs_ok_update) (auto simp: tx_ok_def)
  moreover have "tx_later tx ?tx" using state by (simp add: tx_later_def)
  ultimately show ?thesis
    using True pay blank
    by (simp add: process_msg_not_started_def create_msg_defs retrier_defs reply_ok_def typed_def)
next
  case False
  moreover have "txs(i \<mapsto> tx) = txs" using tx by auto
  ultimately show ?thesis
    using ok tx_later_refl [of tx]
    by (cases "msg_type m") (simp_all add: process_msg_not_started_def)
qed

lemma process_commit_ok:
  assumes ok: "txs_ok B (env_storage env) txs" and tx: "txs i = Some tx"
    and state: "stx_state tx = STX_OPEN" and B: "B i = ts" "\<And>j. j \<noteq> i \<Longrightarrow> B j < ts"
    and commit: "msg_type m = MSG_COMMIT"
  shows "\<exists>tx' env' out. process_msg_open ts m (tx, env) = Inr (tx', env') \<and>
    txs_ok B (env_storage env') (txs(i \<mapsto> tx')) \<and> tx_later tx tx' \<and>
    schedule_msgs (env_retrier env') = schedule_msgs (env_retrier env) @ out \<and> (\<forall>r \<in> set out. reply_ok i tx' r)"
proof -
  have fields: "stx_txid tx = i" "0 \<le> stx_read_ts tx" "stx_read_ts tx \<le> ts" "stx_commit_ts tx = UNDEFINED_TS"
    using txs_okD(3) [OF ok tx] state B(1) by (simp_all add: tx_ok_def)
  from find_conflict_result [OF txs_okD(1) [OF ok], of "stx_read_ts tx" "stx_puts tx"] show ?thesis
  proof
    assume "\<exists>key ts v. find_conflict (stx_read_ts tx) (env_storage env) (stx_puts tx) = Inr (True, tv_txid v) \<and>
        key \<in> fst ` set (stx_puts tx) \<and> stx_read_ts tx < ts \<and> version (env_storage env) key ts = Some v"
    then obtain c where c: "find_conflict (stx_read_ts tx) (env_storage env) (stx_puts tx) = Inr (True, c)"
      by blast
    let ?tx = "tx\<lparr>stx_commit_ts := ts, stx_state := STX_ROLLED_BACK_BY_SERVER\<rparr>"
    have "txs_ok B (env_storage env) (txs(i \<mapsto> ?tx))"
      using ok tx state fields B(1) by (intro txs_ok_update) (auto simp: tx_ok_def)
    moreover have "tx_later tx ?tx" using state by (simp add: tx_later_def)
    ultimately show ?thesis
      using commit c fields
      by (simp add: process_msg_open_def create_msg_defs retrier_defs reply_ok_def typed_def)
  next
    assume free: "find_conflict (stx_read_ts tx) (env_storage env) (stx_puts tx) = Inr (False, UNDEFINED_TX_ID) \<and>
        (\<forall>key \<in> fst ` set (stx_puts tx). \<forall>ts. version (env_storage env) key ts \<noteq> None \<longrightarrow> ts \<le> stx_read_ts tx)"
    let ?tx = "tx\<lparr>stx_commit_ts := ts, stx_state := STX_COMMITTED\<rparr>"
    have "txs_ok B (apply_puts i ts (stx_puts tx) (env_storage env)) (txs(i \<mapsto> ?tx))"
      using free by (intro txs_ok_commit [OF ok tx state B]) auto
    moreover have "tx_later tx ?tx" using state by (simp add: tx_later_def)
    ultimately show ?thesis
      using commit free fields
      by (simp add: process_msg_open_def create_msg_defs retrier_defs reply_ok_def typed_def)
  qed
qed

lemma process_msg_open_ok:
  assumes ok: "txs_ok B (env_storage env) txs" and tx: "txs i = Some tx"
    and state: "stx_state tx = STX_OPEN" and B: "B i = ts" "\<And>j. j \<noteq> i \<Longrightarrow> B j < ts"
    and m: "typed m" "payload_txid (msg_payload m) = i"
  shows "\<exists>tx' env' out. process_msg_open ts m (tx, env) = Inr (tx', env') \<and>
    txs_ok B (env_storage env') (txs(i \<mapsto> tx')) \<and> tx_later tx tx' \<and>
    schedule_msgs (env_retrier env') = schedule_msgs (env_retrier env) @ out \<and> (\<forall>r \<in> set out. reply_ok i tx' r)"
proof -
  have fields: "stx_txid tx = i" "0 \<le> stx_read_ts tx" "stx_read_ts tx \<le> ts" "stx_commit_ts tx = UNDEFINED_TS"
    using txs_okD(3) [OF ok tx] state B(1) by (simp_all add: tx_ok_def)
  consider (put) "msg_type m = MSG_PUT" | (commit) "msg_type m = MSG_COMMIT"
    | (other) "msg_type m \<noteq> MSG_PUT" "msg_type m \<noteq> MSG_COMMIT" by blast
  then show ?thesis
  proof cases
    case put
    then obtain key v where pay: "msg_payload m = MsgPutPayload i key v"
      using m by (cases "msg_payload m") (auto simp: typed_def)
    let ?tx = "tx\<lparr>stx_puts := stx_puts tx @ [(key, v)]\<rparr>"
    have "txs_ok B (env_storage env) (txs(i \<mapsto> ?tx))"
      using ok tx state fields B(1) by (intro txs_ok_update) (auto simp: tx_ok_def)
    moreover have "tx_later tx ?tx" using state by (simp add: tx_later_def)
    ultimately show ?thesis
      using put pay state fields
      by (simp add: process_msg_open_def create_msg_defs retrier_defs reply_ok_def typed_def)
  next
    case commit
    then show ?thesis using B by (intro process_commit_ok [OF ok tx state])
  next
    case other
    moreover have "txs(i \<mapsto> tx) = txs" using tx by auto
    ultimately show ?thesis
      using ok tx_later_refl [of tx]
      by (cases "msg_type m") (simp_all add: process_msg_open_def)
  qed
qed

lemma process_msg_ok:
  assumes ok: "txs_ok B (env_storage env) txs" and tx: "txs i = Some tx"
    and B: "B i = ts" "0 \<le> ts" "\<And>j. j \<noteq> i \<Longrightarrow> B j < ts"
    and m: "typed m" "payload_txid (msg_payload m) = i"
    and step: "process_msg ts m (tx, env) = Inr (tx', env')"
  shows "txs_ok B (env_storage env') (txs(i \<mapsto> tx')) \<and> tx_later tx tx' \<and>
    (\<exists>out. schedule_msgs (env_retrier env') = schedule_msgs (env_retrier env) @ out \<and>
      (\<forall>r \<in> set out. reply_ok i tx' r))"
proof (cases "stx_state tx")
  case STX_NOT_STARTED
  with process_msg_not_started_ok [OF ok tx _ B(1,2) m] step show ?thesis by (auto simp: process_msg_def)
next
  case STX_OPEN
  with process_msg_open_ok [OF ok tx _ B(1,3) m] step show ?thesis by (auto simp: process_msg_def)
qed (use step in \<open>simp_all add: process_msg_def\<close>)

text \<open>A list of messages for one transaction, at one timestamp.\<close>

lemma process_msgs_ok:
  assumes "txs_ok B (env_storage env) txs" and "txs i = Some tx"
    and B: "B i = ts" "0 \<le> ts" "\<And>j. j \<noteq> i \<Longrightarrow> B j < ts"
    and "\<forall>m \<in> set msgs. typed m \<and> payload_txid (msg_payload m) = i"
    and "foldE (process_msg ts) msgs (tx, env) = Inr (tx', env')"
  shows "txs_ok B (env_storage env') (txs(i \<mapsto> tx')) \<and> tx_later tx tx' \<and>
    (\<exists>out. schedule_msgs (env_retrier env') = schedule_msgs (env_retrier env) @ out \<and>
      (\<forall>r \<in> set out. reply_ok i tx' r))"
  using assms(1,2,6,7)
proof (induction msgs arbitrary: tx env txs)
  case Nil
  then have "txs(i \<mapsto> tx) = txs" by auto
  with Nil show ?case by (simp add: tx_later_refl)
next
  case (Cons m msgs)
  obtain tx1 env1 where s1: "process_msg ts m (tx, env) = Inr (tx1, env1)"
      and rest: "foldE (process_msg ts) msgs (tx1, env1) = Inr (tx', env')"
    using Cons.prems(4) by (auto simp: result_simps)
  have m: "typed m" "payload_txid (msg_payload m) = i" using Cons.prems(3) by simp_all
  from process_msg_ok [OF Cons.prems(1,2) B m s1] obtain out where
      one: "txs_ok B (env_storage env1) (txs(i \<mapsto> tx1))" "tx_later tx tx1"
        "schedule_msgs (env_retrier env1) = schedule_msgs (env_retrier env) @ out" "\<forall>r \<in> set out. reply_ok i tx1 r"
    by blast
  have "(txs(i \<mapsto> tx1)) i = Some tx1" by simp
  moreover have "\<forall>m \<in> set msgs. typed m \<and> payload_txid (msg_payload m) = i" using Cons.prems(3) by simp
  ultimately obtain out' where
      more: "txs_ok B (env_storage env') (txs(i \<mapsto> tx'))" "tx_later tx1 tx'"
        "schedule_msgs (env_retrier env') = schedule_msgs (env_retrier env1) @ out'"
        "\<forall>r \<in> set out'. reply_ok i tx' r"
    using Cons.IH [OF one(1) _ _ rest] unfolding fun_upd_upd by blast
  moreover have "\<forall>r \<in> set (out @ out'). reply_ok i tx' r"
    using one(4) more(2,4) reply_ok_later by auto
  ultimately show ?case using one tx_later_trans [OF one(2) more(2)] by fastforce
qed

lemma server_tx_tick_ok:
  assumes "txs_ok B (env_storage env) txs" and "txs i = Some tx"
    and B: "B i = ts" "0 \<le> ts" "\<And>j. j \<noteq> i \<Longrightarrow> B j < ts"
    and "\<forall>m \<in> set msgs. typed m \<and> payload_txid (msg_payload m) = i"
    and "schedule_msgs (env_retrier env) = []"
    and "server_tx_tick ts msgs scheduled (tx, env) = Inr (sent, tx', env')"
  shows "txs_ok B (env_storage env') (txs(i \<mapsto> tx')) \<and> tx_later tx tx' \<and>
    schedule_msgs (env_retrier env') = [] \<and>
    (\<exists>out. sent = scheduled @ out \<and> (\<forall>r \<in> set out. reply_ok i tx' r))"
proof -
  obtain env1 where run: "foldE (process_msg ts) msgs (tx, env) = Inr (tx', env1)"
      and fin: "sent = scheduled @ schedule_msgs (env_retrier env1)"
        "env' = env1\<lparr>env_retrier := (env_retrier env1)\<lparr>schedule_msgs := []\<rparr>\<rparr>"
    using assms(8) by (auto simp: server_tx_tick_def result_simps retrier_defs)
  from process_msgs_ok [OF assms(1,2) B assms(6) run] assms(7) fin show ?thesis by auto
qed

section \<open>The two outcomes of a commit\<close>

lemma process_commit_accepted:
  assumes "storage_ok (env_storage env)" and "stx_state tx = STX_OPEN" and "msg_type m = MSG_COMMIT"
    and old: "\<forall>key \<in> fst ` set (stx_puts tx). \<forall>t. version (env_storage env) key t \<noteq> None \<longrightarrow> t \<le> stx_read_ts tx"
  shows "\<exists>env' r. process_msg ts m (tx, env) = Inr (tx\<lparr>stx_commit_ts := ts, stx_state := STX_COMMITTED\<rparr>, env') \<and>
    env_storage env' = apply_puts (stx_txid tx) ts (stx_puts tx) (env_storage env) \<and>
    schedule_msgs (env_retrier env') = schedule_msgs (env_retrier env) @ [r] \<and> msg_type r = MSG_COMMIT_ACK"
proof -
  have "find_conflict (stx_read_ts tx) (env_storage env) (stx_puts tx) = Inr (False, UNDEFINED_TX_ID)"
    using find_conflict_result [OF assms(1), of "stx_read_ts tx" "stx_puts tx"] old by fastforce
  then show ?thesis using assms(2,3)
    by (simp add: process_msg_def process_msg_open_def create_msg_defs retrier_defs)
qed

lemma process_commit_rejected:
  assumes "storage_ok (env_storage env)" and "stx_state tx = STX_OPEN" and "msg_type m = MSG_COMMIT"
    and new: "key \<in> fst ` set (stx_puts tx)" "version (env_storage env) key t \<noteq> None" "stx_read_ts tx < t"
  shows "\<exists>env' r. process_msg ts m (tx, env) = Inr (tx\<lparr>stx_commit_ts := ts, stx_state := STX_ROLLED_BACK_BY_SERVER\<rparr>, env') \<and>
    env_storage env' = env_storage env \<and>
    schedule_msgs (env_retrier env') = schedule_msgs (env_retrier env) @ [r] \<and> msg_type r = MSG_ROLLED_BACK_BY_SERVER"
proof -
  obtain c where "find_conflict (stx_read_ts tx) (env_storage env) (stx_puts tx) = Inr (True, c)"
    using find_conflict_result [OF assms(1), of "stx_read_ts tx" "stx_puts tx"] new by fastforce
  then show ?thesis using assms(2,3)
    by (simp add: process_msg_def process_msg_open_def create_msg_defs retrier_defs)
qed

section \<open>Properties\<close>

text \<open>C21. At the commit message an open transaction is decided by first-committer-wins: it is rolled
  back, without touching the storage, exactly when some key it wrote has a version newer than
  its snapshot; otherwise it commits at the current timestamp and each key it wrote gains a
  version there, while every other version stays.\<close>

theorem commit_decision:
  assumes "storage_ok (env_storage env)" and "stx_state tx = STX_OPEN"
    and "msg_type m = MSG_COMMIT"
  shows "\<exists>tx' env'. process_msg ts m (tx, env) = Inr (tx', env') \<and> stx_commit_ts tx' = ts \<and>
    (if \<exists>key \<in> fst ` set (stx_puts tx). \<exists>t > stx_read_ts tx. version (env_storage env) key t \<noteq> None
     then stx_state tx' = STX_ROLLED_BACK_BY_SERVER \<and> env_storage env' = env_storage env
     else stx_state tx' = STX_COMMITTED \<and>
       (\<forall>key t. version (env_storage env') key t =
         (if t = ts \<and> version (env_storage env) key t = None
          then map_option (\<lambda>v. \<lparr>tv_txid = stx_txid tx, tv_value = v\<rparr>) (map_of (stx_puts tx) key)
          else version (env_storage env) key t)))"
  using find_conflict_result [OF assms(1), of "stx_read_ts tx" "stx_puts tx"]
proof
  assume "\<exists>key ts v. find_conflict (stx_read_ts tx) (env_storage env) (stx_puts tx) = Inr (True, tv_txid v) \<and>
      key \<in> fst ` set (stx_puts tx) \<and> stx_read_ts tx < ts \<and> version (env_storage env) key ts = Some v"
  then obtain c where "find_conflict (stx_read_ts tx) (env_storage env) (stx_puts tx) = Inr (True, c)"
      and "\<exists>key \<in> fst ` set (stx_puts tx). \<exists>t > stx_read_ts tx. version (env_storage env) key t \<noteq> None"
    by blast
  then show ?thesis
    using assms(2,3)
    by (simp only: if_True) (simp add: process_msg_def process_msg_open_def create_msg_defs retrier_defs)
next
  assume free: "find_conflict (stx_read_ts tx) (env_storage env) (stx_puts tx) = Inr (False, UNDEFINED_TX_ID) \<and>
      (\<forall>key \<in> fst ` set (stx_puts tx). \<forall>ts. version (env_storage env) key ts \<noteq> None \<longrightarrow> ts \<le> stx_read_ts tx)"
  then have "\<not> (\<exists>key \<in> fst ` set (stx_puts tx). \<exists>t > stx_read_ts tx. version (env_storage env) key t \<noteq> None)"
    by fastforce
  with free show ?thesis
    using assms(2,3) apply_puts_ok(2) [OF assms(1)]
    by (simp only: if_False) (simp add: process_msg_def process_msg_open_def create_msg_defs retrier_defs)
qed

text \<open>The messages of a transaction that writes the key 5 twice.\<close>

definition env_init :: tx_env where
  "env_init = \<lparr>env_storage = Map.empty, env_retrier = retrier_init, env_gen = generator_init\<rparr>"

definition twice_msgs :: "message list" where
  "twice_msgs = map (\<lambda>(ty, p). \<lparr>msg_type = ty, msg_source = 2, msg_destination = 1, msg_id = 0, msg_payload = p\<rparr>)
     [(MSG_START, MsgStartPayload 1001 (-1)), (MSG_PUT, MsgPutPayload 1001 5 10),
      (MSG_PUT, MsgPutPayload 1001 5 20), (MSG_COMMIT, MsgCommitPayload 1001)]"

theorem commit_decision_witness:
  "\<exists>tx' env'. process_msg 7 \<lparr>msg_type = MSG_COMMIT, msg_source = 2, msg_destination = 1, msg_id = 0,
      msg_payload = MsgCommitPayload 1001\<rparr>
      ((make_server_tx 1)\<lparr>stx_state := STX_OPEN, stx_txid := 1001, stx_read_ts := 3, stx_puts := [(5, 10)]\<rparr>, env_init) =
      Inr (tx', env') \<and>
    stx_state tx' = STX_COMMITTED \<and> version (env_storage env') 5 7 = Some \<lparr>tv_txid = 1001, tv_value = 10\<rparr>"
  using commit_decision [of env_init "(make_server_tx 1)\<lparr>stx_state := STX_OPEN, stx_txid := 1001,
      stx_read_ts := 3, stx_puts := [(5, 10)]\<rparr>" "\<lparr>msg_type = MSG_COMMIT, msg_source = 2,
      msg_destination = 1, msg_id = 0, msg_payload = MsgCommitPayload 1001\<rparr>" 7]
  by (auto simp: env_init_def storage_ok_def version_def)

text \<open>A put of a key and value, and puts that an open transaction is given at any times.\<close>

definition puts_pair :: "message \<Rightarrow> int \<times> int \<Rightarrow> bool" where
  "puts_pair m p \<longleftrightarrow> msg_type m = MSG_PUT \<and> (\<exists>i. msg_payload m = MsgPutPayload i (fst p) (snd p))"

lemma process_puts:
  assumes "list_all2 (\<lambda>tm. puts_pair (snd tm)) tms ps" and "stx_state tx = STX_OPEN"
  shows "\<exists>env' out. foldE (\<lambda>(t, m). process_msg t m) tms (tx, env) = Inr (tx\<lparr>stx_puts := stx_puts tx @ ps\<rparr>, env') \<and>
    env_storage env' = env_storage env \<and> schedule_msgs (env_retrier env') = schedule_msgs (env_retrier env) @ out \<and>
    map msg_type out = replicate (length ps) MSG_PUT_REPLY"
  using assms
proof (induction tms ps arbitrary: tx env rule: list_all2_induct)
  case Nil
  then show ?case by simp
next
  case (Cons tm tms p ps)
  obtain t m where tm: "tm = (t, m)" by (cases tm)
  obtain i where m: "msg_type m = MSG_PUT" "msg_payload m = MsgPutPayload i (fst p) (snd p)"
    using Cons.hyps(1) by (auto simp: tm puts_pair_def)
  let ?tx = "tx\<lparr>stx_puts := stx_puts tx @ [p]\<rparr>"
  obtain env1 r where one: "process_msg t m (tx, env) = Inr (?tx, env1)" "env_storage env1 = env_storage env"
      "schedule_msgs (env_retrier env1) = schedule_msgs (env_retrier env) @ [r]" "msg_type r = MSG_PUT_REPLY"
    using m Cons.prems by (simp add: process_msg_def process_msg_open_def create_msg_defs send_once_def)
  from Cons.IH [of ?tx env1] Cons.prems obtain env' out where
      "foldE (\<lambda>(t, m). process_msg t m) tms (?tx, env1) = Inr (tx\<lparr>stx_puts := stx_puts tx @ p # ps\<rparr>, env')"
      "env_storage env' = env_storage env" "schedule_msgs (env_retrier env') = schedule_msgs (env_retrier env) @ r # out"
      "map msg_type out = replicate (length ps) MSG_PUT_REPLY"
    using one(2,3) by auto
  with one(1,4) show ?case by (intro exI [of _ env'] exI [of _ "r # out"]) (simp add: tm)
qed

text \<open>C37. Of several puts of a transaction to one key only the first is ever stored. An open transaction that
  is given any puts at any times and then commits without a conflict acknowledges every put and
  the commit, and keeps all the puts; but what a later reader gets for a key is the first value that was
  put, and every other value of the key is dropped without a word.\<close>

theorem second_put_is_lost:
  assumes "storage_ok (env_storage env)" and "stx_state tx = STX_OPEN" and "stx_read_ts tx < ts"
    and "list_all2 (\<lambda>tm. puts_pair (snd tm)) tms ps" and "msg_type m = MSG_COMMIT"
    and "\<forall>key \<in> fst ` set (stx_puts tx @ ps). \<forall>t. version (env_storage env) key t \<noteq> None \<longrightarrow> t \<le> stx_read_ts tx"
  shows "\<exists>tx' env' out. foldE (\<lambda>(t, m). process_msg t m) (tms @ [(ts, m)]) (tx, env) = Inr (tx', env') \<and>
    stx_state tx' = STX_COMMITTED \<and> stx_puts tx' = stx_puts tx @ ps \<and>
    schedule_msgs (env_retrier env') = schedule_msgs (env_retrier env) @ out \<and>
    map msg_type out = replicate (length ps) MSG_PUT_REPLY @ [MSG_COMMIT_ACK] \<and>
    (\<forall>xs key v ys. stx_puts tx @ ps = xs @ (key, v) # ys \<longrightarrow> key \<notin> fst ` set xs \<longrightarrow>
      get_last key (env_storage env') = Inr (Some (ts, \<lparr>tv_txid = stx_txid tx, tv_value = v\<rparr>)))"
proof -
  let ?ps = "stx_puts tx @ ps" and ?tx = "tx\<lparr>stx_puts := stx_puts tx @ ps\<rparr>"
  obtain env1 out where puts: "foldE (\<lambda>(t, m). process_msg t m) tms (tx, env) = Inr (?tx, env1)"
      and env1: "env_storage env1 = env_storage env" "schedule_msgs (env_retrier env1) = schedule_msgs (env_retrier env) @ out"
        "map msg_type out = replicate (length ps) MSG_PUT_REPLY"
    using process_puts [OF assms(4,2)] by blast
  from process_commit_accepted [of env1 ?tx m ts] obtain env' r where
      c: "process_msg ts m (?tx, env1) = Inr (?tx\<lparr>stx_commit_ts := ts, stx_state := STX_COMMITTED\<rparr>, env')"
        "env_storage env' = apply_puts (stx_txid tx) ts ?ps (env_storage env)"
        "schedule_msgs (env_retrier env') = schedule_msgs (env_retrier env1) @ [r]" "msg_type r = MSG_COMMIT_ACK"
    using assms(1,2,5,6) env1(1) by auto
  have last: "get_last key (env_storage env') = Inr (Some (ts, \<lparr>tv_txid = stx_txid tx, tv_value = v\<rparr>))"
    if split: "?ps = xs @ (key, v) # ys" and new: "key \<notin> fst ` set xs" for xs key v ys
  proof -
    have ok: "storage_ok (env_storage env')" unfolding c(2) by (rule apply_puts_ok(1) [OF assms(1)])
    have "key \<in> fst ` set ?ps" unfolding split by simp
    then have old: "\<forall>t. version (env_storage env) key t \<noteq> None \<longrightarrow> t \<le> stx_read_ts tx" using assms(6) by blast
    then have none: "version (env_storage env) key ts = None" using assms(3) by force
    have "map_of xs key = None" using new by (simp add: map_of_eq_None_iff)
    then have "map_of ?ps key = Some v" unfolding split by (simp add: map_add_def)
    with none have now: "version (env_storage env') key ts = Some \<lparr>tv_txid = stx_txid tx, tv_value = v\<rparr>"
      unfolding c(2) apply_puts_ok(2) [OF assms(1)] by simp
    have "t \<le> ts" if "version (env_storage env') key t \<noteq> None" for t
      using that old assms(3) none unfolding c(2) apply_puts_ok(2) [OF assms(1)] by (auto split: if_splits)
    moreover obtain r where "get_last key (env_storage env') = Inr r" using vs.latest_total [OF ok] by blast
    ultimately show ?thesis
      using vs.latest_some [OF ok] vs.latest_none [OF ok] now
      by (cases r) (auto, metis option.distinct(1) order_antisym, metis option.distinct(1) option.inject order_antisym)
  qed
  show ?thesis
    by (intro exI [of _ "?tx\<lparr>stx_commit_ts := ts, stx_state := STX_COMMITTED\<rparr>"] exI [of _ env'] exI [of _ "out @ [r]"] conjI)
      (use puts c env1 last in \<open>simp_all add: foldE_append\<close>)
qed

theorem second_put_is_lost_witness:
  "\<exists>tx env. foldE (\<lambda>(t, m). process_msg t m) (map (Pair 7) (tl twice_msgs))
      ((make_server_tx 1)\<lparr>stx_state := STX_OPEN, stx_txid := 1001, stx_read_ts := 3\<rparr>, env_init) = Inr (tx, env) \<and>
    stx_puts tx = [(5, 10), (5, 20)] \<and>
    get_last 5 (env_storage env) = Inr (Some (7, \<lparr>tv_txid = 1001, tv_value = 10\<rparr>))"
proof -
  let ?tx = "(make_server_tx 1)\<lparr>stx_state := STX_OPEN, stx_txid := 1001, stx_read_ts := 3\<rparr>"
  let ?tms = "map (Pair (7 :: int)) (butlast (tl twice_msgs))" and ?ps = "[(5, 10), (5, 20)] :: (int \<times> int) list"
  have all: "map (Pair (7 :: int)) (tl twice_msgs) = ?tms @ [(7, last twice_msgs)]" and none: "stx_puts ?tx = []"
    by (simp_all add: twice_msgs_def make_server_tx_def)
  have puts: "list_all2 (\<lambda>tm. puts_pair (snd tm)) ?tms ?ps" and commit: "msg_type (last twice_msgs) = MSG_COMMIT"
    by (simp_all add: twice_msgs_def puts_pair_def)
  have env: "storage_ok (env_storage env_init)" and state: "stx_state ?tx = STX_OPEN" "stx_read_ts ?tx < 7"
      and old: "\<forall>key \<in> fst ` set (stx_puts ?tx @ ?ps). \<forall>t. version (env_storage env_init) key t \<noteq> None \<longrightarrow> t \<le> stx_read_ts ?tx"
    by (simp_all add: env_init_def storage_ok_def version_def)
  obtain tx env where "foldE (\<lambda>(t, m). process_msg t m) (?tms @ [(7, last twice_msgs)]) (?tx, env_init) = Inr (tx, env)"
      and "stx_puts tx = stx_puts ?tx @ ?ps"
      and first: "\<forall>xs key v ys. stx_puts ?tx @ ?ps = xs @ (key, v) # ys \<longrightarrow> key \<notin> fst ` set xs \<longrightarrow>
        get_last key (env_storage env) = Inr (Some (7, \<lparr>tv_txid = stx_txid ?tx, tv_value = v\<rparr>))"
    using second_put_is_lost [OF env state puts commit old] by blast
  moreover have "get_last 5 (env_storage env) = Inr (Some (7, \<lparr>tv_txid = stx_txid ?tx, tv_value = 10\<rparr>))"
    by (rule first [rule_format, of "[]" 5 10 "[(5, 20)]"]) (simp_all add: none)
  ultimately show ?thesis unfolding all none by auto
qed

end
