(* ===== verification/Server.thy ===== *)
theory Server
  imports Server_Tx
begin

text \<open>
  \<open>src/tx/server/server.{h,cpp}\<close>: the server actor. A tick routes the messages to their
  transactions, creating them on first sight, and ticks each transaction that has messages at
  a timestamp of its own. The transactions are visited in the order of an \<open>unordered_map\<close>,
  which the standard leaves open: it is the parameter \<open>order\<close>, of which the theorems assume
  only that it lists every entry once.
\<close>

section \<open>The class Server\<close>

record server =
  sv_actor_id :: int
  sv_key_intervals :: "key_interval list"
  sv_proxy :: proxy_runtime
  sv_storage :: storage
  sv_retrier :: retrier
  sv_transactions :: transactions

definition make_server :: "int \<Rightarrow> key_interval list \<Rightarrow> proxy_runtime \<Rightarrow> server" where
  "make_server actor_id intervals proxy = \<lparr>sv_actor_id = actor_id, sv_key_intervals = intervals,
     sv_proxy = proxy, sv_storage = Map.empty, sv_retrier = retrier_init, sv_transactions = Map.empty\<rparr>"

definition route_msg :: "message \<Rightarrow> groups \<Rightarrow> groups result" where
  "route_msg m groups =
     bindE (get_txid_from_msg_payload m) (\<lambda>txid.
       if txid = UNDEFINED_TX_ID then Inl (InvalidArgument ''msg with undefined txid.'')
       else Inr (push_back_at txid m groups))"

definition get_or_create_tx :: "int \<Rightarrow> server \<Rightarrow> server_tx \<times> server" where
  "get_or_create_tx txid s =
     (case sv_transactions s txid of
        Some tx \<Rightarrow> (tx, s)
      | None \<Rightarrow> (let tx = make_server_tx (sv_actor_id s) in
          (tx, s\<lparr>sv_transactions := (sv_transactions s)(txid \<mapsto> tx)\<rparr>)))"

text \<open>The body of the loop over the transactions with messages.\<close>

definition tick_tx :: "int \<times> message list \<Rightarrow> clock \<times> server \<times> generator \<times> message list \<Rightarrow>
    (clock \<times> server \<times> generator \<times> message list) result" where
  "tick_tx = (\<lambda>(txid, tx_msgs) (clock, s, g, scheduled).
     let (tx, s1) = get_or_create_tx txid s; (ts, clock1) = clock_next clock in
     bindE (server_tx_tick ts tx_msgs scheduled
         (tx, \<lparr>env_storage = sv_storage s1, env_retrier = sv_retrier s1, env_gen = g\<rparr>))
       (\<lambda>(scheduled1, tx1, env1).
         Inr (clock1, s1\<lparr>sv_storage := env_storage env1, sv_retrier := env_retrier env1,
           sv_transactions := (sv_transactions s1)(txid \<mapsto> tx1)\<rparr>, env_gen env1, scheduled1)))"

text \<open>The result: the clock, the messages handed to the runtime, and the server.\<close>

definition server_on_tick :: "(groups \<Rightarrow> groups) \<Rightarrow> clock \<Rightarrow> message list \<Rightarrow> server \<times> generator \<Rightarrow>
    (clock \<times> message list \<times> server \<times> generator) result" where
  "server_on_tick order clock msgs s =
     bindE (foldE route_msg msgs []) (\<lambda>groups.
     bindE (foldE tick_tx (order groups) (clock, fst s, snd s, [])) (\<lambda>(clock1, s1, g1, scheduled).
       Inr (clock1, map (proxy_send (sv_proxy s1)) scheduled, s1, g1)))"

section \<open>Routing\<close>

definition groups_ok :: "message list \<Rightarrow> groups \<Rightarrow> bool" where
  "groups_ok msgs groups \<longleftrightarrow> distinct (map fst groups) \<and>
     (\<forall>i ms. (i, ms) \<in> set groups \<longrightarrow> ms \<noteq> [] \<and> i \<noteq> UNDEFINED_TX_ID \<and>
        (\<forall>m \<in> set ms. typed m \<and> payload_txid (msg_payload m) = i)) \<and>
     mset (concat (map snd groups)) = mset msgs"

lemma route_msg_ok:
  assumes "groups_ok msgs g" and "route_msg m g = Inr g'"
  shows "groups_ok (msgs @ [m]) g'"
proof -
  obtain i where i: "get_txid_from_msg_payload m = Inr i" "i \<noteq> UNDEFINED_TX_ID" "g' = push_back_at i m g"
    using assms(2) by (auto simp: route_msg_def result_simps split: if_splits)
  then have "typed m" "payload_txid (msg_payload m) = i" by (auto simp: get_txid_cases)
  with assms(1) i show ?thesis
    unfolding groups_ok_def by (auto simp: push_back_at_distinct push_back_at_mset dest!: push_back_at_in)
qed

lemma route_msgs_ok: "groups_ok ms g \<Longrightarrow> foldE route_msg msgs g = Inr g' \<Longrightarrow> groups_ok (ms @ msgs) g'"
proof (induction msgs arbitrary: ms g)
  case (Cons m msgs)
  then obtain g1 where "route_msg m g = Inr g1" "foldE route_msg msgs g1 = Inr g'"
    by (auto simp: result_simps)
  with Cons.IH [OF route_msg_ok [OF Cons.prems(1)]] show ?case by simp
qed simp

lemma groups_ok_nil: "groups_ok [] []"
  by (simp add: groups_ok_def)

section \<open>The invariant of the server\<close>

definition server_inv :: "int \<Rightarrow> server \<Rightarrow> bool" where
  "server_inv now s \<longleftrightarrow> 0 \<le> now \<and> txs_ok (\<lambda>_. now) (sv_storage s) (sv_transactions s) \<and>
     schedule_msgs (sv_retrier s) = []"

text \<open>What a later state of the server keeps of an earlier one.\<close>

definition server_later :: "server \<Rightarrow> server \<Rightarrow> bool" where
  "server_later s s' \<longleftrightarrow> sv_actor_id s' = sv_actor_id s \<and> sv_proxy s' = sv_proxy s \<and>
     (\<forall>i tx. sv_transactions s i = Some tx \<longrightarrow> (\<exists>tx'. sv_transactions s' i = Some tx' \<and> tx_later tx tx'))"

definition reply_of :: "server \<Rightarrow> message \<Rightarrow> bool" where
  "reply_of s m \<longleftrightarrow> (\<exists>tx. sv_transactions s (payload_txid (msg_payload m)) = Some tx \<and>
     reply_ok (payload_txid (msg_payload m)) tx m)"

lemma server_later_refl: "server_later s s"
  by (auto simp: server_later_def tx_later_refl)

lemma server_later_trans: "server_later a b \<Longrightarrow> server_later b c \<Longrightarrow> server_later a c"
  unfolding server_later_def by (metis tx_later_trans)

lemma reply_of_later: "reply_of s m \<Longrightarrow> server_later s s' \<Longrightarrow> reply_of s' m"
  unfolding reply_of_def server_later_def by (metis reply_ok_later)

lemma reply_of_proxy: "reply_of s (proxy_send p m) \<longleftrightarrow> reply_of s m"
  by (simp add: reply_of_def reply_ok_def)

lemma make_server_inv: "0 \<le> now \<Longrightarrow> server_inv now (make_server a ks p)"
  by (simp add: server_inv_def make_server_def txs_ok_def storage_ok_def store_reflects_def version_def retrier_init_def)

lemma server_inv_mono: "server_inv now s \<Longrightarrow> now \<le> now' \<Longrightarrow> server_inv now' s"
  by (auto simp: server_inv_def intro: txs_ok_mono)

lemma get_or_create_tx_ok:
  assumes "server_inv now s" and "get_or_create_tx i s = (tx, s1)"
  shows "server_inv now s1" and "sv_transactions s1 i = Some tx" and "server_later s s1"
proof -
  have "server_inv now s1 \<and> sv_transactions s1 i = Some tx \<and> server_later s s1"
  proof (cases "sv_transactions s i")
    case None
    then have s1: "tx = make_server_tx (sv_actor_id s)" "s1 = s\<lparr>sv_transactions := (sv_transactions s)(i \<mapsto> tx)\<rparr>"
      using assms(2) by (auto simp: get_or_create_tx_def Let_def)
    have "txs_ok (\<lambda>_. now) (sv_storage s) ((sv_transactions s)(i \<mapsto> tx))"
      using assms(1) None s1(1)
      by (intro txs_ok_update) (auto simp: server_inv_def make_server_tx_def tx_ok_def)
    with s1 None assms(1) show ?thesis by (auto simp: server_inv_def server_later_def tx_later_refl)
  next
    case (Some a)
    with assms show ?thesis by (auto simp: get_or_create_tx_def server_later_refl)
  qed
  then show "server_inv now s1" and "sv_transactions s1 i = Some tx" and "server_later s s1" by auto
qed

lemma tick_tx_ok:
  assumes inv: "server_inv (tm clock) s" and ms: "\<forall>m \<in> set ms. typed m \<and> payload_txid (msg_payload m) = i"
    and step: "tick_tx (i, ms) (clock, s, g, scheduled) = Inr (clock', s', g', sent)"
  shows "server_inv (tm clock') s' \<and> tm clock' = tm clock + 1 \<and> server_later s s' \<and>
    (\<exists>out. sent = scheduled @ out \<and> (\<forall>m \<in> set out. reply_of s' m))"
proof -
  obtain tx s1 where get: "get_or_create_tx i s = (tx, s1)" by (cases "get_or_create_tx i s") auto
  note one = get_or_create_tx_ok [OF inv get]
  let ?env = "\<lparr>env_storage = sv_storage s1, env_retrier = sv_retrier s1, env_gen = g\<rparr>"
  obtain tx1 env1 where run: "server_tx_tick (tm clock + 1) ms scheduled (tx, ?env) = Inr (sent, tx1, env1)"
      and fin: "clock' = clock\<lparr>tm := tm clock + 1\<rparr>"
        "s' = s1\<lparr>sv_storage := env_storage env1, sv_retrier := env_retrier env1,
           sv_transactions := (sv_transactions s1)(i \<mapsto> tx1)\<rparr>"
    using step get by (auto simp: tick_tx_def clock_next_def Let_def result_simps)
  let ?B = "\<lambda>j. if j = i then tm clock + 1 else tm clock"
  have "txs_ok ?B (env_storage ?env) (sv_transactions s1)"
    using one(1) by (auto simp: server_inv_def intro: txs_ok_mono)
  from server_tx_tick_ok [OF this one(2), of "tm clock + 1", OF _ _ _ ms _ run] one(1) obtain out where
      res: "txs_ok ?B (env_storage env1) ((sv_transactions s1)(i \<mapsto> tx1))" "tx_later tx tx1"
        "schedule_msgs (env_retrier env1) = []" "sent = scheduled @ out" "\<forall>r \<in> set out. reply_ok i tx1 r"
    by (auto simp: server_inv_def)
  have "txs_ok (\<lambda>_. tm clock + 1) (env_storage env1) ((sv_transactions s1)(i \<mapsto> tx1))"
    using res(1) by (rule txs_ok_mono) auto
  then have "server_inv (tm clock') s'" using fin res(3) inv by (simp add: server_inv_def)
  moreover have "server_later s1 s'"
    using fin(2) one(2) res(2) by (auto simp: server_later_def tx_later_refl)
  moreover have "\<forall>m \<in> set out. reply_of s' m"
    using res(5) fin(2) by (auto simp: reply_of_def reply_ok_def)
  ultimately show ?thesis using server_later_trans [OF one(3)] fin(1) res(4) by auto
qed

lemma tick_tx_keeps:
  "tick_tx p (clock, s, g, sent) = Inr (clock1, s1, g1, sent1) \<Longrightarrow>
    tm clock \<le> tm clock1 \<and> sv_actor_id s1 = sv_actor_id s \<and> sv_proxy s1 = sv_proxy s"
  by (cases p) (auto simp: tick_tx_def clock_next_def get_or_create_tx_def Let_def result_simps split: option.splits)

lemma tick_txs_ok:
  assumes "server_inv (tm clock) s" and "\<forall>i ms. (i, ms) \<in> set gs \<longrightarrow> (\<forall>m \<in> set ms. typed m \<and> payload_txid (msg_payload m) = i)"
    and "foldE tick_tx gs (clock, s, g, scheduled) = Inr (clock', s', g', sent)"
  shows "server_inv (tm clock') s' \<and> tm clock \<le> tm clock' \<and> server_later s s' \<and>
    (\<exists>out. sent = scheduled @ out \<and> (\<forall>m \<in> set out. reply_of s' m))"
  using assms
proof (induction gs arbitrary: clock s g scheduled)
  case Nil
  then show ?case by (auto simp: server_later_refl)
next
  case (Cons p gs)
  obtain i ms where p: "p = (i, ms)" by (cases p)
  obtain c1 s1 g1 sent1 where one: "tick_tx (i, ms) (clock, s, g, scheduled) = Inr (c1, s1, g1, sent1)"
      and rest: "foldE tick_tx gs (c1, s1, g1, sent1) = Inr (clock', s', g', sent)"
    using Cons.prems(3) by (auto simp: p result_simps)
  have ms: "\<forall>m \<in> set ms. typed m \<and> payload_txid (msg_payload m) = i" using Cons.prems(2) p by simp
  from tick_tx_ok [OF Cons.prems(1) ms one] obtain out1 where
      a: "server_inv (tm c1) s1" "tm c1 = tm clock + 1" "server_later s s1" "sent1 = scheduled @ out1"
        "\<forall>m \<in> set out1. reply_of s1 m"
    by blast
  from Cons.IH [OF a(1) _ rest] Cons.prems(2) obtain out2 where
      b: "server_inv (tm clock') s'" "tm c1 \<le> tm clock'" "server_later s1 s'" "sent = sent1 @ out2"
        "\<forall>m \<in> set out2. reply_of s' m"
    by auto
  then have "sent = scheduled @ (out1 @ out2) \<and> (\<forall>m \<in> set (out1 @ out2). reply_of s' m)"
    using a(4,5) reply_of_later [OF _ b(3)] by auto
  then show ?case using a b server_later_trans [OF a(3) b(3)] by fastforce
qed

lemma server_on_tick_ok:
  assumes "\<forall>gs. mset (order gs) = mset gs" and "server_inv (tm clock) s"
    and "server_on_tick order clock msgs (s, g) = Inr (clock', out, s', g')"
  shows "server_inv (tm clock') s' \<and> tm clock \<le> tm clock' \<and> server_later s s' \<and> (\<forall>m \<in> set out. reply_of s' m)"
proof -
  obtain gs sent where gs: "foldE route_msg msgs [] = Inr gs"
      and run: "foldE tick_tx (order gs) (clock, s, g, []) = Inr (clock', s', g', sent)"
      and out: "out = map (proxy_send (sv_proxy s')) sent"
    using assms(3) by (auto simp: server_on_tick_def result_simps)
  have "groups_ok msgs gs" using route_msgs_ok [OF groups_ok_nil gs] by simp
  moreover have "set (order gs) = set gs" using assms(1) mset_eq_setD by blast
  ultimately have "\<forall>i ms. (i, ms) \<in> set (order gs) \<longrightarrow> (\<forall>m \<in> set ms. typed m \<and> payload_txid (msg_payload m) = i)"
    by (auto simp: groups_ok_def)
  from tick_txs_ok [OF assms(2) this run] out show ?thesis by (auto simp: reply_of_proxy)
qed

section \<open>Properties\<close>

text \<open>The states a server can reach: between its ticks other actors move the clock and the generator
  on; the messages are arbitrary.\<close>

inductive server_reach :: "(groups \<Rightarrow> groups) \<Rightarrow> clock \<Rightarrow> server \<Rightarrow> bool" for order where
  start: "0 \<le> tm clock \<Longrightarrow> server_reach order clock (make_server a ks p)"
| tick: "server_reach order clock s \<Longrightarrow> tm clock \<le> tm clock1 \<Longrightarrow>
    server_on_tick order clock1 msgs (s, g) = Inr (clock2, out, s2, g2) \<Longrightarrow> server_reach order clock2 s2"

lemma server_reach_inv:
  assumes "\<forall>gs. mset (order gs) = mset gs" and "server_reach order clock s"
  shows "server_inv (tm clock) s"
  using assms(2)
proof (induction rule: server_reach.induct)
  case (start clock a ks p)
  then show ?case by (rule make_server_inv)
next
  case (tick clock s clock1 msgs g clock2 out s2 g2)
  with server_on_tick_ok [OF assms(1) server_inv_mono] show ?case by blast
qed

text \<open>A tick with two whole transactions writing the key 5, for the witnesses.\<close>

definition demo_msgs :: "message list" where
  "demo_msgs = map (\<lambda>(ty, p). \<lparr>msg_type = ty, msg_source = 2, msg_destination = 1, msg_id = 0, msg_payload = p\<rparr>)
     [(MSG_START, MsgStartPayload 1001 (-1)), (MSG_PUT, MsgPutPayload 1001 5 10), (MSG_COMMIT, MsgCommitPayload 1001),
      (MSG_START, MsgStartPayload 1002 (-1)), (MSG_PUT, MsgPutPayload 1002 5 20), (MSG_COMMIT, MsgCommitPayload 1002)]"

definition demo_server :: server where
  "demo_server = make_server 1 [] (make_proxy_runtime 1)"

lemmas server_eval = server_on_tick_def tick_tx_def route_msg_def get_txid_from_msg_payload_def UNDEFINED_TX_ID_def
  get_or_create_tx_def server_tx_tick_def process_msg_def process_msg_not_started_def process_msg_open_def
  create_msg_defs retrier_defs retrier_init_def apply_puts_def storage_apply_def get_last_def
  generator_init_def make_server_def make_server_tx_def make_proxy_runtime_def clock_init_def clock_next_def

lemma demo_run:
  "\<exists>c out s g a b. server_on_tick (\<lambda>gs. gs) clock_init demo_msgs (demo_server, generator_init) = Inr (c, out, s, g) \<and>
    sv_transactions s 1001 = Some a \<and> sv_transactions s 1002 = Some b \<and>
    stx_state a = STX_COMMITTED \<and> stx_state b = STX_COMMITTED \<and> stx_puts a = [(5, 10)] \<and> stx_puts b = [(5, 20)] \<and>
    stx_commit_ts a = 1 \<and> stx_read_ts b = 2 \<and> stx_commit_ts b = 2 \<and> length out = 6"
  by (simp add: demo_msgs_def demo_server_def server_eval)

lemma demo_reach:
  assumes "server_on_tick (\<lambda>gs. gs) clock_init demo_msgs (demo_server, generator_init) = Inr (c, out, s, g)"
  shows "server_reach (\<lambda>gs. gs) c s"
proof -
  have "server_reach (\<lambda>gs. gs) clock_init demo_server"
    unfolding demo_server_def by (rule server_reach.start) (simp add: clock_init_def)
  from server_reach.tick [OF this order_refl assms] show ?thesis .
qed

text \<open>C1. First committer wins, in every state the server reaches whatever messages arrive and in
  whatever order it visits its transactions: of two committed transactions that wrote a common
  key, one committed no later than the snapshot the other read from.\<close>

theorem first_committer_wins:
  assumes "\<forall>gs. mset (order gs) = mset gs" and "server_reach order clock s"
    and "sv_transactions s i = Some a" and "sv_transactions s j = Some b" and "i \<noteq> j"
    and "stx_state a = STX_COMMITTED" and "stx_state b = STX_COMMITTED"
    and "key \<in> fst ` set (stx_puts a)" and "key \<in> fst ` set (stx_puts b)"
  shows "stx_commit_ts a \<le> stx_read_ts b \<or> stx_commit_ts b \<le> stx_read_ts a"
proof -
  have "no_overlap a b"
    using server_reach_inv [OF assms(1,2)] assms(3-5) by (auto simp: server_inv_def txs_ok_def)
  with assms(6-9) show ?thesis by (auto simp: no_overlap_def)
qed

theorem first_committer_wins_witness:
  "\<exists>c out s g a b. server_on_tick (\<lambda>gs. gs) clock_init demo_msgs (demo_server, generator_init) = Inr (c, out, s, g) \<and>
    sv_transactions s 1001 = Some a \<and> sv_transactions s 1002 = Some b \<and>
    (stx_commit_ts a \<le> stx_read_ts b \<or> stx_commit_ts b \<le> stx_read_ts a)"
proof -
  obtain c out s g a b where run: "server_on_tick (\<lambda>gs. gs) clock_init demo_msgs (demo_server, generator_init) = Inr (c, out, s, g)"
      and tx: "sv_transactions s 1001 = Some a" "sv_transactions s 1002 = Some b" "stx_state a = STX_COMMITTED"
        "stx_state b = STX_COMMITTED" "stx_puts a = [(5, 10)]" "stx_puts b = [(5, 20)]"
    using demo_run by blast
  have "stx_commit_ts a \<le> stx_read_ts b \<or> stx_commit_ts b \<le> stx_read_ts a"
    by (rule first_committer_wins [OF _ demo_reach [OF run] tx(1,2) _ tx(3,4), of 5]) (simp_all add: tx)
  with run tx show ?thesis by blast
qed

text \<open>C2. In every state the server reaches, the storage holds exactly the writes of the committed
  transactions: a version of a key at a timestamp is the first value some transaction that
  committed at that timestamp put to the key, and every such value is there.\<close>

theorem storage_is_committed_writes:
  assumes "\<forall>gs. mset (order gs) = mset gs" and "server_reach order clock s"
  shows "version (sv_storage s) key ts = Some v \<longleftrightarrow>
    (\<exists>tx. sv_transactions s (tv_txid v) = Some tx \<and> stx_state tx = STX_COMMITTED \<and> stx_commit_ts tx = ts \<and>
      map_of (stx_puts tx) key = Some (tv_value v))"
  using server_reach_inv [OF assms] by (simp add: server_inv_def txs_ok_def store_reflects_def)

theorem storage_is_committed_writes_witness:
  "\<exists>c out s g. server_on_tick (\<lambda>gs. gs) clock_init demo_msgs (demo_server, generator_init) = Inr (c, out, s, g) \<and>
    version (sv_storage s) 5 1 = Some \<lparr>tv_txid = 1001, tv_value = 10\<rparr>"
proof -
  obtain c out s g a where run: "server_on_tick (\<lambda>gs. gs) clock_init demo_msgs (demo_server, generator_init) = Inr (c, out, s, g)"
      and tx: "sv_transactions s 1001 = Some a" "stx_state a = STX_COMMITTED" "stx_puts a = [(5, 10)]" "stx_commit_ts a = 1"
    using demo_run by blast
  have "version (sv_storage s) 5 1 = Some \<lparr>tv_txid = 1001, tv_value = 10\<rparr>"
    by (rule storage_is_committed_writes [OF _ demo_reach [OF run], THEN iffD2]) (simp_all add: tx)
  with run show ?thesis by blast
qed

text \<open>C3. A tick of the server only moves transactions forward: the identity and snapshot of an open
  one stay, a decided one stays as it is. Every message it sends is true of the transaction it
  names: an acknowledged start gives its snapshot, an acknowledged commit its commit timestamp,
  a rollback goes only to a rolled back one.\<close>

theorem server_replies_truthful:
  assumes "\<forall>gs. mset (order gs) = mset gs" and "server_reach order clock s" and "tm clock \<le> tm clock1"
    and "server_on_tick order clock1 msgs (s, g) = Inr (clock2, out, s2, g2)"
  shows "(\<forall>i tx. sv_transactions s i = Some tx \<longrightarrow> (\<exists>tx'. sv_transactions s2 i = Some tx' \<and> tx_later tx tx')) \<and>
    (\<forall>m \<in> set out. \<exists>tx. sv_transactions s2 (payload_txid (msg_payload m)) = Some tx \<and>
      reply_ok (payload_txid (msg_payload m)) tx m)"
proof -
  have "server_inv (tm clock1) s" using server_inv_mono [OF server_reach_inv [OF assms(1,2)] assms(3)] .
  from server_on_tick_ok [OF assms(1) this assms(4)] show ?thesis
    by (simp add: server_later_def reply_of_def)
qed

theorem server_replies_truthful_witness:
  "\<exists>c out s g. server_on_tick (\<lambda>gs. gs) clock_init demo_msgs (demo_server, generator_init) = Inr (c, out, s, g) \<and>
    length out = 6 \<and> (\<forall>m \<in> set out. \<exists>tx. sv_transactions s (payload_txid (msg_payload m)) = Some tx \<and>
      reply_ok (payload_txid (msg_payload m)) tx m)"
proof -
  obtain c out s g where run: "server_on_tick (\<lambda>gs. gs) clock_init demo_msgs (demo_server, generator_init) = Inr (c, out, s, g)"
      and len: "length out = 6"
    using demo_run by blast
  have "server_reach (\<lambda>gs. gs) clock_init demo_server"
    unfolding demo_server_def by (rule server_reach.start) (simp add: clock_init_def)
  from server_replies_truthful [OF _ this order_refl run] run len show ?thesis by auto
qed

end
