(* ===== verification/Concurrent_Writers.thy ===== *)
theory Concurrent_Writers
  imports Server
begin

text \<open>
  Two transactions that ask the server (\<open>src/tx/server/server.cpp\<close>) for the commit in the same tick: what
  decides between them is the order in which the tick visits the transactions, an \<open>unordered_map\<close>.
\<close>

section \<open>One commit in a tick\<close>

lemma tick_tx_one:
  assumes "sv_transactions s i = Some tx"
    and "process_msg (tm clock + 1) m (tx, \<lparr>env_storage = sv_storage s, env_retrier = sv_retrier s, env_gen = g\<rparr>) = Inr (tx1, env1)"
  shows "\<exists>c1 s1 g1 sent1. tick_tx (i, [m]) (clock, s, g, sent) = Inr (c1, s1, g1, sent1) \<and> tm c1 = tm clock + 1 \<and>
    sv_storage s1 = env_storage env1 \<and> sv_transactions s1 = (sv_transactions s)(i \<mapsto> tx1)"
  using assms by (simp add: tick_tx_def get_or_create_tx_def clock_next_def server_tx_tick_def get_scheduled_msgs_def Let_def)

text \<open>A transaction that no committed one has overtaken.\<close>

definition up_to_date :: "storage \<Rightarrow> server_tx \<Rightarrow> bool" where
  "up_to_date st tx \<longleftrightarrow> (\<forall>key \<in> fst ` set (stx_puts tx). \<forall>t. version st key t \<noteq> None \<longrightarrow> t \<le> stx_read_ts tx)"

definition commits_and_rolls_back :: "server \<Rightarrow> int \<Rightarrow> int \<Rightarrow> bool" where
  "commits_and_rolls_back s x y \<longleftrightarrow>
     (\<exists>tx. sv_transactions s x = Some tx \<and> stx_state tx = STX_COMMITTED) \<and>
     (\<exists>ty. sv_transactions s y = Some ty \<and> stx_state ty = STX_ROLLED_BACK_BY_SERVER)"

lemma two_commits:
  assumes inv: "server_inv (tm clock) s" and x: "sv_transactions s x = Some a" "stx_state a = STX_OPEN" "msg_type mx = MSG_COMMIT"
    and y: "sv_transactions s y = Some b" "stx_state b = STX_OPEN" "msg_type my = MSG_COMMIT"
    and old: "up_to_date (sv_storage s) a" and xy: "x \<noteq> y"
    and key: "key \<in> fst ` set (stx_puts a)" "key \<in> fst ` set (stx_puts b)"
  shows "\<exists>c1 s1 g1 sent1. foldE tick_tx [(x, [mx]), (y, [my])] (clock, s, g, sent) = Inr (c1, s1, g1, sent1) \<and>
    commits_and_rolls_back s1 x y"
proof -
  let ?ts = "tm clock + 1" and ?env = "\<lparr>env_storage = sv_storage s, env_retrier = sv_retrier s, env_gen = g\<rparr>"
  have ok: "txs_ok (\<lambda>_. tm clock) (sv_storage s) (sv_transactions s)" using inv by (simp add: server_inv_def)
  note d = txs_okD [OF ok]
  have ts: "stx_txid a = x" "stx_read_ts a \<le> tm clock" "stx_read_ts b \<le> tm clock"
    using d(3) [OF x(1)] d(3) [OF y(1)] x(2) y(2) by (simp_all add: tx_ok_def)
  obtain env1 where one: "process_msg ?ts mx (a, ?env) = Inr (a\<lparr>stx_commit_ts := ?ts, stx_state := STX_COMMITTED\<rparr>, env1)"
      and st1: "env_storage env1 = apply_puts x ?ts (stx_puts a) (sv_storage s)"
    using process_commit_accepted [of ?env a mx ?ts] d(1) x(2,3) old ts(1) by (auto simp: up_to_date_def)
  obtain c1 s1 g1 sent1 where s1: "tick_tx (x, [mx]) (clock, s, g, sent) = Inr (c1, s1, g1, sent1)"
      "sv_storage s1 = apply_puts x ?ts (stx_puts a) (sv_storage s)"
      "sv_transactions s1 = (sv_transactions s)(x \<mapsto> a\<lparr>stx_commit_ts := ?ts, stx_state := STX_COMMITTED\<rparr>)"
    using tick_tx_one [OF x(1) one, of sent] unfolding st1 by blast
  obtain v where "map_of (stx_puts a) key = Some v" using key(1) by (metis domD dom_map_of_conv_image_fst)
  then have "version (sv_storage s1) key ?ts \<noteq> None"
    unfolding s1(2) apply_puts_ok(2) [OF d(1)] by (cases "version (sv_storage s) key ?ts") simp_all
  moreover have "storage_ok (sv_storage s1)" unfolding s1(2) by (rule apply_puts_ok(1) [OF d(1)])
  ultimately obtain env2 where
      two: "process_msg (tm c1 + 1) my (b, \<lparr>env_storage = sv_storage s1, env_retrier = sv_retrier s1, env_gen = g1\<rparr>) =
        Inr (b\<lparr>stx_commit_ts := tm c1 + 1, stx_state := STX_ROLLED_BACK_BY_SERVER\<rparr>, env2)"
    using process_commit_rejected [of "\<lparr>env_storage = sv_storage s1, env_retrier = sv_retrier s1, env_gen = g1\<rparr>" b my key ?ts]
      y(2,3) key(2) ts(3) by auto
  have "sv_transactions s1 y = Some b" using s1(3) y(1) xy by simp
  from tick_tx_one [OF this two, of sent1] obtain c2 s2 g2 sent2 where s2: "tick_tx (y, [my]) (c1, s1, g1, sent1) = Inr (c2, s2, g2, sent2)"
      "sv_transactions s2 = (sv_transactions s1)(y \<mapsto> b\<lparr>stx_commit_ts := tm c1 + 1, stx_state := STX_ROLLED_BACK_BY_SERVER\<rparr>)"
    by blast
  then have "commits_and_rolls_back s2 x y" using s1(3) xy by (simp add: commits_and_rolls_back_def)
  with s1(1) s2(1) show ?thesis by simp
qed

section \<open>Properties\<close>

text \<open>C34. Of two concurrent writers of a key that both could commit, and whose commit messages reach the server in
  the same tick, the one that the tick visits first commits and the other is rolled back, whichever of
  them that is: neither the order of the messages nor the snapshots nor the values matter. The order of
  visits is the one of an \<open>unordered_map\<close>, which C++ leaves open.\<close>

theorem concurrent_writers_decided_by_order:
  assumes "\<forall>gs. mset (order gs) = mset gs" and "server_reach order clock s" and "tm clock \<le> tm clock1"
    and "sv_transactions s i = Some a" and "stx_state a = STX_OPEN" and "up_to_date (sv_storage s) a"
    and "sv_transactions s j = Some b" and "stx_state b = STX_OPEN" and "up_to_date (sv_storage s) b"
    and "i \<noteq> j" and "UNDEFINED_TX_ID \<notin> {i, j}" and "key \<in> fst ` set (stx_puts a)" and "key \<in> fst ` set (stx_puts b)"
    and "msg_type mi = MSG_COMMIT" and "msg_payload mi = MsgCommitPayload i"
    and "msg_type mj = MSG_COMMIT" and "msg_payload mj = MsgCommitPayload j"
  shows "\<exists>clock2 out s2 g2. server_on_tick order clock1 [mi, mj] (s, g) = Inr (clock2, out, s2, g2) \<and>
    (if order [(i, [mi]), (j, [mj])] = [(i, [mi]), (j, [mj])] then commits_and_rolls_back s2 i j
     else order [(i, [mi]), (j, [mj])] = [(j, [mj]), (i, [mi])] \<and> commits_and_rolls_back s2 j i)"
proof -
  let ?gs = "[(i, [mi]), (j, [mj])]"
  have inv: "server_inv (tm clock1) s" using server_inv_mono [OF server_reach_inv [OF assms(1,2)] assms(3)] .
  have groups: "foldE route_msg [mi, mj] [] = Inr ?gs"
    using assms(10,11,14-17) by (simp add: route_msg_def get_txid_from_msg_payload_def)
  have perm: "mset (order ?gs) = mset ?gs" using assms(1) by blast
  have len: "length (order ?gs) = 2" using mset_eq_length [OF perm] by simp
  have elems: "set (order ?gs) = set ?gs" by (rule mset_eq_setD [OF perm])
  from len obtain p q where pq: "order ?gs = [p, q]" by (auto simp: length_Suc_conv numeral_2_eq_2)
  then have two: "order ?gs = ?gs \<or> order ?gs = [(j, [mj]), (i, [mi])]"
    using elems assms(10) unfolding pq list.set by (auto simp: doubleton_eq_iff)
  note ij = two_commits [OF inv assms(4,5,14,7,8,16,6,10,12,13), of g "[]"]
  note ji = two_commits [OF inv assms(7,8,16,4,5,14,9) assms(10) [symmetric] assms(13,12), of g "[]"]
  have tick: "\<exists>clock2 out. server_on_tick order clock1 [mi, mj] (s, g) = Inr (clock2, out, s2, g2)"
    if "foldE tick_tx (order ?gs) (clock1, s, g, []) = Inr (c2, s2, g2, sent)" for c2 s2 g2 sent
    unfolding server_on_tick_def groups bindE_simps fst_conv snd_conv that by simp
  show ?thesis
  proof (cases "order ?gs = ?gs")
    case True
    obtain c2 s2 g2 sent where r: "foldE tick_tx ?gs (clock1, s, g, []) = Inr (c2, s2, g2, sent)" "commits_and_rolls_back s2 i j"
      using ij by blast
    show ?thesis unfolding if_P [OF True] using tick [unfolded True, OF r(1)] r(2) unfolding True by blast
  next
    case False
    then have rev: "order ?gs = [(j, [mj]), (i, [mi])]" using two by blast
    obtain c2 s2 g2 sent where r: "foldE tick_tx [(j, [mj]), (i, [mi])] (clock1, s, g, []) = Inr (c2, s2, g2, sent)"
        "commits_and_rolls_back s2 j i"
      using ji by blast
    show ?thesis unfolding if_not_P [OF False] using tick [unfolded rev, OF r(1)] r(2) rev by blast
  qed
qed

text \<open>Two transactions that were opened in one tick and wrote the key 5.\<close>

definition open_msgs :: "message list" where
  "open_msgs = map (\<lambda>(ty, p). \<lparr>msg_type = ty, msg_source = 2, msg_destination = 1, msg_id = 0, msg_payload = p\<rparr>)
     [(MSG_START, MsgStartPayload 1001 (-1)), (MSG_PUT, MsgPutPayload 1001 5 10),
      (MSG_START, MsgStartPayload 1002 (-1)), (MSG_PUT, MsgPutPayload 1002 5 20)]"

definition commit_msg :: "int \<Rightarrow> message" where
  "commit_msg i = \<lparr>msg_type = MSG_COMMIT, msg_source = 2, msg_destination = 1, msg_id = 0, msg_payload = MsgCommitPayload i\<rparr>"

lemma open_run:
  "\<exists>c out s g a b. server_on_tick rev clock_init open_msgs (demo_server, generator_init) = Inr (c, out, s, g) \<and>
    sv_transactions s 1001 = Some a \<and> sv_transactions s 1002 = Some b \<and> stx_state a = STX_OPEN \<and> stx_state b = STX_OPEN \<and>
    stx_puts a = [(5, 10)] \<and> stx_puts b = [(5, 20)] \<and> sv_storage s = Map.empty"
  by (simp add: open_msgs_def demo_server_def server_eval)

theorem concurrent_writers_decided_by_order_witness:
  "\<exists>c out s g c2 out2 s2 g2. server_on_tick rev clock_init open_msgs (demo_server, generator_init) = Inr (c, out, s, g) \<and>
    server_on_tick rev c [commit_msg 1001, commit_msg 1002] (s, g) = Inr (c2, out2, s2, g2) \<and> commits_and_rolls_back s2 1002 1001"
proof -
  obtain c out s g a b where run: "server_on_tick rev clock_init open_msgs (demo_server, generator_init) = Inr (c, out, s, g)"
      and a: "sv_transactions s 1001 = Some a" "stx_state a = STX_OPEN" and b: "sv_transactions s 1002 = Some b" "stx_state b = STX_OPEN"
      and puts: "stx_puts a = [(5, 10)]" "stx_puts b = [(5, 20)]" and st: "sv_storage s = Map.empty"
    using open_run by blast
  have "server_reach rev clock_init demo_server"
    unfolding demo_server_def by (rule server_reach.start) (simp add: clock_init_def)
  from server_reach.tick [OF this order_refl run] have reach: "server_reach rev c s" .
  have rev: "\<forall>gs :: groups. mset (rev gs) = mset gs" by simp
  have old: "up_to_date (sv_storage s) a" "up_to_date (sv_storage s) b" by (simp_all add: up_to_date_def st version_def)
  have keys: "5 \<in> fst ` set (stx_puts a)" "5 \<in> fst ` set (stx_puts b)" by (simp_all add: puts)
  have ids: "(1001 :: int) \<noteq> 1002" "UNDEFINED_TX_ID \<notin> {1001, 1002}" by (simp_all add: UNDEFINED_TX_ID_def)
  let ?gs = "[(1001, [commit_msg 1001]), (1002, [commit_msg 1002])] :: groups"
  have "\<exists>c2 out2 s2 g2. server_on_tick rev c [commit_msg 1001, commit_msg 1002] (s, g) = Inr (c2, out2, s2, g2) \<and>
      (if rev ?gs = ?gs then commits_and_rolls_back s2 1001 1002
       else rev ?gs = [(1002, [commit_msg 1002]), (1001, [commit_msg 1001])] \<and> commits_and_rolls_back s2 1002 1001)"
    by (rule concurrent_writers_decided_by_order [OF rev reach order_refl a old(1) b old(2) ids keys]) (simp_all add: commit_msg_def)
  then show ?thesis using run by auto
qed

end
