(* ===== verification/Client_Tx.thy ===== *)
theory Client_Tx
  imports Services
begin

text \<open>
  \<open>src/tx/client/{tx_spec.h,requests_manager,tx_participant,client_tx}\<close>: one transaction on the
  client. It follows a specification: start, put the listed values one per tick, wait for every
  acknowledgement, commit. A participant is its connection to one server and owns the table of
  its requests.

  The participants are an \<open>unordered_map\<close>; as the discovery serves single-server systems only,
  it never has more than one entry, and is an association list here. The outbox and the
  generator it shares with its siblings are the record \<open>cl_env\<close>.
\<close>

section \<open>Specifications\<close>

record client_tx_get =
  cg_earliest_ts :: int
  cg_key :: int

record client_tx_put =
  cp_earliest_ts :: int
  cp_key :: int
  cp_value :: int

datatype tx_action = ACTION_UNDEFINED | ACTION_COMMIT | ACTION_ROLLBACK

record tx_spec =
  earliest_start_ts :: int
  earliest_commit_ts :: int
  spec_gets :: "client_tx_get list"
  spec_puts :: "client_tx_put list"
  spec_action :: tx_action

section \<open>The class RequestsManager\<close>

record cl_env =
  ce_retrier :: retrier
  ce_gen :: generator

datatype request_status = REQUEST_NOT_STARTED | REQUEST_START | REQUEST_COMPLETED

record request_state =
  rs_status :: request_status
  rs_key :: int
  rs_value :: int

record requests_manager =
  puts_table_status :: "request_state list"
  rm_next_put :: nat
  rm_completed_puts :: nat
  table_scheduled_puts :: "u32 \<Rightarrow> nat option"

definition make_requests_manager :: requests_manager where
  "make_requests_manager = \<lparr>puts_table_status = [], rm_next_put = 0, rm_completed_puts = 0,
     table_scheduled_puts = Map.empty\<rparr>"

definition complete_request :: "u32 \<Rightarrow> requests_manager \<Rightarrow> requests_manager result" where
  "complete_request original_msg_id rm =
     (case table_scheduled_puts rm original_msg_id of
        None \<Rightarrow> Inr rm
      | Some old_next_put \<Rightarrow>
          (let tab = puts_table_status rm in
           bindE (definedE (old_next_put < length tab) ''puts_table_status_[old_next_put]'') (\<lambda>_.
             if rs_status (tab ! old_next_put) = REQUEST_START
             then Inr (rm\<lparr>puts_table_status := tab[old_next_put := (tab ! old_next_put)\<lparr>rs_status := REQUEST_COMPLETED\<rparr>],
                    rm_completed_puts := rm_completed_puts rm + 1\<rparr>)
             else Inr rm)))"

definition rm_add_put :: "int \<Rightarrow> int \<Rightarrow> requests_manager \<Rightarrow> requests_manager" where
  "rm_add_put key value rm = rm\<lparr>puts_table_status := puts_table_status rm @
     [\<lparr>rs_status = REQUEST_NOT_STARTED, rs_key = key, rs_value = value\<rparr>]\<rparr>"

text \<open>The body of the loop of \<open>prepare_msg\<close> at \<open>next_put_ = k\<close>; the scheduler is the retrier's.\<close>

definition prepare_put :: "int \<Rightarrow> int \<Rightarrow> int \<Rightarrow> int \<Rightarrow> nat \<Rightarrow> requests_manager \<times> cl_env \<Rightarrow> requests_manager \<times> cl_env" where
  "prepare_put client_id coordinator txid ts k = (\<lambda>(rm, env).
     let rs = puts_table_status rm ! k;
         (m, g) = create_msg_put client_id coordinator txid (rs_key rs) (rs_value rs) (ce_gen env);
         (_, r) = schedule ts m (ce_retrier env) in
     (rm\<lparr>puts_table_status := (puts_table_status rm)[k := rs\<lparr>rs_status := REQUEST_START\<rparr>],
        table_scheduled_puts := (table_scheduled_puts rm)(msg_id m \<mapsto> k), rm_next_put := k + 1\<rparr>,
      env\<lparr>ce_gen := g, ce_retrier := r\<rparr>))"

definition prepare_msg :: "int \<Rightarrow> int \<Rightarrow> int \<Rightarrow> int \<Rightarrow> requests_manager \<times> cl_env \<Rightarrow> requests_manager \<times> cl_env" where
  "prepare_msg client_id coordinator txid ts s =
     fold (prepare_put client_id coordinator txid ts) [rm_next_put (fst s)..<length (puts_table_status (fst s))] s"

definition rm_export_results :: "requests_manager \<Rightarrow> (int \<times> int) list \<Rightarrow> (int \<times> int) list" where
  "rm_export_results rm puts =
     puts @ map (\<lambda>rs. (rs_key rs, rs_value rs)) (filter (\<lambda>rs. rs_status rs = REQUEST_COMPLETED) (puts_table_status rm))"

section \<open>The class TxParticipant\<close>

datatype participant_state = P_NOT_STARTED | P_START_MSG_SENT | P_TX_OPEN

record tx_participant =
  p_client :: int
  p_coordinator :: int
  p_requests :: requests_manager
  p_txid :: int
  p_read_ts :: int
  p_state :: participant_state

definition make_tx_participant :: "int \<Rightarrow> int \<Rightarrow> tx_participant" where
  "make_tx_participant client_id coordinator = \<lparr>p_client = client_id, p_coordinator = coordinator,
     p_requests = make_requests_manager, p_txid = UNDEFINED_TX_ID, p_read_ts = UNDEFINED_TS, p_state = P_NOT_STARTED\<rparr>"

definition schedule_start_msg :: "int \<Rightarrow> tx_participant \<times> cl_env \<Rightarrow> (tx_participant \<times> cl_env) result" where
  "schedule_start_msg ts s =
     (let p = fst s; env = snd s; (m, g) = create_msg_start (p_client p) (p_coordinator p) (ce_gen env) in
      bindE (get_txid_from_msg_payload m) (\<lambda>txid.
      bindE (assertE (txid \<noteq> UNDEFINED_TX_ID) ''txid_ != UNDEFINED_TX_ID'') (\<lambda>_.
        let (_, r) = schedule ts m (ce_retrier env) in
        Inr (p\<lparr>p_txid := txid, p_state := P_START_MSG_SENT\<rparr>, env\<lparr>ce_gen := g, ce_retrier := r\<rparr>))))"

definition participant_txid :: "tx_participant \<Rightarrow> int result" where
  "participant_txid p = bindE (assertE (p_txid p \<noteq> UNDEFINED_TX_ID) ''txid_ != UNDEFINED_TX_ID'') (\<lambda>_. Inr (p_txid p))"

definition participant_read_ts :: "tx_participant \<Rightarrow> int result" where
  "participant_read_ts p = bindE (assertE (p_read_ts p \<noteq> UNDEFINED_TS) ''read_ts_ != UNDEFINED_TS'') (\<lambda>_. Inr (p_read_ts p))"

definition is_open :: "tx_participant \<Rightarrow> bool" where
  "is_open p \<longleftrightarrow> p_state p = P_TX_OPEN"

text \<open>The loop of \<open>process_replies_start_sent\<close> over the timestamp of the last acknowledgement.\<close>

definition read_start_ack :: "message \<Rightarrow> int \<Rightarrow> int result" where
  "read_start_ack m ts =
     (case msg_type m of
        MSG_START_ACK \<Rightarrow> bindE (get_ack_start (msg_payload m)) (\<lambda>(_, read_ts).
          bindE (assertE (read_ts \<noteq> UNDEFINED_TS) ''ts != UNDEFINED_TS'') (\<lambda>_. Inr read_ts))
      | _ \<Rightarrow> Inl (LogicError ''process_replies_start_sent work only with MSG_START_ACK''))"

definition participant_replies_start_sent :: "message list \<Rightarrow> tx_participant \<Rightarrow> tx_participant result" where
  "participant_replies_start_sent msgs p =
     (if msgs = [] then Inr p
      else bindE (foldE read_start_ack msgs UNDEFINED_TS) (\<lambda>ts.
           bindE (assertE (p_read_ts p = UNDEFINED_TS) ''read_ts_ == UNDEFINED_TS'') (\<lambda>_.
           bindE (assertE (ts \<noteq> UNDEFINED_TS) ''ts != UNDEFINED_TS'') (\<lambda>_.
             Inr (p\<lparr>p_read_ts := ts, p_state := P_TX_OPEN\<rparr>)))))"

definition participant_reply_open :: "message \<Rightarrow> tx_participant \<Rightarrow> tx_participant result" where
  "participant_reply_open m p =
     (case msg_type m of
        MSG_PUT_REPLY \<Rightarrow> bindE (get_put_reply (msg_payload m)) (\<lambda>(_, original_msg_id).
          bindE (complete_request original_msg_id (p_requests p)) (\<lambda>rm. Inr (p\<lparr>p_requests := rm\<rparr>)))
      | _ \<Rightarrow> Inr p)"

definition process_incoming :: "int \<Rightarrow> message list \<Rightarrow> tx_participant \<Rightarrow> tx_participant result" where
  "process_incoming ts msgs p =
     (case p_state p of
        P_NOT_STARTED \<Rightarrow> Inl (InvalidArgument ''process_incoming not working with NOT_STARTED state'')
      | P_START_MSG_SENT \<Rightarrow> participant_replies_start_sent msgs p
      | P_TX_OPEN \<Rightarrow> foldE participant_reply_open msgs p)"

definition schedule_requests :: "int \<Rightarrow> tx_participant \<times> cl_env \<Rightarrow> tx_participant \<times> cl_env" where
  "schedule_requests ts = (\<lambda>(p, env).
     if p_state p \<noteq> P_TX_OPEN then (p, env)
     else (let (rm, env') = prepare_msg (p_client p) (p_coordinator p) (p_txid p) ts (p_requests p, env) in
           (p\<lparr>p_requests := rm\<rparr>, env')))"

definition participant_add_put :: "int \<Rightarrow> int \<Rightarrow> tx_participant \<Rightarrow> tx_participant" where
  "participant_add_put key value p = p\<lparr>p_requests := rm_add_put key value (p_requests p)\<rparr>"

definition participant_completed_puts :: "tx_participant \<Rightarrow> nat" where
  [simp]: "participant_completed_puts p = rm_completed_puts (p_requests p)"

definition participant_export_results :: "tx_participant \<Rightarrow> (int \<times> int) list \<Rightarrow> (int \<times> int) list" where
  [simp]: "participant_export_results p puts = rm_export_results (p_requests p) puts"

section \<open>The class ClientTx\<close>

datatype client_tx_state =
    CTX_NOT_STARTED
  | CTX_START_SENT
  | CTX_OPEN
  | CTX_COMMIT_SENT
  | CTX_COMMITTED
  | CTX_ROLLED_BACK_BY_SERVER

text \<open>As the code has it, the last case included.\<close>

fun progress_state :: "client_tx_state \<Rightarrow> client_tx_state" where
  "progress_state CTX_NOT_STARTED = CTX_START_SENT"
| "progress_state CTX_START_SENT = CTX_OPEN"
| "progress_state CTX_OPEN = CTX_COMMIT_SENT"
| "progress_state CTX_COMMIT_SENT = CTX_COMMITTED"
| "progress_state CTX_COMMITTED = CTX_COMMITTED"
| "progress_state CTX_ROLLED_BACK_BY_SERVER = CTX_COMMITTED"

type_synonym participants = "(int \<times> tx_participant) list"

record client_tx =
  ct_actor_id :: int
  ct_spec :: tx_spec
  ct_discovery :: discovery
  ct_state :: client_tx_state
  ct_coordinator :: int
  ct_participants :: participants
  ct_txid :: int
  ct_conflict_txid :: int
  ct_read_ts :: int
  ct_commit_ts :: int
  ct_next_get :: nat
  ct_next_put :: nat

definition make_client_tx :: "int \<Rightarrow> tx_spec \<Rightarrow> discovery \<Rightarrow> client_tx" where
  "make_client_tx actor_id spec d = \<lparr>ct_actor_id = actor_id, ct_spec = spec, ct_discovery = d,
     ct_state = CTX_NOT_STARTED, ct_coordinator = UNDEFINED_ACTOR_ID, ct_participants = [],
     ct_txid = UNDEFINED_TX_ID, ct_conflict_txid = UNDEFINED_TX_ID, ct_read_ts = UNDEFINED_TS,
     ct_commit_ts = UNDEFINED_TS, ct_next_get = 0, ct_next_put = 0\<rparr>"

text \<open>\<open>participants_[i]->\<close>: there is no participant behind a key that was not there.\<close>

definition participant :: "int \<Rightarrow> participants \<Rightarrow> tx_participant result" where
  "participant i ps = (case map_of ps i of None \<Rightarrow> Inl (Undefined ''null participant'') | Some p \<Rightarrow> Inr p)"

text \<open>\<open>participants_[i] = p\<close>.\<close>

fun put_participant :: "int \<Rightarrow> tx_participant \<Rightarrow> participants \<Rightarrow> participants" where
  "put_participant i p [] = [(i, p)]"
| "put_participant i p ((j, q) # ps) = (if j = i then (j, p) # ps else (j, q) # put_participant i p ps)"

definition configure_coordinator :: "int \<Rightarrow> client_tx \<times> cl_env \<Rightarrow> (client_tx \<times> cl_env) result" where
  "configure_coordinator ts s =
     (let tx = fst s; env = snd s in
      bindE (get_random (ct_discovery tx)) (\<lambda>c.
      bindE (schedule_start_msg ts (make_tx_participant (ct_actor_id tx) c, env)) (\<lambda>(p, env1).
      bindE (participant_txid p) (\<lambda>txid.
        Inr (tx\<lparr>ct_coordinator := c, ct_participants := put_participant c p (ct_participants tx), ct_txid := txid\<rparr>,
             env1)))))"

definition configure_read_ts :: "client_tx \<Rightarrow> client_tx result" where
  "configure_read_ts tx =
     bindE (participant (ct_coordinator tx) (ct_participants tx)) (\<lambda>p.
     bindE (participant_read_ts p) (\<lambda>read_ts. Inr (tx\<lparr>ct_read_ts := read_ts\<rparr>)))"

text \<open>The body of the loop of \<open>process_replies_commit_sent\<close>.\<close>

definition reply_commit_sent :: "message \<Rightarrow> client_tx \<Rightarrow> client_tx result" where
  "reply_commit_sent m tx =
     (case msg_type m of
        MSG_ROLLED_BACK_BY_SERVER \<Rightarrow>
          (let tx1 = tx\<lparr>ct_state := CTX_ROLLED_BACK_BY_SERVER\<rparr> in
           bindE (get_rolled_back (msg_payload m)) (\<lambda>(_, conflict_txid).
             Inr (tx1\<lparr>ct_conflict_txid := conflict_txid\<rparr>)))
      | MSG_COMMIT_ACK \<Rightarrow>
          bindE (get_commit_ack (msg_payload m)) (\<lambda>(_, commit_ts).
            Inr (tx\<lparr>ct_commit_ts := commit_ts, ct_state := progress_state (ct_state tx)\<rparr>))
      | _ \<Rightarrow> Inl (LogicError ''process_replies_commit_sent: broken case.''))"

definition completed_requests :: "client_tx \<Rightarrow> nat" where
  "completed_requests tx = sum_list (map (\<lambda>(_, p). participant_completed_puts p) (ct_participants tx))"

definition tick_not_started :: "int \<Rightarrow> message list \<Rightarrow> client_tx \<times> cl_env \<Rightarrow> (client_tx \<times> cl_env) result" where
  "tick_not_started ts msgs s =
     bindE (assertE (msgs = []) ''msgs.empty()'') (\<lambda>_.
       if ts \<ge> earliest_start_ts (ct_spec (fst s))
       then bindE (configure_coordinator ts s) (\<lambda>(tx, env).
            Inr (tx\<lparr>ct_state := progress_state (ct_state tx)\<rparr>, env))
       else Inr s)"

definition tick_start_sent :: "client_tx \<times> cl_env \<Rightarrow> (client_tx \<times> cl_env) result" where
  "tick_start_sent s =
     (let tx = fst s; env = snd s in
      case map_of (ct_participants tx) (ct_coordinator tx) of
        None \<Rightarrow> Inl (OutOfRange ''participants_.at(coordinator_actor_id_)'')
      | Some p \<Rightarrow>
          if is_open p
          then bindE (configure_read_ts tx) (\<lambda>tx1. Inr (tx1\<lparr>ct_state := progress_state (ct_state tx1)\<rparr>, env))
          else Inr s)"

text \<open>One put a tick, when its time has come.\<close>

definition issue_put :: "int \<Rightarrow> client_tx \<Rightarrow> client_tx result" where
  "issue_put ts tx =
     (let puts = spec_puts (ct_spec tx); n = ct_next_put tx in
      if n < length puts \<and> ts \<ge> cp_earliest_ts (puts ! n)
      then bindE (get_by_key (cp_key (puts ! n)) (ct_discovery tx)) (\<lambda>a.
           bindE (participant a (ct_participants tx)) (\<lambda>p.
             Inr (tx\<lparr>ct_participants := put_participant a (participant_add_put (cp_key (puts ! n)) (cp_value (puts ! n)) p)
                  (ct_participants tx), ct_next_put := n + 1\<rparr>)))
      else Inr tx)"

definition maybe_commit :: "int \<Rightarrow> client_tx \<times> cl_env \<Rightarrow> client_tx \<times> cl_env" where
  "maybe_commit ts s =
     (let tx = fst s; env = snd s in
      if completed_requests tx = length (spec_puts (ct_spec tx)) \<and> ts \<ge> earliest_commit_ts (ct_spec tx)
      then if spec_action (ct_spec tx) = ACTION_COMMIT
           then (let (m, g) = create_msg_commit (ct_actor_id tx) (ct_coordinator tx) (ct_txid tx) (ce_gen env);
                     (_, r) = schedule ts m (ce_retrier env) in
                 (tx\<lparr>ct_state := progress_state (ct_state tx)\<rparr>, env\<lparr>ce_gen := g, ce_retrier := r\<rparr>))
           else s
      else s)"

definition tick_open :: "int \<Rightarrow> client_tx \<times> cl_env \<Rightarrow> (client_tx \<times> cl_env) result" where
  "tick_open ts s = bindE (issue_put ts (fst s)) (\<lambda>tx. Inr (maybe_commit ts (tx, snd s)))"

definition tick_commit_sent :: "message list \<Rightarrow> client_tx \<times> cl_env \<Rightarrow> (client_tx \<times> cl_env) result" where
  "tick_commit_sent msgs s = bindE (foldE reply_commit_sent msgs (fst s)) (\<lambda>tx. Inr (tx, snd s))"

text \<open>Replies go to the participant they come from, other messages stay with the transaction.\<close>

definition sort_msg :: "message \<Rightarrow> message list \<times> groups \<Rightarrow> message list \<times> groups" where
  "sort_msg m = (\<lambda>(external_msgs, replies).
     if msg_type m = MSG_START_ACK \<or> msg_type m = MSG_PUT_REPLY
     then (external_msgs, push_back_at (msg_source m) m replies)
     else (external_msgs @ [m], replies))"

definition group_of :: "int \<Rightarrow> groups \<Rightarrow> message list" where
  "group_of i g = (case map_of g i of None \<Rightarrow> [] | Some ms \<Rightarrow> ms)"

text \<open>The switch of \<open>tick\<close>; the two handlers for replies it names in other states are empty.\<close>

definition tick_state :: "int \<Rightarrow> message list \<Rightarrow> client_tx \<times> cl_env \<Rightarrow> (client_tx \<times> cl_env) result" where
  "tick_state ts msgs s =
     (case ct_state (fst s) of
        CTX_NOT_STARTED \<Rightarrow> tick_not_started ts msgs s
      | CTX_START_SENT \<Rightarrow> tick_start_sent s
      | CTX_OPEN \<Rightarrow> tick_open ts s
      | CTX_COMMIT_SENT \<Rightarrow> tick_commit_sent msgs s
      | CTX_COMMITTED \<Rightarrow> Inr s
      | CTX_ROLLED_BACK_BY_SERVER \<Rightarrow> Inr s)"

definition receive_replies :: "int \<Rightarrow> message list \<Rightarrow> client_tx \<Rightarrow> client_tx result" where
  "receive_replies ts msgs tx =
     (let replies = snd (fold sort_msg msgs ([], [])) in
      bindE (traverseE (\<lambda>(i, p) _. bindE (process_incoming ts (group_of i replies) p) (\<lambda>p'. Inr ((i, p'), ())))
          (ct_participants tx) ()) (\<lambda>(ps, _). Inr (tx\<lparr>ct_participants := ps\<rparr>)))"

definition send_requests :: "int \<Rightarrow> client_tx \<times> cl_env \<Rightarrow> (client_tx \<times> cl_env) result" where
  "send_requests ts s =
     bindE (traverseE (\<lambda>(i, p) env. (let (p', env') = schedule_requests ts (p, env) in Inr ((i, p'), env')))
         (ct_participants (fst s)) (snd s)) (\<lambda>(ps, env). Inr ((fst s)\<lparr>ct_participants := ps\<rparr>, env))"

definition client_tx_tick :: "int \<Rightarrow> message list \<Rightarrow> message list \<Rightarrow> client_tx \<times> cl_env \<Rightarrow>
    (message list \<times> client_tx \<times> cl_env) result" where
  "client_tx_tick ts msgs scheduled s =
     bindE (receive_replies ts msgs (fst s)) (\<lambda>tx1.
     bindE (tick_state ts msgs (tx1, snd s)) (\<lambda>s2.
     bindE (send_requests ts s2) (\<lambda>(tx3, env3).
       let (out, r) = get_scheduled_msgs ts scheduled (ce_retrier env3) in
       Inr (out, tx3, env3\<lparr>ce_retrier := r\<rparr>))))"

record export_result =
  er_state :: client_tx_state
  er_txid :: int
  er_conflict_txid :: int
  er_read_ts :: int
  er_commit_ts :: int
  er_gets :: "(int \<times> int) list"
  er_puts :: "(int \<times> int) list"

definition export_results :: "client_tx \<Rightarrow> export_result" where
  "export_results tx = \<lparr>er_state = ct_state tx, er_txid = ct_txid tx, er_conflict_txid = ct_conflict_txid tx,
     er_read_ts = ct_read_ts tx, er_commit_ts = ct_commit_ts tx, er_gets = [],
     er_puts = fold (\<lambda>(_, p). participant_export_results p) (ct_participants tx) []\<rparr>"

section \<open>Requests\<close>

text \<open>The count of completed requests is right, the requests not sent yet are the last ones, and no
  message refers outside the table.\<close>

definition rm_ok :: "requests_manager \<Rightarrow> bool" where
  "rm_ok rm \<longleftrightarrow>
     rm_completed_puts rm = length (filter (\<lambda>rs. rs_status rs = REQUEST_COMPLETED) (puts_table_status rm)) \<and>
     rm_next_put rm \<le> length (puts_table_status rm) \<and>
     (\<forall>k. rm_next_put rm \<le> k \<longrightarrow> k < length (puts_table_status rm) \<longrightarrow>
        rs_status (puts_table_status rm ! k) = REQUEST_NOT_STARTED) \<and>
     (\<forall>mid k. table_scheduled_puts rm mid = Some k \<longrightarrow> k < length (puts_table_status rm))"

definition rm_puts :: "requests_manager \<Rightarrow> (int \<times> int) list" where
  "rm_puts rm = map (\<lambda>rs. (rs_key rs, rs_value rs)) (puts_table_status rm)"

lemma make_requests_manager_ok: "rm_ok make_requests_manager" "rm_puts make_requests_manager = []"
  by (simp_all add: rm_ok_def rm_puts_def make_requests_manager_def)

lemma count_update:
  assumes "k < length xs"
  shows "length (filter P (xs[k := y])) + (if P (xs ! k) then 1 else 0) =
    length (filter P xs) + (if P y then 1 else 0)"
proof -
  have "xs = take k xs @ xs ! k # drop (Suc k) xs" using assms by (rule id_take_nth_drop)
  then have "length (filter P xs) = length (filter P (take k xs @ xs ! k # drop (Suc k) xs))" by simp
  moreover have "length (filter P (xs[k := y])) = length (filter P (take k xs @ y # drop (Suc k) xs))"
    using assms by (simp add: upd_conv_take_nth_drop)
  ultimately show ?thesis by simp
qed

lemma map_update_same: "k < length xs \<Longrightarrow> f y = f (xs ! k) \<Longrightarrow> map f (xs[k := y]) = map f xs"
  by (simp add: map_update list_update_same_conv)

lemma complete_request_ok:
  assumes "rm_ok rm"
  shows "\<exists>rm'. complete_request mid rm = Inr rm' \<and> rm_ok rm' \<and> rm_puts rm' = rm_puts rm \<and>
    rm_completed_puts rm \<le> rm_completed_puts rm'"
proof (cases "table_scheduled_puts rm mid")
  case (Some k)
  then have k: "k < length (puts_table_status rm)" using assms by (auto simp: rm_ok_def)
  let ?tab = "puts_table_status rm"
  show ?thesis
  proof (cases "rs_status (?tab ! k) = REQUEST_START")
    case True
    then have "length (filter (\<lambda>rs. rs_status rs = REQUEST_COMPLETED)
        (?tab[k := (?tab ! k)\<lparr>rs_status := REQUEST_COMPLETED\<rparr>])) = rm_completed_puts rm + 1"
      using count_update [OF k, of "\<lambda>rs. rs_status rs = REQUEST_COMPLETED"] assms by (simp add: rm_ok_def)
    moreover have "\<not> rm_next_put rm \<le> k" using True k assms by (auto simp: rm_ok_def)
    ultimately show ?thesis
      using True Some k assms
      by (auto simp: complete_request_def Let_def rm_ok_def rm_puts_def map_update_same)
  qed (use Some k assms in \<open>simp add: complete_request_def\<close>)
qed (use assms in \<open>simp add: complete_request_def\<close>)

lemma rm_add_put_ok:
  "rm_ok rm \<Longrightarrow> rm_ok (rm_add_put key value rm)"
  "rm_puts (rm_add_put key value rm) = rm_puts rm @ [(key, value)]"
  by (auto simp: rm_ok_def rm_add_put_def rm_puts_def less_SucI nth_append)

text \<open>The put messages a participant sends, one for each request not sent yet.\<close>

definition put_message :: "int \<Rightarrow> message \<Rightarrow> bool" where
  "put_message txid m \<longleftrightarrow> msg_type m = MSG_PUT \<and> typed m \<and> payload_txid (msg_payload m) = txid"

lemma prepare_put_ok:
  assumes "rm_ok rm" and "k = rm_next_put rm" and "k < length (puts_table_status rm)" and "prepare_put c d txid ts k (rm, env) = (rm', env')"
  shows "rm_ok rm' \<and> rm_puts rm' = rm_puts rm \<and> rm_next_put rm' = k + 1 \<and>
    length (puts_table_status rm') = length (puts_table_status rm) \<and>
    rm_completed_puts rm' = rm_completed_puts rm \<and>
    (\<exists>m. schedule_msgs (ce_retrier env') = schedule_msgs (ce_retrier env) @ [m] \<and> put_message txid m \<and>
      msg_destination m = d)"
proof -
  let ?tab = "puts_table_status rm"
  have "rs_status (?tab ! k) = REQUEST_NOT_STARTED" using assms(1-3) by (simp add: rm_ok_def)
  then have "length (filter (\<lambda>rs. rs_status rs = REQUEST_COMPLETED) (?tab[k := (?tab ! k)\<lparr>rs_status := REQUEST_START\<rparr>])) =
      rm_completed_puts rm"
    using count_update [OF assms(3), of "\<lambda>rs. rs_status rs = REQUEST_COMPLETED"] assms(1) by (simp add: rm_ok_def)
  with assms show ?thesis
    by (auto simp: prepare_put_def create_msg_defs retrier_defs rm_ok_def rm_puts_def map_update_same
        put_message_def typed_def split: if_splits)
qed

lemma prepare_msg_ok:
  assumes "rm_ok rm" and "prepare_msg c d txid ts (rm, env) = (rm', env')"
  shows "rm_ok rm' \<and> rm_puts rm' = rm_puts rm \<and> rm_next_put rm' = length (puts_table_status rm') \<and>
    rm_completed_puts rm' = rm_completed_puts rm \<and>
    (\<exists>out. schedule_msgs (ce_retrier env') = schedule_msgs (ce_retrier env) @ out \<and>
      (\<forall>m \<in> set out. put_message txid m \<and> msg_destination m = d))"
proof -
  define n where "n = length (puts_table_status rm)"
  have "rm_next_put rm \<le> n" using assms(1) by (simp add: rm_ok_def n_def)
  have "rm_ok rm' \<and> rm_puts rm' = rm_puts rm \<and> rm_next_put rm' = n \<and> length (puts_table_status rm') = n \<and>
    rm_completed_puts rm' = rm_completed_puts rm \<and>
    (\<exists>out. schedule_msgs (ce_retrier env') = schedule_msgs (ce_retrier env) @ out \<and>
      (\<forall>m \<in> set out. put_message txid m \<and> msg_destination m = d))"
    using assms(1) n_def \<open>rm_next_put rm \<le> n\<close>
      assms(2) [unfolded prepare_msg_def fst_conv, folded n_def]
  proof (induction "n - rm_next_put rm" arbitrary: rm env)
    case 0
    then show ?case by simp
  next
    case (Suc x)
    then have lt: "rm_next_put rm < n" by simp
    obtain rm1 env1 where one: "prepare_put c d txid ts (rm_next_put rm) (rm, env) = (rm1, env1)"
      by (cases "prepare_put c d txid ts (rm_next_put rm) (rm, env)") auto
    note p = prepare_put_ok [OF Suc.prems(1) refl _ one, folded Suc.prems(2), OF lt]
    have "fold (prepare_put c d txid ts) [rm_next_put rm1..<n] (rm1, env1) = (rm', env')"
      using Suc.prems(4) lt one p by (simp add: upt_conv_Cons)
    moreover have "x = n - rm_next_put rm1" using Suc.hyps(2) p by simp
    ultimately show ?case using Suc.hyps(1) [of rm1 env1] p lt by fastforce
  qed
  then show ?thesis by simp
qed

section \<open>What the server says\<close>

text \<open>\<open>told R C D m\<close>: if \<open>m\<close> is a word of the server about a transaction, then \<open>R\<close> holds of the snapshot
  it gives, \<open>C\<close> of the commit timestamp, \<open>D\<close> if it is a rollback.\<close>

definition told :: "(int \<Rightarrow> bool) \<Rightarrow> (int \<Rightarrow> bool) \<Rightarrow> bool \<Rightarrow> message \<Rightarrow> bool" where
  "told R C D m \<longleftrightarrow>
     (msg_type m = MSG_START_ACK \<longrightarrow> (\<forall>t r. msg_payload m = MsgAckStartPayload t r \<longrightarrow> R r)) \<and>
     (msg_type m = MSG_COMMIT_ACK \<longrightarrow> (\<forall>t c. msg_payload m = MsgCommitAckPayload t c \<longrightarrow> C c)) \<and>
     (msg_type m = MSG_ROLLED_BACK_BY_SERVER \<longrightarrow> D)"

lemma sorted_replies:
  assumes "m \<in> set (group_of i (snd (fold sort_msg msgs (e, g))))"
  shows "m \<in> set (group_of i g) \<or> m \<in> set msgs"
  using assms
proof (induction msgs arbitrary: e g)
  case (Cons a msgs)
  obtain e1 g1 where one: "sort_msg a (e, g) = (e1, g1)" by (cases "sort_msg a (e, g)")
  have grp: "group_of i (push_back_at k a g) = (if i = k then group_of i g @ [a] else group_of i g)" for k
    by (induction k a g rule: push_back_at.induct) (auto simp: group_of_def)
  have "x \<in> set (group_of i g1) \<Longrightarrow> x \<in> set (group_of i g) \<or> x = a" for x
    using one by (auto simp: sort_msg_def grp split: if_splits)
  with Cons one show ?case by fastforce
qed simp

lemma read_start_acks:
  assumes "foldE read_start_ack msgs ts = Inr ts'" and "\<forall>m \<in> set msgs. told R C D m"
  shows "msgs = [] \<and> ts' = ts \<or> R ts'"
  using assms
proof (induction msgs arbitrary: ts)
  case (Cons m msgs)
  then obtain ts1 where m: "read_start_ack m ts = Inr ts1" and rest: "foldE read_start_ack msgs ts1 = Inr ts'"
    by (auto simp: result_simps)
  have "R ts1"
    using m Cons.prems(2)
    by (cases "msg_type m"; cases "msg_payload m") (auto simp: read_start_ack_def told_def result_simps)
  with Cons.IH [OF rest] Cons.prems(2) show ?case by auto
qed simp

lemma participant_replies_open_ok:
  assumes "foldE participant_reply_open msgs p = Inr p'" and "rm_ok (p_requests p)"
  shows "p_txid p' = p_txid p \<and> p_coordinator p' = p_coordinator p \<and> p_state p' = p_state p \<and>
    p_read_ts p' = p_read_ts p \<and> rm_ok (p_requests p') \<and> rm_puts (p_requests p') = rm_puts (p_requests p) \<and>
    rm_completed_puts (p_requests p) \<le> rm_completed_puts (p_requests p')"
  using assms
proof (induction msgs arbitrary: p)
  case (Cons m msgs)
  then obtain p1 where m: "participant_reply_open m p = Inr p1" and rest: "foldE participant_reply_open msgs p1 = Inr p'"
    by (auto simp: result_simps)
  have "p_txid p1 = p_txid p \<and> p_coordinator p1 = p_coordinator p \<and> p_state p1 = p_state p \<and>
    p_read_ts p1 = p_read_ts p \<and> rm_ok (p_requests p1) \<and> rm_puts (p_requests p1) = rm_puts (p_requests p) \<and>
    rm_completed_puts (p_requests p) \<le> rm_completed_puts (p_requests p1)"
  proof (cases "msg_type m = MSG_PUT_REPLY")
    case True
    then obtain mid rm where "complete_request mid (p_requests p) = Inr rm" "p1 = p\<lparr>p_requests := rm\<rparr>"
      using m by (auto simp: participant_reply_open_def result_simps)
    with complete_request_ok [OF Cons.prems(2), of mid] show ?thesis by auto
  next
    case False
    then have "p1 = p" using m by (cases "msg_type m") (simp_all add: participant_reply_open_def)
    with Cons.prems(2) show ?thesis by simp
  qed
  with Cons.IH [OF rest] show ?case by auto
qed simp

lemma process_incoming_ok:
  assumes step: "process_incoming ts msgs p = Inr p'" and rm: "rm_ok (p_requests p)"
    and msgs: "\<forall>m \<in> set msgs. told R C D m"
  shows "p_txid p' = p_txid p \<and> p_coordinator p' = p_coordinator p \<and> rm_ok (p_requests p') \<and>
    rm_puts (p_requests p') = rm_puts (p_requests p) \<and>
    rm_completed_puts (p_requests p) \<le> rm_completed_puts (p_requests p') \<and>
    (p_state p = P_START_MSG_SENT \<and> (p' = p \<or> p_state p' = P_TX_OPEN \<and> R (p_read_ts p')) \<or>
     p_state p = P_TX_OPEN \<and> p_state p' = P_TX_OPEN \<and> p_read_ts p' = p_read_ts p)"
proof (cases "p_state p")
  case P_START_MSG_SENT
  show ?thesis
  proof (cases "msgs = []")
    case False
    with step P_START_MSG_SENT obtain ts' where "foldE read_start_ack msgs UNDEFINED_TS = Inr ts'"
        "p' = p\<lparr>p_read_ts := ts', p_state := P_TX_OPEN\<rparr>"
      by (auto simp: process_incoming_def participant_replies_start_sent_def result_simps)
    with read_start_acks [OF _ msgs] False rm P_START_MSG_SENT show ?thesis by auto
  qed (use step P_START_MSG_SENT rm in \<open>simp add: process_incoming_def participant_replies_start_sent_def\<close>)
next
  case P_TX_OPEN
  with step participant_replies_open_ok [OF _ rm] show ?thesis by (auto simp: process_incoming_def)
qed (use step in \<open>simp add: process_incoming_def\<close>)

section \<open>The invariant of a transaction\<close>

definition spec_pairs :: "tx_spec \<Rightarrow> (int \<times> int) list" where
  "spec_pairs sp = map (\<lambda>x. (cp_key x, cp_value x)) (spec_puts sp)"

text \<open>Between the phases of a tick: one participant, whose requests are the puts issued so far. Until
  the transaction has looked, the participant may have been told the snapshot (\<open>R\<close>).\<close>

definition participant_mid :: "tx_participant \<Rightarrow> (int \<Rightarrow> bool) \<Rightarrow> int \<Rightarrow> client_tx \<Rightarrow> bool" where
  "participant_mid p R srv tx \<longleftrightarrow> ct_participants tx = [(srv, p)] \<and> p_coordinator p = srv \<and>
     p_txid p = ct_txid tx \<and> rm_ok (p_requests p) \<and>
     ct_next_put tx \<le> length (spec_puts (ct_spec tx)) \<and>
     rm_puts (p_requests p) = take (ct_next_put tx) (spec_pairs (ct_spec tx)) \<and>
     (if ct_state tx = CTX_START_SENT
      then p_state p = P_START_MSG_SENT \<or> p_state p = P_TX_OPEN \<and> R (p_read_ts p)
      else p_state p = P_TX_OPEN \<and> p_read_ts p = ct_read_ts tx) \<and>
     (ct_state tx \<in> {CTX_COMMIT_SENT, CTX_COMMITTED, CTX_ROLLED_BACK_BY_SERVER} \<longrightarrow>
        rm_completed_puts (p_requests p) = length (spec_puts (ct_spec tx)) \<and> spec_action (ct_spec tx) = ACTION_COMMIT)"

definition ct_mid :: "(int \<Rightarrow> bool) \<Rightarrow> int \<Rightarrow> client_tx \<Rightarrow> bool" where
  "ct_mid R srv tx \<longleftrightarrow> d_actor_ids (ct_discovery tx) = [srv] \<and>
     (if ct_state tx = CTX_NOT_STARTED
      then ct_participants tx = [] \<and> ct_txid tx = UNDEFINED_TX_ID \<and> ct_next_put tx = 0
      else ct_txid tx \<noteq> UNDEFINED_TX_ID \<and> ct_coordinator tx = srv \<and> (\<exists>p. participant_mid p R srv tx))"

definition ct_inv :: "int \<Rightarrow> client_tx \<Rightarrow> bool" where
  "ct_inv srv tx \<longleftrightarrow> ct_mid (\<lambda>_. False) srv tx"

text \<open>What the transaction believes is what the server said.\<close>

definition ct_agrees :: "(int \<Rightarrow> bool) \<Rightarrow> (int \<Rightarrow> bool) \<Rightarrow> bool \<Rightarrow> client_tx \<Rightarrow> bool" where
  "ct_agrees R C D tx \<longleftrightarrow>
     (ct_state tx \<notin> {CTX_NOT_STARTED, CTX_START_SENT} \<longrightarrow> R (ct_read_ts tx)) \<and>
     (ct_state tx = CTX_COMMITTED \<longrightarrow> C (ct_commit_ts tx)) \<and>
     (ct_state tx = CTX_ROLLED_BACK_BY_SERVER \<longrightarrow> D)"

definition same_tx :: "client_tx \<Rightarrow> client_tx \<Rightarrow> bool" where
  "same_tx a b \<longleftrightarrow> ct_actor_id b = ct_actor_id a \<and> ct_spec b = ct_spec a \<and> ct_discovery b = ct_discovery a \<and>
     (ct_txid a \<noteq> UNDEFINED_TX_ID \<longrightarrow> ct_txid b = ct_txid a)"

lemma same_tx_trans: "same_tx a b \<Longrightarrow> same_tx b c \<Longrightarrow> same_tx a c"
  by (auto simp: same_tx_def)

lemma make_client_tx_inv: "ct_inv srv (make_client_tx a spec (discovery_single srv))"
  by (simp add: ct_inv_def ct_mid_def make_client_tx_def discovery_single_def)

text \<open>A client request for the transaction.\<close>

definition request_ok :: "int \<Rightarrow> int \<Rightarrow> message \<Rightarrow> bool" where
  "request_ok srv txid m \<longleftrightarrow> typed m \<and> msg_type m \<in> {MSG_START, MSG_PUT, MSG_COMMIT} \<and>
     payload_txid (msg_payload m) = txid \<and> msg_destination m = srv"

lemma completed_bound:
  assumes "rm_ok rm"
  shows "rm_completed_puts rm \<le> length (rm_puts rm)"
  using assms by (simp add: rm_ok_def rm_puts_def)

text \<open>First phase: the replies.\<close>

lemma receive_replies_ok:
  assumes inv: "ct_inv srv tx" and msgs: "\<forall>m \<in> set msgs. told R C D m"
    and step: "receive_replies ts msgs tx = Inr tx1"
  shows "ct_mid R srv tx1 \<and> tx1 = tx\<lparr>ct_participants := ct_participants tx1\<rparr>"
proof (cases "ct_state tx = CTX_NOT_STARTED")
  case True
  with inv have "ct_participants tx = []" by (simp add: ct_inv_def ct_mid_def)
  with step have "tx1 = tx" by (cases tx) (auto simp: receive_replies_def Let_def)
  with inv True show ?thesis by (simp add: ct_inv_def ct_mid_def)
next
  case False
  then obtain p where p: "participant_mid p (\<lambda>_. False) srv tx" and id: "ct_txid tx \<noteq> UNDEFINED_TX_ID"
      "ct_coordinator tx = srv" "d_actor_ids (ct_discovery tx) = [srv]"
    using inv by (auto simp: ct_inv_def ct_mid_def)
  let ?ms = "group_of srv (snd (fold sort_msg msgs ([], [])))"
  obtain p1 where p1: "process_incoming ts ?ms p = Inr p1" "tx1 = tx\<lparr>ct_participants := [(srv, p1)]\<rparr>"
    using step p by (auto simp: receive_replies_def Let_def participant_mid_def result_simps)
  have "\<forall>m \<in> set ?ms. told R C D m"
    using sorted_replies [of _ srv msgs "[]" "[]"] msgs by (auto simp: group_of_def)
  note r = process_incoming_ok [OF p1(1) _ this]
  have rm: "rm_ok (p_requests p)" using p by (simp add: participant_mid_def)
  have "rm_completed_puts (p_requests p1) = length (spec_puts (ct_spec tx))"
    if "ct_state tx \<in> {CTX_COMMIT_SENT, CTX_COMMITTED, CTX_ROLLED_BACK_BY_SERVER}"
  proof -
    have "rm_completed_puts (p_requests p) = length (spec_puts (ct_spec tx))"
      using that p by (auto simp: participant_mid_def)
    moreover have "rm_completed_puts (p_requests p1) \<le> length (rm_puts (p_requests p1))"
      using r [OF rm] completed_bound by blast
    moreover have "length (rm_puts (p_requests p1)) \<le> length (spec_puts (ct_spec tx))"
      using r [OF rm] p by (simp add: participant_mid_def spec_pairs_def)
    ultimately show ?thesis using r [OF rm] by linarith
  qed
  with r [OF rm] p have "participant_mid p1 R srv tx1"
    unfolding p1(2) participant_mid_def by auto
  then show ?thesis using False id p1(2) by (auto simp: ct_mid_def)
qed

text \<open>Second phase, state by state.\<close>

lemma configure_coordinator_ok:
  assumes "ct_mid R srv tx" and "ct_state tx = CTX_NOT_STARTED"
    and "configure_coordinator ts (tx, env) = Inr (tx1, env1)"
  shows "ct_inv srv (tx1\<lparr>ct_state := CTX_START_SENT\<rparr>) \<and> same_tx tx tx1 \<and> ct_state tx1 = CTX_NOT_STARTED \<and>
    (\<exists>m. schedule_msgs (ce_retrier env1) = schedule_msgs (ce_retrier env) @ [m] \<and> request_ok srv (ct_txid tx1) m)"
  using assms
  by (auto simp: configure_coordinator_def get_random_def schedule_start_msg_def participant_txid_def
      make_tx_participant_def create_msg_defs retrier_defs get_txid_from_msg_payload_def result_simps
      ct_mid_def ct_inv_def participant_mid_def make_requests_manager_ok same_tx_def request_ok_def typed_def
      assertE_def split: if_splits)

lemma reply_commit_sent_ok:
  assumes "reply_commit_sent m tx = Inr tx1" and "told R C D m"
    and "ct_state tx \<in> {CTX_COMMIT_SENT, CTX_COMMITTED, CTX_ROLLED_BACK_BY_SERVER}"
    and "ct_state tx = CTX_COMMITTED \<longrightarrow> C (ct_commit_ts tx)" and "ct_state tx = CTX_ROLLED_BACK_BY_SERVER \<longrightarrow> D"
  shows "ct_state tx1 \<in> {CTX_COMMIT_SENT, CTX_COMMITTED, CTX_ROLLED_BACK_BY_SERVER} \<and>
    (ct_state tx1 = CTX_COMMITTED \<longrightarrow> C (ct_commit_ts tx1)) \<and> (ct_state tx1 = CTX_ROLLED_BACK_BY_SERVER \<longrightarrow> D) \<and>
    tx1 = tx\<lparr>ct_state := ct_state tx1, ct_commit_ts := ct_commit_ts tx1, ct_conflict_txid := ct_conflict_txid tx1\<rparr>"
proof (cases "msg_type m")
  case MSG_COMMIT_ACK
  then obtain t c where c: "msg_payload m = MsgCommitAckPayload t c"
      "tx1 = tx\<lparr>ct_commit_ts := c, ct_state := progress_state (ct_state tx)\<rparr>"
    using assms(1) by (cases "msg_payload m") (auto simp: reply_commit_sent_def)
  then have "C c" using assms(2) MSG_COMMIT_ACK by (simp add: told_def)
  with c assms(3,5) show ?thesis by auto
next
  case MSG_ROLLED_BACK_BY_SERVER
  then obtain t c where "msg_payload m = MsgRolledBackByServerPayload t c"
      "tx1 = tx\<lparr>ct_state := CTX_ROLLED_BACK_BY_SERVER, ct_conflict_txid := c\<rparr>"
    using assms(1) by (cases "msg_payload m") (auto simp: reply_commit_sent_def)
  moreover have D using assms(2) MSG_ROLLED_BACK_BY_SERVER by (simp add: told_def)
  ultimately show ?thesis by simp
qed (use assms(1) in \<open>simp_all add: reply_commit_sent_def\<close>)

lemma replies_commit_sent_ok:
  assumes "foldE reply_commit_sent msgs tx = Inr tx1" and "\<forall>m \<in> set msgs. told R C D m"
   
    and "ct_state tx \<in> {CTX_COMMIT_SENT, CTX_COMMITTED, CTX_ROLLED_BACK_BY_SERVER}"
    and "ct_state tx = CTX_COMMITTED \<longrightarrow> C (ct_commit_ts tx)" and "ct_state tx = CTX_ROLLED_BACK_BY_SERVER \<longrightarrow> D"
  shows "ct_state tx1 \<in> {CTX_COMMIT_SENT, CTX_COMMITTED, CTX_ROLLED_BACK_BY_SERVER} \<and>
    (ct_state tx1 = CTX_COMMITTED \<longrightarrow> C (ct_commit_ts tx1)) \<and> (ct_state tx1 = CTX_ROLLED_BACK_BY_SERVER \<longrightarrow> D) \<and>
    tx1 = tx\<lparr>ct_state := ct_state tx1, ct_commit_ts := ct_commit_ts tx1, ct_conflict_txid := ct_conflict_txid tx1\<rparr>"
  using assms
proof (induction msgs arbitrary: tx)
  case (Cons m msgs)
  then obtain tx2 where m: "reply_commit_sent m tx = Inr tx2" and rest: "foldE reply_commit_sent msgs tx2 = Inr tx1"
    by (auto simp: result_simps)
  have "told R C D m" using Cons.prems(2) by simp
  note one = reply_commit_sent_ok [OF m this Cons.prems(3-5)]
  then have "ct_state tx1 \<in> {CTX_COMMIT_SENT, CTX_COMMITTED, CTX_ROLLED_BACK_BY_SERVER} \<and>
    (ct_state tx1 = CTX_COMMITTED \<longrightarrow> C (ct_commit_ts tx1)) \<and> (ct_state tx1 = CTX_ROLLED_BACK_BY_SERVER \<longrightarrow> D) \<and>
    tx1 = tx2\<lparr>ct_state := ct_state tx1, ct_commit_ts := ct_commit_ts tx1, ct_conflict_txid := ct_conflict_txid tx1\<rparr>"
    using Cons.IH [OF rest] Cons.prems(2) by simp
  with one show ?case by (cases tx; cases tx1; cases tx2) auto
qed (cases tx; auto)

lemma issue_put_ok:
  assumes "participant_mid p R srv tx" and "ct_state tx = CTX_OPEN" and "d_actor_ids (ct_discovery tx) = [srv]"
    and "issue_put ts tx = Inr tx1"
  shows "(\<exists>p1. participant_mid p1 R srv tx1) \<and>
    tx1 = tx\<lparr>ct_participants := ct_participants tx1, ct_next_put := ct_next_put tx1\<rparr>"
proof (cases "ct_next_put tx < length (spec_puts (ct_spec tx)) \<and> ts \<ge> cp_earliest_ts (spec_puts (ct_spec tx) ! ct_next_put tx)")
  case True
  let ?put = "spec_puts (ct_spec tx) ! ct_next_put tx"
  let ?p1 = "participant_add_put (cp_key ?put) (cp_value ?put) p"
  have tx1: "tx1 = tx\<lparr>ct_participants := [(srv, ?p1)], ct_next_put := ct_next_put tx + 1\<rparr>"
    using assms True by (simp add: issue_put_def get_by_key_def participant_def participant_mid_def Let_def)
  have "take (Suc (ct_next_put tx)) (spec_pairs (ct_spec tx)) =
      take (ct_next_put tx) (spec_pairs (ct_spec tx)) @ [(cp_key ?put, cp_value ?put)]"
    using True by (simp add: take_Suc_conv_app_nth spec_pairs_def)
  then have "participant_mid ?p1 R srv tx1"
    using assms(1,2) True unfolding tx1 by (simp add: participant_mid_def participant_add_put_def rm_add_put_ok)
  with tx1 show ?thesis by auto
next
  case False
  then have "tx1 = tx" using assms(4) by (auto simp: issue_put_def Let_def)
  with assms(1) show ?thesis by auto
qed

lemma maybe_commit_ok:
  assumes p: "participant_mid p R srv tx" and "ct_state tx = CTX_OPEN" and "ct_coordinator tx = srv"
    and run: "maybe_commit ts (tx, env) = (tx1, env1)"
  shows "participant_mid p R srv tx1 \<and> ct_state tx1 \<in> {CTX_OPEN, CTX_COMMIT_SENT} \<and> tx1 = tx\<lparr>ct_state := ct_state tx1\<rparr> \<and>
    (\<exists>out. schedule_msgs (ce_retrier env1) = schedule_msgs (ce_retrier env) @ out \<and>
      (\<forall>m \<in> set out. request_ok srv (ct_txid tx) m))"
proof (cases "completed_requests tx = length (spec_puts (ct_spec tx)) \<and> ts \<ge> earliest_commit_ts (ct_spec tx) \<and>
    spec_action (ct_spec tx) = ACTION_COMMIT")
  case True
  have "completed_requests tx = rm_completed_puts (p_requests p)"
    using p by (simp add: completed_requests_def participant_mid_def)
  with True p assms(2-4) show ?thesis
    by (auto simp: maybe_commit_def create_msg_defs retrier_defs request_ok_def typed_def participant_mid_def)
next
  case False
  then have "tx1 = tx" "env1 = env" using run by (auto simp: maybe_commit_def Let_def split: if_splits)
  with p assms(2) show ?thesis by auto
qed

lemma tick_start_sent_ok:
  assumes "participant_mid p R srv tx" and "ct_coordinator tx = srv" and "ct_state tx = CTX_START_SENT"
    and "tick_start_sent (tx, env) = Inr (tx1, env1)"
  shows "participant_mid p (\<lambda>_. False) srv tx1 \<and> env1 = env \<and> (ct_state tx1 = CTX_START_SENT \<or> R (ct_read_ts tx1)) \<and>
    ct_state tx1 \<in> {CTX_START_SENT, CTX_OPEN} \<and> tx1 = tx\<lparr>ct_state := ct_state tx1, ct_read_ts := ct_read_ts tx1\<rparr>"
  using assms
  by (auto simp: tick_start_sent_def participant_mid_def is_open_def configure_read_ts_def participant_def
      participant_read_ts_def Let_def result_simps split: if_splits)

lemma participant_mid_weaken:
  "participant_mid p R srv tx \<Longrightarrow> ct_state tx \<noteq> CTX_START_SENT \<Longrightarrow> participant_mid p Q srv tx"
  by (simp add: participant_mid_def)

text \<open>The outbox grows by requests of the transaction.\<close>

definition asks :: "int \<Rightarrow> int \<Rightarrow> cl_env \<Rightarrow> cl_env \<Rightarrow> bool" where
  "asks srv txid env env1 \<longleftrightarrow> (\<exists>out. schedule_msgs (ce_retrier env1) = schedule_msgs (ce_retrier env) @ out \<and>
     (\<forall>m \<in> set out. request_ok srv txid m))"

lemma asks_refl: "asks srv i env env"
  by (simp add: asks_def)

lemma asks_trans: "asks srv i a b \<Longrightarrow> asks srv i b c \<Longrightarrow> asks srv i a c"
  unfolding asks_def by (metis UnE append.assoc set_append)

lemma ct_mid_parts:
  assumes "ct_mid R srv tx" and "ct_state tx \<noteq> CTX_NOT_STARTED"
  obtains p where "participant_mid p R srv tx" "ct_txid tx \<noteq> UNDEFINED_TX_ID" "ct_coordinator tx = srv"
    "d_actor_ids (ct_discovery tx) = [srv]"
  using assms by (auto simp: ct_mid_def)

lemma ct_inv_intro:
  assumes "participant_mid p (\<lambda>_. False) srv tx" "ct_txid tx \<noteq> UNDEFINED_TX_ID" "ct_coordinator tx = srv"
    "d_actor_ids (ct_discovery tx) = [srv]" "ct_state tx \<noteq> CTX_NOT_STARTED"
  shows "ct_inv srv tx"
  using assms by (auto simp: ct_inv_def ct_mid_def)

lemma tick_not_started_state:
  assumes mid: "ct_mid R srv tx" and agrees: "ct_agrees R C D tx" and msgs: "\<forall>m \<in> set msgs. told R C D m"
    and step: "tick_state ts msgs (tx, env) = Inr (tx1, env1)" and state: "ct_state tx = CTX_NOT_STARTED"
  shows "ct_inv srv tx1 \<and> same_tx tx tx1 \<and> ct_agrees R C D tx1 \<and> asks srv (ct_txid tx1) env env1"
proof (cases "ts \<ge> earliest_start_ts (ct_spec tx)")
  case True
  with step state obtain tx2 where tx2: "configure_coordinator ts (tx, env) = Inr (tx2, env1)"
      "tx1 = tx2\<lparr>ct_state := progress_state (ct_state tx2)\<rparr>"
    by (auto simp: tick_state_def tick_not_started_def result_simps)
  with configure_coordinator_ok [OF mid state tx2(1)] show ?thesis
    by (auto simp: same_tx_def ct_agrees_def asks_def)
next
  case False
  then have "tx1 = tx" "env1 = env" using step state
    by (auto simp: tick_state_def tick_not_started_def result_simps)
  with mid agrees state show ?thesis by (simp add: same_tx_def asks_refl ct_inv_def ct_mid_def)
qed

lemma tick_start_sent_state:
  assumes mid: "ct_mid R srv tx" and agrees: "ct_agrees R C D tx" and msgs: "\<forall>m \<in> set msgs. told R C D m"
    and step: "tick_state ts msgs (tx, env) = Inr (tx1, env1)" and state: "ct_state tx = CTX_START_SENT"
  shows "ct_inv srv tx1 \<and> same_tx tx tx1 \<and> ct_agrees R C D tx1 \<and> asks srv (ct_txid tx1) env env1"
proof -
  obtain p where p: "participant_mid p R srv tx" "ct_txid tx \<noteq> UNDEFINED_TX_ID" "ct_coordinator tx = srv"
      "d_actor_ids (ct_discovery tx) = [srv]"
    using mid state by (auto elim: ct_mid_parts)
  have "tick_start_sent (tx, env) = Inr (tx1, env1)" using step state by (simp add: tick_state_def)
  from tick_start_sent_ok [OF p(1,3) state this] have r: "participant_mid p (\<lambda>_. False) srv tx1" "env1 = env"
      "ct_state tx1 = CTX_START_SENT \<or> R (ct_read_ts tx1)" "ct_state tx1 \<in> {CTX_START_SENT, CTX_OPEN}"
      "tx1 = tx\<lparr>ct_state := ct_state tx1, ct_read_ts := ct_read_ts tx1\<rparr>"
    by auto
  obtain s t where tx1: "tx1 = tx\<lparr>ct_state := s, ct_read_ts := t\<rparr>" using r(5) by blast
  have "ct_inv srv tx1"
    by (rule ct_inv_intro [OF r(1)]) (use r(4) p tx1 in auto)
  then show ?thesis using r(2-4) tx1 by (auto simp: same_tx_def ct_agrees_def asks_refl)
qed

lemma tick_open_state:
  assumes mid: "ct_mid R srv tx" and agrees: "ct_agrees R C D tx" and msgs: "\<forall>m \<in> set msgs. told R C D m"
    and step: "tick_state ts msgs (tx, env) = Inr (tx1, env1)" and state: "ct_state tx = CTX_OPEN"
  shows "ct_inv srv tx1 \<and> same_tx tx tx1 \<and> ct_agrees R C D tx1 \<and> asks srv (ct_txid tx1) env env1"
proof -
  obtain p where p: "participant_mid p R srv tx" "ct_txid tx \<noteq> UNDEFINED_TX_ID" "ct_coordinator tx = srv"
      "d_actor_ids (ct_discovery tx) = [srv]"
    using mid state by (auto elim: ct_mid_parts)
  obtain tx2 where a: "issue_put ts tx = Inr tx2" and b: "maybe_commit ts (tx2, env) = (tx1, env1)"
    using step state by (auto simp: tick_state_def tick_open_def result_simps)
  from issue_put_ok [OF p(1) state p(4) a] obtain p2 ps n where p2: "participant_mid p2 R srv tx2"
      and tx2: "tx2 = tx\<lparr>ct_participants := ps, ct_next_put := n\<rparr>"
    by blast
  have "ct_state tx2 = CTX_OPEN" "ct_coordinator tx2 = srv" using tx2 state p(3) by auto
  from maybe_commit_ok [OF p2 this b] obtain s where m: "participant_mid p2 R srv tx1"
      "ct_state tx1 \<in> {CTX_OPEN, CTX_COMMIT_SENT}" "tx1 = tx2\<lparr>ct_state := s\<rparr>" "asks srv (ct_txid tx2) env env1"
    unfolding asks_def by blast
  have "participant_mid p2 (\<lambda>_. False) srv tx1" using m(2) by (intro participant_mid_weaken [OF m(1)]) auto
  then have "ct_inv srv tx1" by (rule ct_inv_intro) (use m(2,3) tx2 p in auto)
  then show ?thesis using m tx2 agrees state by (auto simp: same_tx_def ct_agrees_def)
qed

lemma tick_commit_sent_state:
  assumes mid: "ct_mid R srv tx" and agrees: "ct_agrees R C D tx" and msgs: "\<forall>m \<in> set msgs. told R C D m"
    and step: "tick_state ts msgs (tx, env) = Inr (tx1, env1)" and state: "ct_state tx = CTX_COMMIT_SENT"
  shows "ct_inv srv tx1 \<and> same_tx tx tx1 \<and> ct_agrees R C D tx1 \<and> asks srv (ct_txid tx1) env env1"
proof -
  obtain p where p: "participant_mid p R srv tx" "ct_txid tx \<noteq> UNDEFINED_TX_ID" "ct_coordinator tx = srv"
      "d_actor_ids (ct_discovery tx) = [srv]"
    using mid state by (auto elim: ct_mid_parts)
  have run: "foldE reply_commit_sent msgs tx = Inr tx1" and env: "env1 = env"
    using step state by (auto simp: tick_state_def tick_commit_sent_def result_simps)
  have "ct_state tx1 \<in> {CTX_COMMIT_SENT, CTX_COMMITTED, CTX_ROLLED_BACK_BY_SERVER} \<and>
    (ct_state tx1 = CTX_COMMITTED \<longrightarrow> C (ct_commit_ts tx1)) \<and> (ct_state tx1 = CTX_ROLLED_BACK_BY_SERVER \<longrightarrow> D) \<and>
    tx1 = tx\<lparr>ct_state := ct_state tx1, ct_commit_ts := ct_commit_ts tx1, ct_conflict_txid := ct_conflict_txid tx1\<rparr>"
    by (rule replies_commit_sent_ok [OF run msgs]) (use state in auto)
  then obtain s t c where r: "s \<in> {CTX_COMMIT_SENT, CTX_COMMITTED, CTX_ROLLED_BACK_BY_SERVER}"
      "s = CTX_COMMITTED \<longrightarrow> C t" "s = CTX_ROLLED_BACK_BY_SERVER \<longrightarrow> D"
      "tx1 = tx\<lparr>ct_state := s, ct_commit_ts := t, ct_conflict_txid := c\<rparr>"
    by blast
  have "participant_mid p (\<lambda>_. False) srv tx1" using p(1) r state by (auto simp: participant_mid_def)
  then have "ct_inv srv tx1" by (rule ct_inv_intro) (use r p in auto)
  then show ?thesis using r env agrees state by (auto simp: same_tx_def ct_agrees_def asks_refl)
qed

lemma tick_state_ok:
  assumes mid: "ct_mid R srv tx" and agrees: "ct_agrees R C D tx" and msgs: "\<forall>m \<in> set msgs. told R C D m"
    and step: "tick_state ts msgs (tx, env) = Inr (tx1, env1)"
  shows "ct_inv srv tx1 \<and> same_tx tx tx1 \<and> ct_agrees R C D tx1 \<and> asks srv (ct_txid tx1) env env1"
proof -
  have last: ?thesis if state: "ct_state tx \<in> {CTX_COMMITTED, CTX_ROLLED_BACK_BY_SERVER}"
  proof -
    have "tx1 = tx" "env1 = env" using step state by (auto simp: tick_state_def)
    moreover obtain p where p: "participant_mid p R srv tx" "ct_txid tx \<noteq> UNDEFINED_TX_ID" "ct_coordinator tx = srv"
        "d_actor_ids (ct_discovery tx) = [srv]"
      using mid state by (auto elim: ct_mid_parts)
    have "participant_mid p (\<lambda>_. False) srv tx" using state by (intro participant_mid_weaken [OF p(1)]) auto
    then have "ct_inv srv tx" by (rule ct_inv_intro) (use state p in auto)
    ultimately show ?thesis using agrees by (simp add: same_tx_def asks_refl)
  qed
  note steps = tick_not_started_state tick_start_sent_state tick_open_state tick_commit_sent_state
  show ?thesis by (cases "ct_state tx") (use last steps [OF assms] in simp_all)
qed

lemma schedule_requests_ok:
  assumes "rm_ok (p_requests p)" and "schedule_requests ts (p, env) = (p1, env1)" and "p_coordinator p = srv"
  shows "rm_ok (p_requests p1) \<and> rm_puts (p_requests p1) = rm_puts (p_requests p) \<and>
    rm_completed_puts (p_requests p1) = rm_completed_puts (p_requests p) \<and>
    p1 = p\<lparr>p_requests := p_requests p1\<rparr> \<and> asks srv (p_txid p) env env1"
proof (cases "p_state p = P_TX_OPEN")
  case True
  obtain rm env2 where rm: "prepare_msg (p_client p) (p_coordinator p) (p_txid p) ts (p_requests p, env) = (rm, env2)"
    by (cases "prepare_msg (p_client p) (p_coordinator p) (p_txid p) ts (p_requests p, env)")
  then have "p1 = p\<lparr>p_requests := rm\<rparr>" "env1 = env2"
    using assms(2) True by (auto simp: schedule_requests_def)
  with prepare_msg_ok [OF assms(1) rm] assms(3) show ?thesis
    by (auto simp: asks_def request_ok_def put_message_def)
qed (use assms in \<open>auto simp: schedule_requests_def asks_refl\<close>)

lemma send_requests_ok:
  assumes inv: "ct_inv srv tx" and step: "send_requests ts (tx, env) = Inr (tx1, env1)"
  shows "ct_inv srv tx1 \<and> tx1 = tx\<lparr>ct_participants := ct_participants tx1\<rparr> \<and> asks srv (ct_txid tx1) env env1"
proof (cases "ct_state tx = CTX_NOT_STARTED")
  case True
  then have "ct_participants tx = []" using inv by (simp add: ct_inv_def ct_mid_def)
  then have "tx1 = tx" "env1 = env" using step by (auto simp: send_requests_def)
  with inv show ?thesis by (simp add: asks_refl)
next
  case False
  then obtain p where p: "participant_mid p (\<lambda>_. False) srv tx" "ct_txid tx \<noteq> UNDEFINED_TX_ID" "ct_coordinator tx = srv"
      "d_actor_ids (ct_discovery tx) = [srv]"
    using inv by (auto simp: ct_inv_def ct_mid_def)
  obtain p1 env2 where s: "schedule_requests ts (p, env) = (p1, env2)" by (cases "schedule_requests ts (p, env)")
  then have tx1: "tx1 = tx\<lparr>ct_participants := [(srv, p1)]\<rparr>" "env1 = env2"
    using step p(1) by (auto simp: send_requests_def participant_mid_def)
  have "rm_ok (p_requests p)" "p_coordinator p = srv" using p(1) by (auto simp: participant_mid_def)
  note r = schedule_requests_ok [OF this(1) s this(2)]
  then obtain rm where p1: "p1 = p\<lparr>p_requests := rm\<rparr>" by blast
  have "participant_mid p1 (\<lambda>_. False) srv tx1"
    using p(1) r unfolding tx1 p1 by (auto simp: participant_mid_def split: if_splits)
  then have "ct_inv srv tx1" by (rule ct_inv_intro) (use tx1 p False in auto)
  then show ?thesis using tx1 r p(1) by (auto simp: participant_mid_def)
qed

lemma client_tx_tick_ok:
  assumes inv: "ct_inv srv tx" and agrees: "ct_agrees R C D tx" and msgs: "\<forall>m \<in> set msgs. told R C D m"
    and step: "client_tx_tick ts msgs scheduled (tx, env) = Inr (sent, tx1, env1)"
  shows "ct_inv srv tx1 \<and> same_tx tx tx1 \<and> ct_agrees R C D tx1 \<and> schedule_msgs (ce_retrier env1) = [] \<and>
    (\<exists>out. sent = scheduled @ schedule_msgs (ce_retrier env) @ out \<and> (\<forall>m \<in> set out. request_ok srv (ct_txid tx1) m))"
proof -
  obtain txa txb envb envc where a: "receive_replies ts msgs tx = Inr txa"
      and b: "tick_state ts msgs (txa, env) = Inr (txb, envb)"
      and c: "send_requests ts (txb, envb) = Inr (tx1, envc)"
      and d: "sent = scheduled @ schedule_msgs (ce_retrier envc)" "env1 = envc\<lparr>ce_retrier := ce_retrier envc\<lparr>schedule_msgs := []\<rparr>\<rparr>"
    using step by (auto simp: client_tx_tick_def get_scheduled_msgs_def result_simps)
  from receive_replies_ok [OF inv msgs a] obtain ps where a1: "ct_mid R srv txa" "txa = tx\<lparr>ct_participants := ps\<rparr>"
    by blast
  then have "ct_agrees R C D txa" "same_tx tx txa" using agrees by (auto simp: ct_agrees_def same_tx_def)
  with tick_state_ok [OF a1(1) _ msgs b] have b1: "ct_inv srv txb" "same_tx tx txb" "ct_agrees R C D txb"
      "asks srv (ct_txid txb) env envb"
    by (auto intro: same_tx_trans)
  from send_requests_ok [OF b1(1) c] obtain ps1 where c1: "ct_inv srv tx1" "tx1 = txb\<lparr>ct_participants := ps1\<rparr>"
      "asks srv (ct_txid tx1) envb envc"
    by blast
  have "asks srv (ct_txid tx1) env envc" using b1(4) c1(2,3) asks_trans by auto
  then obtain out where "schedule_msgs (ce_retrier envc) = schedule_msgs (ce_retrier env) @ out"
      "\<forall>m \<in> set out. request_ok srv (ct_txid tx1) m"
    by (auto simp: asks_def)
  with c1 b1 d show ?thesis by (auto simp: same_tx_def ct_agrees_def)
qed

end
