(* ===== verification/Client_Tx_Runs.thy ===== *)
theory Client_Tx_Runs
  imports Client_Tx "HOL-Library.Sublist"
begin

text \<open>
  The transactions of \<open>Client_Tx\<close> over time: what holds of \<open>ClientTx\<close> of
  \<open>src/tx/client/client_tx.cpp\<close> in every state its ticks can lead to, whatever messages arrive.
\<close>

section \<open>Reachable transactions\<close>

text \<open>The states of a transaction whatever messages it is given.\<close>

inductive ct_reach :: "int \<Rightarrow> tx_spec \<Rightarrow> client_tx \<Rightarrow> bool" for srv spec where
  start: "ct_reach srv spec (make_client_tx a spec (discovery_single srv))"
| tick: "ct_reach srv spec tx \<Longrightarrow> client_tx_tick ts msgs scheduled (tx, env) = Inr (sent, tx1, env1) \<Longrightarrow>
    ct_reach srv spec tx1"

lemma told_any: "told (\<lambda>_. True) (\<lambda>_. True) True m"
  by (simp add: told_def)

lemma agrees_any: "ct_agrees (\<lambda>_. True) (\<lambda>_. True) True tx"
  by (simp add: ct_agrees_def)

lemma ct_reach_inv: "ct_reach srv spec tx \<Longrightarrow> ct_inv srv tx \<and> ct_spec tx = spec"
proof (induction rule: ct_reach.induct)
  case (start a)
  then show ?case by (simp add: make_client_tx_inv) (simp add: make_client_tx_def)
next
  case (tick tx ts msgs scheduled env sent tx1 env1)
  with client_tx_tick_ok [OF _ agrees_any _ tick.hyps(2)] show ?case by (auto simp: told_any same_tx_def)
qed

lemma export_puts:
  assumes "ct_inv srv tx"
  shows "er_puts (export_results tx) = (if ct_state tx = CTX_NOT_STARTED then []
    else rm_export_results (p_requests (snd (hd (ct_participants tx)))) [])"
  using assms by (auto simp: ct_inv_def ct_mid_def participant_mid_def export_results_def)

lemma subseq_map_filter: "subseq (map f (filter P xs)) (map f xs)"
  by (induction xs) auto

lemma rm_export_subseq: "subseq (rm_export_results rm []) (rm_puts rm)"
  by (simp add: rm_export_results_def rm_puts_def subseq_map_filter)

lemma rm_export_all:
  assumes "rm_ok rm" and "rm_completed_puts rm = length (rm_puts rm)"
  shows "rm_export_results rm [] = rm_puts rm"
proof -
  let ?P = "\<lambda>rs. rs_status rs = REQUEST_COMPLETED"
  have "length (filter ?P (puts_table_status rm)) = length (puts_table_status rm)"
    using assms by (simp add: rm_ok_def rm_puts_def)
  then have "filter ?P (puts_table_status rm) = puts_table_status rm"
    by (metis filter_True less_irrefl length_filter_less)
  then show ?thesis by (simp add: rm_export_results_def rm_puts_def)
qed

lemma take_subseq: "subseq (take n xs) xs"
  by (simp add: prefix_imp_subseq take_is_prefix)

section \<open>Properties\<close>

text \<open>A transaction with one put, committed in five ticks.\<close>

definition client_demo_spec :: "tx_action \<Rightarrow> tx_spec" where
  "client_demo_spec a = \<lparr>earliest_start_ts = 0, earliest_commit_ts = 0, spec_gets = [],
     spec_puts = [\<lparr>cp_earliest_ts = 0, cp_key = 5, cp_value = 10\<rparr>], spec_action = a\<rparr>"

definition client_demo_env :: cl_env where
  "client_demo_env = \<lparr>ce_retrier = retrier_init, ce_gen = generator_init\<rparr>"

definition client_demo_reply :: "msg_payload \<Rightarrow> message" where
  "client_demo_reply p = \<lparr>msg_type = payload_type p, msg_source = 1, msg_destination = 2, msg_id = 0, msg_payload = p\<rparr>"

definition client_demo_step :: "msg_payload list \<Rightarrow> client_tx \<times> cl_env \<Rightarrow> (client_tx \<times> cl_env) result" where
  "client_demo_step ps s = bindE (client_tx_tick 1 (map client_demo_reply ps) [] s) (\<lambda>(_, t). Inr t)"

definition client_demo_run :: "tx_action \<Rightarrow> msg_payload list list \<Rightarrow> (client_tx \<times> cl_env) result" where
  "client_demo_run a pss = foldE client_demo_step pss (make_client_tx 2 (client_demo_spec a) (discovery_single 1), client_demo_env)"

lemma client_demo_run_reach: "client_demo_run a pss = Inr (tx, env) \<Longrightarrow> ct_reach 1 (client_demo_spec a) tx"
proof -
  assume "client_demo_run a pss = Inr (tx, env)"
  then have "ct_reach 1 (client_demo_spec a) (fst (tx, env))"
    unfolding client_demo_run_def
    by (rule foldE_invariant [where P = "\<lambda>s. ct_reach 1 (client_demo_spec a) (fst s)"])
      (auto simp: client_demo_step_def result_simps intro: ct_reach.intros)
  then show ?thesis by simp
qed

lemmas client_eval = client_demo_run_def client_demo_step_def client_demo_spec_def client_demo_env_def client_demo_reply_def make_client_tx_def
  client_tx_tick_def receive_replies_def tick_state_def tick_not_started_def configure_coordinator_def
  schedule_start_msg_def make_tx_participant_def make_requests_manager_def create_msg_defs retrier_defs
  retrier_init_def generator_init_def get_txid_from_msg_payload_def participant_txid_def send_requests_def
  schedule_requests_def sort_msg_def group_of_def process_incoming_def participant_replies_start_sent_def
  read_start_ack_def tick_start_sent_def is_open_def configure_read_ts_def participant_def participant_read_ts_def
  tick_open_def issue_put_def maybe_commit_def participant_add_put_def rm_add_put_def completed_requests_def
  prepare_msg_def prepare_put_def participant_reply_open_def complete_request_def tick_commit_sent_def
  reply_commit_sent_def export_results_def rm_export_results_def UNDEFINED_TX_ID_def UNDEFINED_TS_def

text \<open>C32. A specification whose action is \<open>ROLLBACK\<close>, or is left undefined, never ends its transaction:
  whatever the replies, it stays open at most.\<close>

theorem rollback_never_leaves_open:
  assumes "ct_reach srv spec tx" and "spec_action spec \<noteq> ACTION_COMMIT"
  shows "ct_state tx \<in> {CTX_NOT_STARTED, CTX_START_SENT, CTX_OPEN}"
proof -
  have "ct_inv srv tx" "ct_spec tx = spec" using ct_reach_inv [OF assms(1)] by auto
  with assms(2) show ?thesis by (cases "ct_state tx") (auto simp: ct_inv_def ct_mid_def participant_mid_def)
qed

theorem rollback_never_leaves_open_witness:
  "\<exists>tx env. client_demo_run ACTION_ROLLBACK [[], [MsgAckStartPayload 1001 1], [], [MsgPutReplyPayload 1001 2],
        [MsgCommitAckPayload 1001 9]] = Inr (tx, env) \<and>
    er_puts (export_results tx) = [(5, 10)] \<and> ct_state tx \<in> {CTX_NOT_STARTED, CTX_START_SENT, CTX_OPEN}"
proof -
  obtain tx env where run: "client_demo_run ACTION_ROLLBACK [[], [MsgAckStartPayload 1001 1], [], [MsgPutReplyPayload 1001 2],
        [MsgCommitAckPayload 1001 9]] = Inr (tx, env)" "er_puts (export_results tx) = [(5, 10)]"
    by (simp add: client_eval)
  from rollback_never_leaves_open [OF client_demo_run_reach [OF run(1)]] run(2) show ?thesis
    using run(1) by (simp add: client_demo_spec_def)
qed

text \<open>A commit acknowledgement read after a rollback turns the transaction into a committed one: the
  transition out of \<open>ROLLED_BACK_BY_SERVER\<close> leads to \<open>COMMITTED\<close>, where its log message speaks of
  \<open>ROLLED_BACK_BY_SERVER\<close>. In the other order the rollback stays.\<close>

lemma commit_ack_overrides_rollback:
  "tick_commit_sent (map client_demo_reply [MsgRolledBackByServerPayload i j, MsgCommitAckPayload i t]) (tx, env) =
    Inr (tx\<lparr>ct_state := CTX_COMMITTED, ct_conflict_txid := j, ct_commit_ts := t\<rparr>, env) \<and>
   tick_commit_sent (map client_demo_reply [MsgCommitAckPayload i t, MsgRolledBackByServerPayload i j]) (tx, env) =
    Inr (tx\<lparr>ct_state := CTX_ROLLED_BACK_BY_SERVER, ct_conflict_txid := j, ct_commit_ts := t\<rparr>, env)"
  by (simp add: tick_commit_sent_def reply_commit_sent_def client_demo_reply_def)

end
