(* ===== verification/Client_Tx_History.thy ===== *)
theory Client_Tx_History
  imports Client_Tx_Runs
begin

text \<open>
  A transaction of the client (\<open>src/tx/client/client_tx.cpp\<close>) together with the messages it has sent and
  received. A put counts as completed only when the server's reply to the very message that carried it has
  been received; the commit is asked for when that holds of every put.
\<close>

section \<open>Histories\<close>

text \<open>As \<open>ct_reach\<close>, with the messages that ticks were given and those the transaction added to the outbox.\<close>

inductive ct_history :: "int \<Rightarrow> tx_spec \<Rightarrow> message list \<Rightarrow> message list \<Rightarrow> client_tx \<Rightarrow> bool" for srv spec where
  start: "ct_history srv spec [] [] (make_client_tx a spec (discovery_single srv))"
| tick: "ct_history srv spec sent received tx \<Longrightarrow> schedule_msgs (ce_retrier env) = [] \<Longrightarrow>
    client_tx_tick ts msgs scheduled (tx, env) = Inr (scheduled @ out, tx1, env1) \<Longrightarrow>
    ct_history srv spec (sent @ out) (received @ msgs) tx1"

lemma ct_history_reach: "ct_history srv spec sent received tx \<Longrightarrow> ct_reach srv spec tx"
  by (induction rule: ct_history.induct) (auto intro: ct_reach.intros)

text \<open>The message that carries a put, a reply of the server to a put, and the pair of both.\<close>

definition carries_put :: "int \<Rightarrow> int \<times> int \<Rightarrow> message \<Rightarrow> bool" where
  "carries_put txid p m \<longleftrightarrow> msg_type m = MSG_PUT \<and> msg_payload m = MsgPutPayload txid (fst p) (snd p)"

definition put_reply_from :: "int \<Rightarrow> message \<Rightarrow> bool" where
  "put_reply_from srv r \<longleftrightarrow> msg_type r = MSG_PUT_REPLY \<and> msg_source r = srv"

definition replies_to :: "message \<Rightarrow> message \<Rightarrow> bool" where
  "replies_to m r \<longleftrightarrow> (\<exists>i. msg_payload r = MsgPutReplyPayload i (msg_id m))"

definition acknowledged :: "int \<Rightarrow> int \<Rightarrow> message set \<Rightarrow> message list \<Rightarrow> int \<times> int \<Rightarrow> bool" where
  "acknowledged srv txid S R p \<longleftrightarrow> (\<exists>m \<in> S. \<exists>r \<in> set R. carries_put txid p m \<and> put_reply_from srv r \<and> replies_to m r)"

lemma acknowledged_mono: "acknowledged srv i S R p \<Longrightarrow> S \<subseteq> S1 \<Longrightarrow> set R \<subseteq> set R1 \<Longrightarrow> acknowledged srv i S1 R1 p"
  unfolding acknowledged_def by blast

section \<open>The table of the requests\<close>

definition rs_pair :: "request_state \<Rightarrow> int \<times> int" where
  "rs_pair rs = (rs_key rs, rs_value rs)"

definition rm_history :: "int \<Rightarrow> int \<Rightarrow> message set \<Rightarrow> message list \<Rightarrow> requests_manager \<Rightarrow> bool" where
  "rm_history srv txid S R rm \<longleftrightarrow>
     (\<forall>mid k. table_scheduled_puts rm mid = Some k \<longrightarrow> k < length (puts_table_status rm) \<and>
        (\<exists>m \<in> S. msg_id m = mid \<and> carries_put txid (rs_pair (puts_table_status rm ! k)) m)) \<and>
     (\<forall>rs \<in> set (puts_table_status rm). rs_status rs = REQUEST_COMPLETED \<longrightarrow> acknowledged srv txid S R (rs_pair rs)) \<and>
     rm_completed_puts rm \<le> length (filter (put_reply_from srv) R)"

lemma rm_history_make: "rm_history srv i S R make_requests_manager"
  by (simp add: rm_history_def make_requests_manager_def)

lemma rm_history_more:
  assumes "rm_history srv i S R rm" and "S \<subseteq> S1"
  shows "rm_history srv i S1 R rm"
proof -
  have "\<exists>m \<in> S1. msg_id m = mid \<and> carries_put i p m" if "\<exists>m \<in> S. msg_id m = mid \<and> carries_put i p m" for mid p
    using that assms(2) by blast
  with assms acknowledged_mono [OF _ assms(2), of srv i R _ R] show ?thesis unfolding rm_history_def by simp
qed

lemma rm_history_received:
  assumes "rm_history srv i S R rm"
  shows "rm_history srv i S (R @ ms) rm"
proof -
  have "acknowledged srv i S R p \<Longrightarrow> acknowledged srv i S (R @ ms) p" for p by (rule acknowledged_mono) auto
  with assms show ?thesis by (simp add: rm_history_def)
qed

lemma rm_history_add: "rm_history srv i S R rm \<Longrightarrow> rm_history srv i S R (rm_add_put key value rm)"
  by (fastforce simp: rm_history_def rm_add_put_def nth_append)

lemma rm_history_prepare:
  assumes h: "rm_history srv i S R rm" and k: "k < length (puts_table_status rm)"
    and run: "prepare_put c d i ts k (rm, env) = (rm1, env1)"
  shows "\<exists>m. schedule_msgs (ce_retrier env1) = schedule_msgs (ce_retrier env) @ [m] \<and> msg_type m = MSG_PUT \<and>
    rm_history srv i (insert m S) R rm1 \<and> length (puts_table_status rm1) = length (puts_table_status rm)"
proof -
  let ?rs = "puts_table_status rm ! k"
  define m where "m = fst (create_msg_put c d i (rs_key ?rs) (rs_value ?rs) (ce_gen env))"
  have m: "carries_put i (rs_pair ?rs) m" by (simp add: m_def create_msg_defs carries_put_def rs_pair_def)
  have rm1: "rm1 = rm\<lparr>puts_table_status := (puts_table_status rm)[k := ?rs\<lparr>rs_status := REQUEST_START\<rparr>],
      table_scheduled_puts := (table_scheduled_puts rm)(msg_id m \<mapsto> k), rm_next_put := k + 1\<rparr>"
    and out: "schedule_msgs (ce_retrier env1) = schedule_msgs (ce_retrier env) @ [m]"
    using run by (auto simp: prepare_put_def m_def retrier_defs Let_def split_beta)
  have pairs: "rs_pair (puts_table_status rm1 ! j) = rs_pair (puts_table_status rm ! j)" if "j < length (puts_table_status rm)" for j
    using that k rm1 by (simp add: nth_list_update rs_pair_def)
  have h1: "rm_history srv i (insert m S) R rm" by (rule rm_history_more [OF h]) auto
  have table: "j < length (puts_table_status rm1) \<and> (\<exists>x \<in> insert m S. msg_id x = mid \<and> carries_put i (rs_pair (puts_table_status rm1 ! j)) x)"
    if "table_scheduled_puts rm1 mid = Some j" for mid j
  proof (cases "mid = msg_id m")
    case True
    then have "j = k" using that rm1 by simp
    with True m k pairs [OF k] show ?thesis by (auto simp: rm1)
  next
    case False
    then have "table_scheduled_puts rm mid = Some j" using that rm1 by simp
    then have j: "j < length (puts_table_status rm)" and ex: "\<exists>x \<in> insert m S. msg_id x = mid \<and> carries_put i (rs_pair (puts_table_status rm ! j)) x"
      using h1 unfolding rm_history_def by blast+
    then show ?thesis using pairs [OF j] rm1 by simp
  qed
  have finished: "acknowledged srv i (insert m S) R (rs_pair rs)" if "rs \<in> set (puts_table_status rm1)" "rs_status rs = REQUEST_COMPLETED" for rs
  proof -
    have "rs \<in> set (puts_table_status rm)" using that k rm1 set_update_subset_insert [of "puts_table_status rm" k] by fastforce
    with that(2) h1 show ?thesis unfolding rm_history_def by blast
  qed
  have "rm_completed_puts rm1 = rm_completed_puts rm" using rm1 by simp
  then have "rm_history srv i (insert m S) R rm1" using table finished h1 unfolding rm_history_def by simp
  moreover have "msg_type m = MSG_PUT" using m by (simp add: carries_put_def)
  ultimately show ?thesis using out rm1 by auto
qed


lemma rm_history_prepares:
  assumes "rm_history srv i S R rm" and "\<forall>k \<in> set ks. k < length (puts_table_status rm)"
    and "fold (prepare_put c d i ts) ks (rm, env) = (rm1, env1)"
  shows "\<exists>out. schedule_msgs (ce_retrier env1) = schedule_msgs (ce_retrier env) @ out \<and> (\<forall>m \<in> set out. msg_type m = MSG_PUT) \<and>
    rm_history srv i (S \<union> set out) R rm1"
  using assms
proof (induction ks arbitrary: S rm env)
  case (Cons k ks)
  obtain rm2 env2 where one: "prepare_put c d i ts k (rm, env) = (rm2, env2)" by (cases "prepare_put c d i ts k (rm, env)")
  obtain m where m: "schedule_msgs (ce_retrier env2) = schedule_msgs (ce_retrier env) @ [m]" "msg_type m = MSG_PUT"
      "rm_history srv i (insert m S) R rm2" "length (puts_table_status rm2) = length (puts_table_status rm)"
    using rm_history_prepare [OF Cons.prems(1) _ one] Cons.prems(2) by auto
  have "fold (prepare_put c d i ts) ks (rm2, env2) = (rm1, env1)" using Cons.prems(3) one by simp
  from Cons.IH [OF m(3) _ this] m(4) Cons.prems(2) obtain out where
      "schedule_msgs (ce_retrier env1) = schedule_msgs (ce_retrier env2) @ out" "\<forall>m \<in> set out. msg_type m = MSG_PUT"
      "rm_history srv i (insert m S \<union> set out) R rm1"
    by auto
  with m(1,2) show ?case by (intro exI [of _ "m # out"]) simp
qed simp

lemma rm_history_complete:
  assumes h: "rm_history srv i S R rm" and r: "put_reply_from srv r" "msg_payload r = MsgPutReplyPayload j mid"
    and run: "complete_request mid rm = Inr rm1"
  shows "rm_history srv i S (R @ [r]) rm1"
proof -
  have h1: "rm_history srv i S (R @ [r]) rm" by (rule rm_history_received [OF h])
  show ?thesis
  proof (cases "\<exists>k. table_scheduled_puts rm mid = Some k \<and> rs_status (puts_table_status rm ! k) = REQUEST_START")
    case True
    then obtain k where k: "table_scheduled_puts rm mid = Some k" "rs_status (puts_table_status rm ! k) = REQUEST_START" by blast
    let ?rs = "puts_table_status rm ! k"
    let ?rm = "rm\<lparr>puts_table_status := (puts_table_status rm)[k := ?rs\<lparr>rs_status := REQUEST_COMPLETED\<rparr>], rm_completed_puts := rm_completed_puts rm + 1\<rparr>"
    have lt: "k < length (puts_table_status rm)" and sent: "\<exists>m \<in> S. msg_id m = mid \<and> carries_put i (rs_pair ?rs) m"
      using h k(1) unfolding rm_history_def by blast+
    have rm1: "rm1 = ?rm" using run k lt by (simp add: complete_request_def Let_def definedE_def)
    have "replies_to m r" if "msg_id m = mid" for m using that r(2) by (simp add: replies_to_def)
    then have now: "acknowledged srv i S (R @ [r]) (rs_pair ?rs)" using sent r(1) unfolding acknowledged_def by force
    have "acknowledged srv i S (R @ [r]) (rs_pair rs)" if rs: "rs \<in> set (puts_table_status ?rm)" "rs_status rs = REQUEST_COMPLETED" for rs
    proof (cases "rs \<in> set (puts_table_status rm)")
      case True
      with rs(2) h1 show ?thesis unfolding rm_history_def by blast
    next
      case False
      then have "rs = ?rs\<lparr>rs_status := REQUEST_COMPLETED\<rparr>"
        using rs(1) set_update_subset_insert [of "puts_table_status rm" k] by fastforce
      with now show ?thesis by (simp add: rs_pair_def)
    qed
    moreover have "rs_pair (puts_table_status ?rm ! j) = rs_pair (puts_table_status rm ! j)" for j
      using lt by (cases "j = k") (simp_all add: rs_pair_def)
    moreover have "rm_completed_puts ?rm \<le> length (filter (put_reply_from srv) (R @ [r]))"
      using h r(1) by (simp add: rm_history_def)
    ultimately show ?thesis using h unfolding rm1 rm_history_def by simp
  next
    case False
    then have "rm1 = rm" using run by (auto simp: complete_request_def Let_def result_simps split: option.splits if_splits)
    with h1 show ?thesis by simp
  qed
qed

section \<open>The participant\<close>

lemma replies_history:
  assumes "foldE participant_reply_open msgs p = Inr p1" and "rm_history srv i S R (p_requests p)" and "\<forall>m \<in> set msgs. msg_source m = srv"
  shows "rm_history srv i S (R @ msgs) (p_requests p1)"
  using assms
proof (induction msgs arbitrary: p R)
  case (Cons m msgs)
  obtain p2 where m: "participant_reply_open m p = Inr p2" and rest: "foldE participant_reply_open msgs p2 = Inr p1"
    using Cons.prems(1) by (auto simp: result_simps)
  have "rm_history srv i S (R @ [m]) (p_requests p2)"
  proof (cases "msg_type m = MSG_PUT_REPLY")
    case True
    then obtain j mid rm where "msg_payload m = MsgPutReplyPayload j mid" "complete_request mid (p_requests p) = Inr rm"
        "p2 = p\<lparr>p_requests := rm\<rparr>"
      using m by (cases "msg_payload m") (auto simp: participant_reply_open_def result_simps)
    with rm_history_complete [OF Cons.prems(2)] True Cons.prems(3) show ?thesis by (simp add: put_reply_from_def)
  next
    case False
    then have "p2 = p" using m by (cases "msg_type m") (simp_all add: participant_reply_open_def)
    with rm_history_received [OF Cons.prems(2)] show ?thesis by simp
  qed
  from Cons.IH [OF rest this] Cons.prems(3) show ?case by simp
qed simp

lemma incoming_history:
  assumes run: "process_incoming ts msgs p = Inr p1" and h: "rm_history srv i S R (p_requests p)" and msgs: "\<forall>m \<in> set msgs. msg_source m = srv"
  shows "rm_history srv i S (R @ msgs) (p_requests p1)"
proof (cases "p_state p")
  case P_START_MSG_SENT
  then have "p_requests p1 = p_requests p"
    using run by (auto simp: process_incoming_def participant_replies_start_sent_def result_simps split: if_splits)
  with rm_history_received [OF h] show ?thesis by simp
next
  case P_TX_OPEN
  with run replies_history [OF _ h msgs] show ?thesis by (simp add: process_incoming_def)
qed (use run in \<open>simp add: process_incoming_def\<close>)

lemma schedule_history:
  assumes run: "schedule_requests ts (p, env) = (p1, env1)" and h: "rm_history srv (p_txid p) S R (p_requests p)"
    and ok: "rm_ok (p_requests p)"
  shows "\<exists>out. schedule_msgs (ce_retrier env1) = schedule_msgs (ce_retrier env) @ out \<and> (\<forall>m \<in> set out. msg_type m = MSG_PUT) \<and>
    rm_history srv (p_txid p) (S \<union> set out) R (p_requests p1)"
proof (cases "p_state p = P_TX_OPEN")
  case True
  obtain rm env2 where rm: "prepare_msg (p_client p) (p_coordinator p) (p_txid p) ts (p_requests p, env) = (rm, env2)"
    by (cases "prepare_msg (p_client p) (p_coordinator p) (p_txid p) ts (p_requests p, env)")
  then have p1: "p1 = p\<lparr>p_requests := rm\<rparr>" "env1 = env2" using run True by (auto simp: schedule_requests_def)
  from rm_history_prepares [OF h _ rm [unfolded prepare_msg_def]] p1 show ?thesis by simp
qed (use run h in \<open>auto simp: schedule_requests_def\<close>)

text \<open>The replies a participant is given are those of its server.\<close>

lemma group_of_sorted:
  "group_of i (snd (fold sort_msg msgs (e, g))) =
    group_of i g @ filter (\<lambda>m. (msg_type m = MSG_START_ACK \<or> msg_type m = MSG_PUT_REPLY) \<and> msg_source m = i) msgs"
proof (induction msgs arbitrary: e g)
  case (Cons m msgs)
  have "group_of i (push_back_at k m g) = (if i = k then group_of i g @ [m] else group_of i g)" for k
    by (induction k m g rule: push_back_at.induct) (auto simp: group_of_def)
  with Cons.IH show ?case by (auto simp: sort_msg_def)
qed simp

lemma rm_history_all:
  assumes "rm_history srv i S (R @ filter Q ms) rm" and "\<And>m. put_reply_from srv m \<Longrightarrow> Q m"
  shows "rm_history srv i S (R @ ms) rm"
proof -
  have "length (filter (put_reply_from srv) (filter Q ms)) \<le> length (filter (put_reply_from srv) ms)"
    by (induction ms) auto
  moreover have "acknowledged srv i S (R @ filter Q ms) p \<Longrightarrow> acknowledged srv i S (R @ ms) p" for p
    by (rule acknowledged_mono) auto
  ultimately show ?thesis using assms(1) unfolding rm_history_def by fastforce
qed

section \<open>The transaction\<close>

definition tx_history :: "int \<Rightarrow> message set \<Rightarrow> message list \<Rightarrow> client_tx \<Rightarrow> bool" where
  "tx_history srv S R tx \<longleftrightarrow>
     (\<forall>(j, p) \<in> set (ct_participants tx). rm_history srv (ct_txid tx) S R (p_requests p)) \<and>
     (ct_state tx \<in> {CTX_NOT_STARTED, CTX_START_SENT, CTX_OPEN} \<longrightarrow> (\<forall>m \<in> S. msg_type m \<noteq> MSG_COMMIT))"

lemma tx_history_same:
  assumes "tx_history srv S R tx" and "ct_participants tx1 = ct_participants tx" and "ct_txid tx1 = ct_txid tx"
    and "ct_state tx1 \<in> {CTX_NOT_STARTED, CTX_START_SENT, CTX_OPEN} \<Longrightarrow> ct_state tx \<in> {CTX_NOT_STARTED, CTX_START_SENT, CTX_OPEN}"
  shows "tx_history srv S R tx1"
  using assms by (auto simp: tx_history_def)

lemma receive_history:
  assumes inv: "ct_inv srv tx" and h: "tx_history srv S R tx" and run: "receive_replies ts msgs tx = Inr tx1"
  shows "tx_history srv S (R @ msgs) tx1"
proof (cases "ct_state tx = CTX_NOT_STARTED")
  case True
  then have "ct_participants tx = []" using inv by (simp add: ct_inv_def ct_mid_def)
  then have "tx1 = tx" "ct_participants tx = []" using run by (cases tx; auto simp: receive_replies_def Let_def)+
  with h show ?thesis by (simp add: tx_history_def)
next
  case False
  then obtain p where p: "ct_participants tx = [(srv, p)]" using inv by (auto simp: ct_inv_def ct_mid_def participant_mid_def)
  let ?Q = "\<lambda>m. (msg_type m = MSG_START_ACK \<or> msg_type m = MSG_PUT_REPLY) \<and> msg_source m = srv"
  have "group_of srv (snd (fold sort_msg msgs ([], []))) = filter ?Q msgs" unfolding group_of_sorted by (simp add: group_of_def)
  then obtain p1 where p1: "process_incoming ts (filter ?Q msgs) p = Inr p1" "tx1 = tx\<lparr>ct_participants := [(srv, p1)]\<rparr>"
    using run p by (auto simp: receive_replies_def Let_def result_simps)
  have "rm_history srv (ct_txid tx) S (R @ filter ?Q msgs) (p_requests p1)"
    using h p by (intro incoming_history [OF p1(1)]) (auto simp: tx_history_def)
  then have "rm_history srv (ct_txid tx) S (R @ msgs) (p_requests p1)" by (rule rm_history_all) (simp add: put_reply_from_def)
  with h show ?thesis by (simp add: tx_history_def p1(2))
qed

lemma open_history:
  assumes mid: "ct_mid Q srv tx" and h: "tx_history srv S R tx" and box: "schedule_msgs (ce_retrier env) = []"
    and run: "tick_state ts msgs (tx, env) = Inr (tx1, env1)" and state: "ct_state tx = CTX_OPEN"
  shows "tx_history srv (S \<union> set (schedule_msgs (ce_retrier env1))) R tx1"
proof -
  obtain p where p: "participant_mid p Q srv tx" "d_actor_ids (ct_discovery tx) = [srv]"
    using mid state by (auto elim: ct_mid_parts)
  obtain tx2 where a: "issue_put ts tx = Inr tx2" and b: "maybe_commit ts (tx2, env) = (tx1, env1)"
    using run state by (auto simp: tick_state_def tick_open_def result_simps)
  have "ct_participants tx2 = [(srv, p)] \<or> (\<exists>key v. ct_participants tx2 = [(srv, participant_add_put key v p)])"
      "ct_txid tx2 = ct_txid tx" "ct_state tx2 = CTX_OPEN"
    using a p state by (auto simp: issue_put_def Let_def participant_mid_def get_by_key_def participant_def result_simps split: if_splits) blast
  moreover have hp: "rm_history srv (ct_txid tx) S R (p_requests p)" using h p(1) by (simp add: tx_history_def participant_mid_def)
  ultimately have h2: "tx_history srv S R tx2"
    using h state rm_history_add [OF hp] by (auto simp: tx_history_def participant_add_put_def)
  have "env1 = env \<and> tx1 = tx2 \<or> (\<exists>m. schedule_msgs (ce_retrier env1) = [m]) \<and> tx1 = tx2\<lparr>ct_state := CTX_COMMIT_SENT\<rparr>"
    using b box \<open>ct_state tx2 = CTX_OPEN\<close> by (auto simp: maybe_commit_def Let_def create_msg_defs retrier_defs split: if_splits)
  then show ?thesis
  proof
    assume "env1 = env \<and> tx1 = tx2"
    with h2 box show ?thesis by simp
  next
    assume "(\<exists>m. schedule_msgs (ce_retrier env1) = [m]) \<and> tx1 = tx2\<lparr>ct_state := CTX_COMMIT_SENT\<rparr>"
    with h2 show ?thesis by (auto simp: tx_history_def intro: rm_history_more)
  qed
qed

lemma state_history:
  assumes mid: "ct_mid Q srv tx" and h: "tx_history srv S R tx" and box: "schedule_msgs (ce_retrier env) = []"
    and run: "tick_state ts msgs (tx, env) = Inr (tx1, env1)"
  shows "tx_history srv (S \<union> set (schedule_msgs (ce_retrier env1))) R tx1"
proof (cases "ct_state tx")
  case CTX_NOT_STARTED
  show ?thesis
  proof (cases "earliest_start_ts (ct_spec tx) \<le> ts")
    case True
    then obtain tx2 where tx2: "configure_coordinator ts (tx, env) = Inr (tx2, env1)" "tx1 = tx2\<lparr>ct_state := progress_state (ct_state tx2)\<rparr>"
      using run CTX_NOT_STARTED by (auto simp: tick_state_def tick_not_started_def result_simps)
    have "ct_participants tx = []" using mid CTX_NOT_STARTED by (simp add: ct_mid_def)
    with tx2(1) box have "\<exists>j p. ct_participants tx2 = [(j, p)] \<and> p_requests p = make_requests_manager"
        "\<forall>m \<in> set (schedule_msgs (ce_retrier env1)). msg_type m = MSG_START"
      by (auto simp: configure_coordinator_def schedule_start_msg_def make_tx_participant_def create_msg_defs retrier_defs result_simps)
    with h CTX_NOT_STARTED show ?thesis by (auto simp: tx_history_def tx2(2) rm_history_make)
  next
    case False
    then have "tx1 = tx" "env1 = env" using run CTX_NOT_STARTED by (auto simp: tick_state_def tick_not_started_def result_simps)
    with h box show ?thesis by simp
  qed
next
  case CTX_START_SENT
  then have "env1 = env" "ct_participants tx1 = ct_participants tx" "ct_txid tx1 = ct_txid tx"
    using run by (auto simp: tick_state_def tick_start_sent_def configure_read_ts_def Let_def result_simps split: option.splits if_splits)
  with tx_history_same [OF h] CTX_START_SENT box show ?thesis by simp
next
  case CTX_OPEN
  then show ?thesis by (rule open_history [OF mid h box run])
next
  case CTX_COMMIT_SENT
  have r: "foldE reply_commit_sent msgs tx = Inr tx1" "env1 = env"
    using run CTX_COMMIT_SENT by (auto simp: tick_state_def tick_commit_sent_def result_simps)
  have "\<forall>m \<in> set msgs. told (\<lambda>_. True) (\<lambda>_. True) True m" by (simp add: told_any)
  from replies_commit_sent_ok [OF r(1) this] CTX_COMMIT_SENT
  have "ct_state tx1 \<in> {CTX_COMMIT_SENT, CTX_COMMITTED, CTX_ROLLED_BACK_BY_SERVER}"
      and same: "tx1 = tx\<lparr>ct_state := ct_state tx1, ct_commit_ts := ct_commit_ts tx1, ct_conflict_txid := ct_conflict_txid tx1\<rparr>"
    by simp_all
  moreover have "ct_participants tx1 = ct_participants tx" "ct_txid tx1 = ct_txid tx" by (subst same, simp)+
  ultimately have "tx_history srv S R tx1" by (intro tx_history_same [OF h]) auto
  with r(2) box show ?thesis by simp
qed (use run h box in \<open>auto simp: tick_state_def\<close>)

lemma send_history:
  assumes inv: "ct_inv srv tx" and h: "tx_history srv S R tx" and box: "set (schedule_msgs (ce_retrier env)) \<subseteq> S"
    and run: "send_requests ts (tx, env) = Inr (tx1, env1)"
  shows "tx_history srv (S \<union> set (schedule_msgs (ce_retrier env1))) R tx1"
proof (cases "ct_state tx = CTX_NOT_STARTED")
  case True
  then have "ct_participants tx = []" using inv by (simp add: ct_inv_def ct_mid_def)
  then have "tx1 = tx" "env1 = env" using run by (auto simp: send_requests_def)
  with h box show ?thesis by (simp add: Un_absorb2)
next
  case False
  then obtain p where p: "participant_mid p (\<lambda>_. False) srv tx" using inv by (auto simp: ct_inv_def ct_mid_def)
  obtain p1 env2 where s: "schedule_requests ts (p, env) = (p1, env2)" by (cases "schedule_requests ts (p, env)")
  then have tx1: "tx1 = tx\<lparr>ct_participants := [(srv, p1)]\<rparr>" "env1 = env2"
    using run p by (auto simp: send_requests_def participant_mid_def)
  have "rm_history srv (p_txid p) S R (p_requests p)" "rm_ok (p_requests p)" and id: "p_txid p = ct_txid tx"
    using h p by (auto simp: tx_history_def participant_mid_def)
  from schedule_history [OF s this(1,2)] obtain out where
      out: "schedule_msgs (ce_retrier env1) = schedule_msgs (ce_retrier env) @ out" "\<forall>m \<in> set out. msg_type m = MSG_PUT"
        "rm_history srv (ct_txid tx) (S \<union> set out) R (p_requests p1)"
    unfolding tx1(2) id by blast
  have "S \<union> set (schedule_msgs (ce_retrier env1)) = S \<union> set out" using out(1) box by auto
  with out(2,3) h show ?thesis by (auto simp: tx_history_def tx1(1))
qed

lemma ct_history_ok:
  assumes "ct_history srv spec sent received tx"
  shows "tx_history srv (set sent) received tx"
  using assms
proof (induction rule: ct_history.induct)
  case (start a)
  then show ?case by (simp add: tx_history_def make_client_tx_def)
next
  case (tick sent received tx env ts msgs scheduled out tx1 env1)
  have inv: "ct_inv srv tx" using ct_reach_inv [OF ct_history_reach [OF tick.hyps(1)]] by simp
  obtain txa txb envb envc where a: "receive_replies ts msgs tx = Inr txa"
      and b: "tick_state ts msgs (txa, env) = Inr (txb, envb)"
      and c: "send_requests ts (txb, envb) = Inr (tx1, envc)" and out: "out = schedule_msgs (ce_retrier envc)"
    using tick.hyps(3) by (auto simp: client_tx_tick_def get_scheduled_msgs_def result_simps)
  have msgs: "\<forall>m \<in> set msgs. told (\<lambda>_. True) (\<lambda>_. True) True m" by (simp add: told_any)
  have mid: "ct_mid (\<lambda>_. True) srv txa" using receive_replies_ok [OF inv msgs a] by simp
  have "ct_inv srv txb" using tick_state_ok [OF mid agrees_any msgs b] by simp
  from send_history [OF this state_history [OF mid receive_history [OF inv tick.IH a] tick.hyps(2) b] _ c]
  have h: "tx_history srv (set sent \<union> set (schedule_msgs (ce_retrier envb)) \<union> set out) (received @ msgs) tx1" by (simp add: out)
  have "set (schedule_msgs (ce_retrier envb)) \<subseteq> set out"
    using send_requests_ok [OF \<open>ct_inv srv txb\<close> c] by (auto simp: asks_def out)
  then have "set sent \<union> set (schedule_msgs (ce_retrier envb)) \<union> set out = set (sent @ out)" by auto
  with h show ?case by metis
qed

section \<open>Properties\<close>

text \<open>What the transaction reports, in order.\<close>

lemma reports_spec:
  assumes "ct_reach srv spec tx"
  shows "subseq (er_puts (export_results tx)) (spec_pairs spec) \<and> er_gets (export_results tx) = [] \<and>
    (ct_state tx \<in> {CTX_COMMIT_SENT, CTX_COMMITTED, CTX_ROLLED_BACK_BY_SERVER} \<longrightarrow>
      er_puts (export_results tx) = spec_pairs spec \<and> spec_action spec = ACTION_COMMIT)"
proof (cases "ct_state tx = CTX_NOT_STARTED")
  case True
  with ct_reach_inv [OF assms] export_puts [of srv tx] show ?thesis by (simp add: export_results_def)
next
  case False
  have inv: "ct_inv srv tx" and spec: "ct_spec tx = spec" using ct_reach_inv [OF assms] by auto
  obtain p where p: "participant_mid p (\<lambda>_. False) srv tx" using inv False by (auto simp: ct_inv_def ct_mid_def)
  then have puts: "er_puts (export_results tx) = rm_export_results (p_requests p) []"
    using export_puts [OF inv] False by (simp add: participant_mid_def)
  have rm: "rm_ok (p_requests p)" "rm_puts (p_requests p) = take (ct_next_put tx) (spec_pairs spec)"
    using p spec by (auto simp: participant_mid_def)
  have sub: "subseq (er_puts (export_results tx)) (spec_pairs spec)"
    using rm_export_subseq [of "p_requests p"] take_subseq [of "ct_next_put tx" "spec_pairs spec"]
    unfolding puts rm(2) by (rule subseq_order.trans)
  have "er_puts (export_results tx) = spec_pairs spec \<and> spec_action spec = ACTION_COMMIT"
    if "ct_state tx \<in> {CTX_COMMIT_SENT, CTX_COMMITTED, CTX_ROLLED_BACK_BY_SERVER}"
  proof -
    have c: "rm_completed_puts (p_requests p) = length (spec_pairs spec)" "spec_action spec = ACTION_COMMIT"
      using that p spec by (auto simp: participant_mid_def spec_pairs_def)
    moreover have "rm_completed_puts (p_requests p) \<le> length (rm_puts (p_requests p))"
      by (rule completed_bound [OF rm(1)])
    ultimately have "rm_puts (p_requests p) = spec_pairs spec" using rm(2) by simp
    with rm_export_all [OF rm(1)] c puts show ?thesis by simp
  qed
  with sub show ?thesis by (simp add: export_results_def)
qed

lemma reports_acknowledged:
  assumes "ct_inv srv tx" and h: "tx_history srv S R tx"
  shows "\<forall>p \<in> set (er_puts (export_results tx)). acknowledged srv (ct_txid tx) S R p"
    and "length (er_puts (export_results tx)) \<le> length (filter (put_reply_from srv) R)"
proof -
  have "(\<forall>p \<in> set (er_puts (export_results tx)). acknowledged srv (ct_txid tx) S R p) \<and>
    length (er_puts (export_results tx)) \<le> length (filter (put_reply_from srv) R)"
  proof (cases "ct_state tx = CTX_NOT_STARTED")
    case True
    with export_puts [OF assms(1)] show ?thesis by simp
  next
    case False
    then obtain p where p: "participant_mid p (\<lambda>_. False) srv tx" using assms(1) by (auto simp: ct_inv_def ct_mid_def)
    let ?rm = "p_requests p"
    have puts: "er_puts (export_results tx) = rm_export_results ?rm []"
      using export_puts [OF assms(1)] False p by (simp add: participant_mid_def)
    have rm: "rm_history srv (ct_txid tx) S R ?rm" and ok: "rm_ok ?rm" using h p by (auto simp: tx_history_def participant_mid_def)
    then show ?thesis unfolding puts by (auto simp: rm_history_def rm_ok_def rm_export_results_def rs_pair_def)
  qed
  then show "\<forall>p \<in> set (er_puts (export_results tx)). acknowledged srv (ct_txid tx) S R p"
    and "length (er_puts (export_results tx)) \<le> length (filter (put_reply_from srv) R)" by auto
qed

text \<open>C18. Whatever messages arrive, a transaction reports a put only after the server acknowledged it: it reports
  puts of its specification, in its order, and each of them was sent in a message whose identifier a
  reply of the server named that has been received; no more puts are reported than replies were received. It asks for the
  commit only when the specification says so and all puts have come so far, and from then on it reports
  all of them.\<close>

theorem client_commits_after_all_puts:
  assumes "ct_history srv spec sent received tx"
  shows "subseq (er_puts (export_results tx)) (spec_pairs spec) \<and>
    (\<forall>(key, value) \<in> set (er_puts (export_results tx)). \<exists>m \<in> set sent. \<exists>r \<in> set received.
       msg_type m = MSG_PUT \<and> msg_payload m = MsgPutPayload (ct_txid tx) key value \<and>
       msg_type r = MSG_PUT_REPLY \<and> msg_source r = srv \<and> (\<exists>i. msg_payload r = MsgPutReplyPayload i (msg_id m))) \<and>
    length (er_puts (export_results tx)) \<le> length (filter (\<lambda>r. msg_type r = MSG_PUT_REPLY \<and> msg_source r = srv) received) \<and>
    ((\<exists>m \<in> set sent. msg_type m = MSG_COMMIT) \<or> ct_state tx \<in> {CTX_COMMIT_SENT, CTX_COMMITTED, CTX_ROLLED_BACK_BY_SERVER} \<longrightarrow>
      er_puts (export_results tx) = spec_pairs spec \<and> spec_action spec = ACTION_COMMIT)"
proof -
  have reach: "ct_reach srv spec tx" by (rule ct_history_reach [OF assms])
  have h: "tx_history srv (set sent) received tx" by (rule ct_history_ok [OF assms])
  have inv: "ct_inv srv tx" using ct_reach_inv [OF reach] by simp
  have late: "ct_state tx \<in> {CTX_COMMIT_SENT, CTX_COMMITTED, CTX_ROLLED_BACK_BY_SERVER}" if "\<exists>m \<in> set sent. msg_type m = MSG_COMMIT"
    using that h by (cases "ct_state tx") (auto simp: tx_history_def)
  note r = reports_acknowledged [OF inv h]
  have "\<forall>(key, value) \<in> set (er_puts (export_results tx)). \<exists>m \<in> set sent. \<exists>r \<in> set received.
       msg_type m = MSG_PUT \<and> msg_payload m = MsgPutPayload (ct_txid tx) key value \<and>
       msg_type r = MSG_PUT_REPLY \<and> msg_source r = srv \<and> (\<exists>i. msg_payload r = MsgPutReplyPayload i (msg_id m))"
  proof (intro ballI, clarify)
    fix k v assume "(k, v) \<in> set (er_puts (export_results tx))"
    then have "acknowledged srv (ct_txid tx) (set sent) received (k, v)" using r(1) by blast
    then show "\<exists>m \<in> set sent. \<exists>r \<in> set received.
       msg_type m = MSG_PUT \<and> msg_payload m = MsgPutPayload (ct_txid tx) k v \<and>
       msg_type r = MSG_PUT_REPLY \<and> msg_source r = srv \<and> (\<exists>i. msg_payload r = MsgPutReplyPayload i (msg_id m))"
      unfolding acknowledged_def carries_put_def put_reply_from_def replies_to_def by auto
  qed
  with reports_spec [OF reach] late r(2) show ?thesis unfolding put_reply_from_def by blast
qed

text \<open>The demonstration of \<open>Client_Tx_Runs\<close>, with its messages; the put is the second message made, so
  the reply to it names the identifier 2.\<close>

definition recorded_step :: "msg_payload list \<Rightarrow> message list \<times> message list \<times> client_tx \<times> cl_env \<Rightarrow>
    (message list \<times> message list \<times> client_tx \<times> cl_env) result" where
  "recorded_step ps = (\<lambda>(sent, received, tx, env). bindE (client_tx_tick 1 (map client_demo_reply ps) [] (tx, env))
     (\<lambda>(out, tx1, env1). Inr (sent @ out, received @ map client_demo_reply ps, tx1, env1)))"

definition recorded_run :: "tx_action \<Rightarrow> msg_payload list list \<Rightarrow> (message list \<times> message list \<times> client_tx \<times> cl_env) result" where
  "recorded_run a pss = foldE recorded_step pss ([], [], make_client_tx 2 (client_demo_spec a) (discovery_single 1), client_demo_env)"

lemma recorded_run_history:
  assumes "recorded_run a pss = Inr (sent, received, tx, env)"
  shows "ct_history 1 (client_demo_spec a) sent received tx"
proof -
  let ?P = "\<lambda>(sent, received, tx, env). ct_history 1 (client_demo_spec a) sent received tx \<and> schedule_msgs (ce_retrier env) = []"
  have "?P (sent, received, tx, env)"
  proof (rule foldE_invariant [OF assms [unfolded recorded_run_def], where P = ?P])
    show "?P ([], [], make_client_tx 2 (client_demo_spec a) (discovery_single 1), client_demo_env)"
      using ct_history.start by (simp add: client_demo_env_def retrier_init_def)
    fix ps s s1 assume now: "?P s" and step: "recorded_step ps s = Inr s1"
    obtain sent received tx env where s: "s = (sent, received, tx, env)" by (cases s)
    then obtain out tx1 env1 where run: "client_tx_tick 1 (map client_demo_reply ps) [] (tx, env) = Inr (out, tx1, env1)"
        and s1: "s1 = (sent @ out, received @ map client_demo_reply ps, tx1, env1)"
      using step by (auto simp: recorded_step_def result_simps)
    have h: "ct_history 1 (client_demo_spec a) sent received tx" "schedule_msgs (ce_retrier env) = []" using now s by simp_all
    have "ct_inv 1 tx" using ct_reach_inv [OF ct_history_reach [OF h(1)]] by simp
    from client_tx_tick_ok [OF this agrees_any _ run] have "schedule_msgs (ce_retrier env1) = []" by (simp add: told_any)
    moreover have "ct_history 1 (client_demo_spec a) (sent @ out) (received @ map client_demo_reply ps) tx1"
      by (rule ct_history.tick [OF h, where scheduled = "[]"]) (use run in simp)
    ultimately show "?P s1" by (simp add: s1)
  qed
  then show ?thesis by simp
qed

theorem client_commits_after_all_puts_witness:
  "\<exists>sent received tx env. recorded_run ACTION_COMMIT [[], [MsgAckStartPayload 1001 1], [], [MsgPutReplyPayload 1001 2],
        [MsgCommitAckPayload 1001 9]] = Inr (sent, received, tx, env) \<and>
    ct_state tx = CTX_COMMITTED \<and> er_puts (export_results tx) = [(5, 10)] \<and>
    (\<exists>m \<in> set sent. \<exists>r \<in> set received. msg_payload m = MsgPutPayload (ct_txid tx) 5 10 \<and> (\<exists>i. msg_payload r = MsgPutReplyPayload i (msg_id m)))"
proof -
  obtain sent received tx env where run: "recorded_run ACTION_COMMIT [[], [MsgAckStartPayload 1001 1], [], [MsgPutReplyPayload 1001 2],
        [MsgCommitAckPayload 1001 9]] = Inr (sent, received, tx, env)" and state: "ct_state tx = CTX_COMMITTED"
    by (simp add: recorded_run_def recorded_step_def client_eval)
  note c = client_commits_after_all_puts [OF recorded_run_history [OF run]]
  then have puts: "er_puts (export_results tx) = [(5, 10)]" using state by (simp add: spec_pairs_def client_demo_spec_def)
  with c have "\<exists>m \<in> set sent. \<exists>r \<in> set received. msg_type m = MSG_PUT \<and> msg_payload m = MsgPutPayload (ct_txid tx) 5 10 \<and>
      msg_type r = MSG_PUT_REPLY \<and> msg_source r = 1 \<and> (\<exists>i. msg_payload r = MsgPutReplyPayload i (msg_id m))"
    by simp
  with run state puts show ?thesis by blast
qed

end
