(* ===== verification/Client.thy ===== *)
theory Client
  imports Client_Tx
begin

text \<open>
  \<open>src/tx/client/client.{h,cpp}\<close>: the client actor, a list of transactions that share an outbox and a
  way out. A tick sorts the messages by transaction and ticks every transaction, each at a
  timestamp of its own, with the messages that are its.
\<close>

section \<open>The class Client\<close>

record client =
  cl_actor_id :: int
  cl_discovery :: discovery
  cl_proxy :: proxy_runtime
  cl_retrier :: retrier
  cl_transactions :: "client_tx list"

definition make_client :: "int \<Rightarrow> tx_spec list \<Rightarrow> discovery \<Rightarrow> proxy_runtime \<Rightarrow> client" where
  "make_client actor_id tx_specs d proxy = \<lparr>cl_actor_id = actor_id, cl_discovery = d, cl_proxy = proxy,
     cl_retrier = retrier_init, cl_transactions = map (\<lambda>spec. make_client_tx actor_id spec d) tx_specs\<rparr>"

definition get_tx :: "nat \<Rightarrow> client \<Rightarrow> client_tx result" where
  "get_tx index c =
     bindE (definedE (index < length (cl_transactions c)) ''transactions_[index]'') (\<lambda>_.
       Inr (cl_transactions c ! index))"

definition client_route_msg :: "message \<Rightarrow> groups \<Rightarrow> groups result" where
  "client_route_msg m groups =
     bindE (get_txid_from_msg_payload m) (\<lambda>txid.
       Inr (if txid \<noteq> UNDEFINED_TX_ID then push_back_at txid m groups else groups))"

text \<open>\<open>std::move(it->second)\<close> leaves the entry, empty.\<close>

definition move_out :: "int \<Rightarrow> groups \<Rightarrow> groups" where
  "move_out txid groups = map (\<lambda>(i, ms). (i, if i = txid then [] else ms)) groups"

text \<open>The body of the loop over the transactions.\<close>

definition tick_client_tx :: "client_tx \<Rightarrow> clock \<times> groups \<times> cl_env \<times> message list \<Rightarrow>
    (client_tx \<times> clock \<times> groups \<times> cl_env \<times> message list) result" where
  "tick_client_tx tx = (\<lambda>(clock, groups, env, scheduled).
     let txid = ct_txid tx;
         (tx_msgs, groups1) = (if txid \<noteq> UNDEFINED_TX_ID then (group_of txid groups, move_out txid groups) else ([], groups));
         (ts, clock1) = clock_next clock in
     bindE (client_tx_tick ts tx_msgs scheduled (tx, env)) (\<lambda>(scheduled1, tx1, env1).
       Inr (tx1, clock1, groups1, env1, scheduled1)))"

text \<open>The result: the clock, the messages handed to the runtime, and the client.\<close>

definition client_on_tick :: "clock \<Rightarrow> message list \<Rightarrow> client \<times> generator \<Rightarrow>
    (clock \<times> message list \<times> client \<times> generator) result" where
  "client_on_tick clock msgs s =
     bindE (foldE client_route_msg msgs []) (\<lambda>groups.
     bindE (traverseE tick_client_tx (cl_transactions (fst s))
         (clock, groups, \<lparr>ce_retrier = cl_retrier (fst s), ce_gen = snd s\<rparr>, []))
       (\<lambda>(txs, clock1, _, env1, scheduled).
         Inr (clock1, map (proxy_send (cl_proxy (fst s))) scheduled,
           (fst s)\<lparr>cl_retrier := ce_retrier env1, cl_transactions := txs\<rparr>, ce_gen env1)))"

section \<open>What a client knows\<close>

text \<open>A view of the server: for each transaction the snapshots, the commit timestamps and the rollback
  that are true of it. A message agrees with the view if it says what is true of the transaction
  it names; so does a client if all its transactions do.\<close>

type_synonym server_view = "(int \<Rightarrow> int \<Rightarrow> bool) \<times> (int \<Rightarrow> int \<Rightarrow> bool) \<times> (int \<Rightarrow> bool)"

definition msg_true :: "server_view \<Rightarrow> message \<Rightarrow> bool" where
  "msg_true V m = (case V of (R, C, D) \<Rightarrow>
     let i = payload_txid (msg_payload m) in told (R i) (C i) (D i) m)"

definition tx_true :: "server_view \<Rightarrow> client_tx \<Rightarrow> bool" where
  "tx_true V tx = (case V of (R, C, D) \<Rightarrow> ct_agrees (R (ct_txid tx)) (C (ct_txid tx)) (D (ct_txid tx)) tx)"

definition client_ok :: "int \<Rightarrow> server_view \<Rightarrow> client \<Rightarrow> bool" where
  "client_ok srv V c \<longleftrightarrow> schedule_msgs (cl_retrier c) = [] \<and>
     (\<forall>tx \<in> set (cl_transactions c). ct_inv srv tx \<and> tx_true V tx)"

lemma group_of_push_back:
  "group_of i (push_back_at k m g) = (if i = k then group_of i g @ [m] else group_of i g)"
  by (induction k m g rule: push_back_at.induct) (auto simp: group_of_def)

lemma group_of_move_out: "group_of i (move_out k g) = (if i = k then [] else group_of i g)"
proof -
  have "map_of (move_out k g) i = map_option (\<lambda>ms. if i = k then [] else ms) (map_of g i)"
    by (induction g) (auto simp: move_out_def)
  then show ?thesis by (cases "map_of g i") (auto simp: group_of_def)
qed

text \<open>Every message of a group is of its transaction and was among those routed.\<close>

definition routed :: "message list \<Rightarrow> groups \<Rightarrow> bool" where
  "routed msgs groups \<longleftrightarrow> (\<forall>i. \<forall>m \<in> set (group_of i groups). m \<in> set msgs \<and> payload_txid (msg_payload m) = i)"

lemma client_route_msgs:
  assumes "foldE client_route_msg msgs groups = Inr groups'" and "routed all groups" and "set msgs \<subseteq> set all"
  shows "routed all groups'"
proof (rule foldE_invariant [where P = "routed all", OF assms(1,2)])
  fix m g g' assume m: "m \<in> set msgs" and g: "routed all g" and step: "client_route_msg m g = Inr g'"
  then obtain i where i: "get_txid_from_msg_payload m = Inr i"
      "g' = (if i \<noteq> UNDEFINED_TX_ID then push_back_at i m g else g)"
    by (auto simp: client_route_msg_def result_simps)
  then have "i \<noteq> UNDEFINED_TX_ID \<Longrightarrow> payload_txid (msg_payload m) = i" by (auto simp: get_txid_cases)
  with i m g assms(3) show "routed all g'" by (auto simp: routed_def group_of_push_back)
qed

lemma routed_move_out: "routed all g \<Longrightarrow> routed all (move_out k g)"
  by (simp add: routed_def group_of_move_out)

lemma fresh_tx_true:
  assumes "ct_inv srv tx" and "ct_txid tx = UNDEFINED_TX_ID"
  shows "ct_state tx = CTX_NOT_STARTED"
  using assms by (auto simp: ct_inv_def ct_mid_def split: if_splits)

lemma tick_client_tx_ok:
  assumes inv: "ct_inv srv tx" and tx: "tx_true V tx" and groups: "routed all groups" and all: "\<forall>m \<in> set all. msg_true V m"
    and empty: "schedule_msgs (ce_retrier env) = []"
    and step: "tick_client_tx tx (clock, groups, env, scheduled) = Inr (tx1, clock1, groups1, env1, scheduled1)"
  shows "ct_inv srv tx1 \<and> tx_true V tx1 \<and> same_tx tx tx1 \<and> routed all groups1 \<and> schedule_msgs (ce_retrier env1) = [] \<and>
    tm clock1 = tm clock + 1 \<and>
    (\<exists>out. scheduled1 = scheduled @ out \<and> (\<forall>m \<in> set out. request_ok srv (ct_txid tx1) m))"
proof -
  obtain R C D where V: "V = (R, C, D)" by (cases V)
  let ?defined = "ct_txid tx \<noteq> UNDEFINED_TX_ID"
  let ?ms = "if ?defined then group_of (ct_txid tx) groups else []"
  have run: "client_tx_tick (tm clock + 1) ?ms scheduled (tx, env) = Inr (scheduled1, tx1, env1)"
    and fin: "clock1 = clock\<lparr>tm := tm clock + 1\<rparr>"
      "groups1 = (if ?defined then move_out (ct_txid tx) groups else groups)"
    using step by (auto simp: tick_client_tx_def clock_next_def Let_def result_simps split: if_splits)
  define i where "i = (if ?defined then ct_txid tx else ct_txid tx1)"
  have agrees: "ct_agrees (R i) (C i) (D i) tx"
    using tx fresh_tx_true [OF inv] by (auto simp: V tx_true_def i_def ct_agrees_def)
  have msgs: "\<forall>m \<in> set ?ms. told (R i) (C i) (D i) m"
  proof
    fix m assume m: "m \<in> set ?ms"
    then have "payload_txid (msg_payload m) = i" "m \<in> set all"
      using groups by (auto simp: routed_def i_def split: if_splits)
    with all show "told (R i) (C i) (D i) m" by (auto simp: V msg_true_def Let_def)
  qed
  note r = client_tx_tick_ok [OF inv agrees msgs run]
  then have "ct_txid tx1 = i" by (auto simp: same_tx_def i_def)
  with r have "tx_true V tx1" by (simp add: V tx_true_def)
  then show ?thesis using r empty groups fin by (auto intro: routed_move_out)
qed

section \<open>A tick of the client\<close>

lemma tick_client_txs_ok:
  assumes "\<forall>tx \<in> set txs. ct_inv srv tx \<and> tx_true V tx" and "routed all groups" and "\<forall>m \<in> set all. msg_true V m"
    and "schedule_msgs (ce_retrier env) = []"
    and "traverseE tick_client_tx txs (clock, groups, env, scheduled) = Inr (txs1, clock1, groups1, env1, scheduled1)"
  shows "(\<forall>tx \<in> set txs1. ct_inv srv tx \<and> tx_true V tx) \<and> list_all2 same_tx txs txs1 \<and>
    schedule_msgs (ce_retrier env1) = [] \<and> tm clock1 = tm clock + int (length txs) \<and>
    (\<exists>out. scheduled1 = scheduled @ out \<and> (\<forall>m \<in> set out. \<exists>tx \<in> set txs1. request_ok srv (ct_txid tx) m))"
  using assms
proof (induction txs arbitrary: clock groups env scheduled txs1)
  case (Cons tx txs)
  obtain y c1 g1 e1 s1 ys where a: "tick_client_tx tx (clock, groups, env, scheduled) = Inr (y, c1, g1, e1, s1)"
      and b: "traverseE tick_client_tx txs (c1, g1, e1, s1) = Inr (ys, clock1, groups1, env1, scheduled1)" "txs1 = y # ys"
    using Cons.prems(5) by (auto simp: traverseE_Cons simp del: traverseE.simps)
  have "ct_inv srv tx" "tx_true V tx" using Cons.prems(1) by auto
  from tick_client_tx_ok [OF this Cons.prems(2-4) a] obtain out1 where one: "ct_inv srv y" "tx_true V y" "same_tx tx y"
      "routed all g1" "schedule_msgs (ce_retrier e1) = []" "tm c1 = tm clock + 1" "s1 = scheduled @ out1"
      "\<forall>m \<in> set out1. request_ok srv (ct_txid y) m"
    by blast
  have rest: "\<forall>tx \<in> set txs. ct_inv srv tx \<and> tx_true V tx" using Cons.prems(1) by simp
  from Cons.IH [OF rest one(4) Cons.prems(3) one(5) b(1)] obtain out2 where two:
      "\<forall>tx \<in> set ys. ct_inv srv tx \<and> tx_true V tx" "list_all2 same_tx txs ys" "schedule_msgs (ce_retrier env1) = []"
      "tm clock1 = tm c1 + int (length txs)" "scheduled1 = s1 @ out2"
      "\<forall>m \<in> set out2. \<exists>tx \<in> set ys. request_ok srv (ct_txid tx) m"
    by blast
  have "\<forall>m \<in> set (out1 @ out2). \<exists>tx \<in> set txs1. request_ok srv (ct_txid tx) m"
    using one(8) two(6) b(2) by auto
  then have "\<exists>out. scheduled1 = scheduled @ out \<and> (\<forall>m \<in> set out. \<exists>tx \<in> set txs1. request_ok srv (ct_txid tx) m)"
    using one(7) two(5) by (intro exI [of _ "out1 @ out2"]) simp
  with one(1-3,6) two(1-4) b(2) show ?case by simp
qed simp

lemma request_true: "request_ok srv i m \<Longrightarrow> msg_true V m"
  by (cases V) (auto simp: request_ok_def msg_true_def told_def)

lemma client_on_tick_ok:
  assumes ok: "client_ok srv V c" and msgs: "\<forall>m \<in> set msgs. msg_true V m"
    and step: "client_on_tick clock msgs (c, g) = Inr (clock1, out, c1, g1)"
  shows "client_ok srv V c1 \<and> tm clock1 = tm clock + int (length (cl_transactions c)) \<and>
    cl_actor_id c1 = cl_actor_id c \<and> list_all2 same_tx (cl_transactions c) (cl_transactions c1) \<and>
    (\<forall>m \<in> set out. msg_true V m \<and> msg_destination m = srv \<and> msg_source m = pr_source_actor_id (cl_proxy c1))"
proof -
  obtain groups groups1 env1 sent where route: "foldE client_route_msg msgs [] = Inr groups"
      and run: "traverseE tick_client_tx (cl_transactions c)
        (clock, groups, \<lparr>ce_retrier = cl_retrier c, ce_gen = g\<rparr>, []) = Inr (cl_transactions c1, clock1, groups1, env1, sent)"
      and fin: "c1 = c\<lparr>cl_retrier := ce_retrier env1, cl_transactions := cl_transactions c1\<rparr>"
        "out = map (proxy_send (cl_proxy c)) sent"
    using step by (auto simp: client_on_tick_def result_simps)
  have groups: "routed msgs groups" using client_route_msgs [OF route, of msgs] by (simp add: routed_def group_of_def)
  have txs: "\<forall>tx \<in> set (cl_transactions c). ct_inv srv tx \<and> tx_true V tx" and empty: "schedule_msgs (cl_retrier c) = []"
    using ok by (auto simp: client_ok_def)
  from tick_client_txs_ok [OF txs groups msgs _ run] empty
  have r: "\<forall>tx \<in> set (cl_transactions c1). ct_inv srv tx \<and> tx_true V tx"
      "list_all2 same_tx (cl_transactions c) (cl_transactions c1)" "schedule_msgs (ce_retrier env1) = []"
      "tm clock1 = tm clock + int (length (cl_transactions c))"
      "\<forall>m \<in> set sent. \<exists>tx \<in> set (cl_transactions c1). request_ok srv (ct_txid tx) m"
    by auto
  have "cl_retrier c1 = ce_retrier env1" "cl_actor_id c1 = cl_actor_id c" "cl_proxy c1 = cl_proxy c"
    using arg_cong [OF fin(1), of cl_retrier] arg_cong [OF fin(1), of cl_actor_id] arg_cong [OF fin(1), of cl_proxy] by simp_all
  moreover have "msg_true V (proxy_send p m) \<and> msg_destination (proxy_send p m) = srv" if "request_ok srv i m" for p m i
    using that request_true [of srv i "proxy_send p m" V] by (simp add: request_ok_def)
  ultimately show ?thesis using r fin(2) by (fastforce simp: client_ok_def)
qed

lemma make_client_ok: "client_ok srv V (make_client a specs (discovery_single srv) p)"
proof -
  have "ct_inv srv tx \<and> tx_true V tx" if "tx \<in> (\<lambda>spec. make_client_tx a spec (discovery_single srv)) ` set specs" for tx
    using that make_client_tx_inv [of srv a] by (cases V) (auto simp: tx_true_def ct_agrees_def make_client_tx_def)
  then show ?thesis by (auto simp: client_ok_def make_client_def retrier_init_def)
qed

end
