(* ===== verification/Request_Ids.thy ===== *)
theory Request_Ids
  imports Client_Tx
begin

text \<open>
  The message identifiers a \<open>RequestsManager\<close> (\<open>src/tx/client/requests_manager.cpp\<close>) keeps, to tell which
  request a reply answers. As long as no two puts of the transaction were given the same
  identifier (they are 32-bit and wrap around), every reply completes the request it answers.
\<close>

definition waiting :: "requests_manager \<Rightarrow> u32 set" where
  "waiting rm = {x. \<exists>k. table_scheduled_puts rm x = Some k \<and> rs_status (puts_table_status rm ! k) = REQUEST_START}"

text \<open>Two requests sent under one identifier: the second took the place of the first.\<close>

definition repeated :: "requests_manager \<Rightarrow> bool" where
  "repeated rm \<longleftrightarrow> card (dom (table_scheduled_puts rm)) < rm_next_put rm"

definition ids_ok :: "requests_manager \<Rightarrow> bool" where
  "ids_ok rm \<longleftrightarrow> finite (dom (table_scheduled_puts rm)) \<and> card (dom (table_scheduled_puts rm)) \<le> rm_next_put rm \<and>
     (\<forall>x k. table_scheduled_puts rm x = Some k \<longrightarrow> k < rm_next_put rm) \<and>
     (\<not> repeated rm \<longrightarrow> inj_on (table_scheduled_puts rm) (dom (table_scheduled_puts rm))) \<and>
     (\<forall>k < rm_next_put rm. rs_status (puts_table_status rm ! k) \<noteq> REQUEST_NOT_STARTED)"

lemma ids_ok_make: "ids_ok make_requests_manager" "waiting make_requests_manager = {}" "\<not> repeated make_requests_manager"
  by (simp_all add: ids_ok_def waiting_def repeated_def make_requests_manager_def)

lemma finite_waiting: "ids_ok rm \<Longrightarrow> finite (waiting rm)"
  by (rule finite_subset [of _ "dom (table_scheduled_puts rm)"]) (auto simp: waiting_def ids_ok_def)

text \<open>A generator after it has given out \<open>n\<close> message identifiers, and the first \<open>n\<close> after \<open>b\<close>.\<close>

definition created :: "nat \<Rightarrow> generator \<Rightarrow> generator" where
  "created n g = g\<lparr>g_msg_id := g_msg_id g + of_nat n\<rparr>"

lemma created_simps [simp]: "created 0 g = g" "created n (created k g) = created (k + n) g" "g_tx_id (created n g) = g_tx_id g"
    "g_msg_id (created n g) = g_msg_id g + of_nat n"
  by (simp_all add: created_def add.assoc)

definition issued :: "u32 \<Rightarrow> nat \<Rightarrow> u32 set" where
  "issued b n = (\<lambda>j. b + of_nat j) ` {1..n}"

lemma issued_mono: "k \<le> n \<Longrightarrow> issued b k \<subseteq> issued b n"
  by (auto simp: issued_def)

lemma issued_later: "issued (b + of_nat k) n \<subseteq> issued b (k + n)"
proof
  fix x assume "x \<in> issued (b + of_nat k) n"
  then obtain j where j: "j \<in> {1..n}" "x = b + of_nat k + of_nat j" unfolding issued_def by blast
  from j(2) have "x = b + of_nat (k + j)" by (simp add: add.assoc)
  moreover have "k + j \<in> {1..k + n}" using j(1) by simp
  ultimately show "x \<in> issued b (k + n)" unfolding issued_def by (rule image_eqI)
qed

lemma issued_new:
  assumes "k + n < 2 ^ 32"
  shows "issued b k \<inter> issued (b + of_nat k) n = {}"
proof (rule ccontr)
  assume "issued b k \<inter> issued (b + of_nat k) n \<noteq> {}"
  then obtain i j where ij: "i \<le> k" "1 \<le> j" "j \<le> n" "b + of_nat i = b + of_nat k + of_nat j" by (auto simp: issued_def)
  from ij(4) have "of_nat i = (of_nat (k + j) :: u32)" by (simp add: add.assoc)
  then have "unat (of_nat i :: u32) = unat (of_nat (k + j) :: u32)" by (rule arg_cong)
  then have "i mod 2 ^ 32 = (k + j) mod 2 ^ 32" unfolding unat_of_nat by simp
  then have "i = k + j" using ij(1,3) assms by simp
  with ij show False by simp
qed

text \<open>A table whose identifiers are among the first \<open>k\<close> of the generator; it grows by newer ones.\<close>

definition fresh_ids :: "u32 \<Rightarrow> nat \<Rightarrow> requests_manager \<Rightarrow> bool" where
  "fresh_ids b k rm \<longleftrightarrow> dom (table_scheduled_puts rm) \<subseteq> issued b k \<and> (k < 2 ^ 32 \<longrightarrow> \<not> repeated rm)"

definition numbered :: "u32 \<Rightarrow> nat \<Rightarrow> requests_manager \<Rightarrow> requests_manager \<Rightarrow> bool" where
  "numbered b n rm rm1 \<longleftrightarrow> dom (table_scheduled_puts rm1) \<subseteq> dom (table_scheduled_puts rm) \<union> issued b n \<and>
     (repeated rm1 \<longrightarrow> repeated rm \<or> dom (table_scheduled_puts rm) \<inter> issued b n \<noteq> {})"

lemma numbered_same:
  "table_scheduled_puts rm1 = table_scheduled_puts rm \<Longrightarrow> (repeated rm1 \<longleftrightarrow> repeated rm) \<Longrightarrow> numbered b n rm rm1"
  by (simp add: numbered_def)

lemma fresh_ids_mono: "fresh_ids b k rm \<Longrightarrow> k \<le> n \<Longrightarrow> fresh_ids b n rm"
  using issued_mono [of k n b] by (auto simp: fresh_ids_def)

lemma fresh_ids_numbered:
  assumes f: "fresh_ids b k rm" and n: "numbered (b + of_nat k) n rm rm1"
  shows "fresh_ids b (k + n) rm1"
proof -
  have old: "dom (table_scheduled_puts rm) \<subseteq> issued b k" using f by (simp add: fresh_ids_def)
  have "dom (table_scheduled_puts rm1) \<subseteq> dom (table_scheduled_puts rm) \<union> issued (b + of_nat k) n"
    using n by (simp add: numbered_def)
  also have "\<dots> \<subseteq> issued b (k + n)" using old issued_mono [of k "k + n" b] issued_later [of b k n] by (intro Un_least) simp_all
  finally have "dom (table_scheduled_puts rm1) \<subseteq> issued b (k + n)" .
  moreover have "\<not> repeated rm1" if small: "k + n < 2 ^ 32"
  proof -
    have "dom (table_scheduled_puts rm) \<inter> issued (b + of_nat k) n = {}" using old issued_new [OF small, of b] by blast
    moreover have "\<not> repeated rm" using f small by (simp add: fresh_ids_def)
    ultimately show ?thesis using n unfolding numbered_def by blast
  qed
  ultimately show ?thesis by (simp add: fresh_ids_def)
qed

lemma fresh_ids_make: "fresh_ids b k make_requests_manager"
  by (simp add: fresh_ids_def repeated_def make_requests_manager_def)

text \<open>A reply whose request is waiting completes it.\<close>

lemma complete_request_table:
  assumes "complete_request x rm = Inr rm1"
  shows "table_scheduled_puts rm1 = table_scheduled_puts rm" and "rm_next_put rm1 = rm_next_put rm"
    and "repeated rm1 \<longleftrightarrow> repeated rm"
  using assms by (auto simp: complete_request_def repeated_def Let_def result_simps split: option.splits if_splits)

lemma nth_update_any: "xs[i := y] ! k = (if k = i \<and> i < length xs then y else xs ! k)"
  by (cases "i < length xs") (auto simp: nth_list_update list_update_beyond)

lemma complete_request_ids:
  assumes run: "complete_request x rm = Inr rm1" and ok: "ids_ok rm"
  shows "ids_ok rm1"
proof -
  have "rs_status (puts_table_status rm1 ! k) \<noteq> REQUEST_NOT_STARTED"
    if "rs_status (puts_table_status rm ! k) \<noteq> REQUEST_NOT_STARTED" for k
    using run that
    by (auto simp: complete_request_def Let_def result_simps nth_update_any split: option.splits if_splits)
  then show ?thesis
    using ok complete_request_table [OF run] unfolding ids_ok_def by simp
qed

lemma complete_request_waiting:
  assumes run: "complete_request x rm = Inr rm1" and ok: "ids_ok rm" and one: "\<not> repeated rm" and x: "x \<in> waiting rm"
  shows "waiting rm1 = waiting rm - {x}" and "rm_completed_puts rm1 = rm_completed_puts rm + 1"
proof -
  obtain k where k: "table_scheduled_puts rm x = Some k" "rs_status (puts_table_status rm ! k) = REQUEST_START"
    using x by (auto simp: waiting_def)
  then have rm1: "rm1 = rm\<lparr>puts_table_status := (puts_table_status rm)[k := (puts_table_status rm ! k)\<lparr>rs_status := REQUEST_COMPLETED\<rparr>],
      rm_completed_puts := rm_completed_puts rm + 1\<rparr>" and len: "k < length (puts_table_status rm)"
    using run by (auto simp: complete_request_def Let_def result_simps)
  then show "rm_completed_puts rm1 = rm_completed_puts rm + 1" by simp
  have "inj_on (table_scheduled_puts rm) (dom (table_scheduled_puts rm))" using ok one by (simp add: ids_ok_def)
  then have "j \<noteq> k" if "table_scheduled_puts rm y = Some j" "y \<noteq> x" for y j
    using k(1) that by (metis domI inj_onD)
  then have "y \<in> waiting rm1 \<longleftrightarrow> y \<in> waiting rm \<and> y \<noteq> x" for y
    using k len by (cases "y = x") (auto simp: waiting_def rm1 nth_update_any)
  then show "waiting rm1 = waiting rm - {x}" by auto
qed

text \<open>A request is added, and sent under a new message's identifier.\<close>

lemma add_put_ids:
  assumes "ids_ok rm" and "rm_ok rm"
  shows "ids_ok (rm_add_put key value rm)" and "waiting (rm_add_put key value rm) = waiting rm"
    and "repeated (rm_add_put key value rm) \<longleftrightarrow> repeated rm"
proof -
  have "rm_next_put rm \<le> length (puts_table_status rm)"
    and at: "table_scheduled_puts rm x = Some k \<Longrightarrow> k < length (puts_table_status rm)" for x k
    using assms(2) by (auto simp: rm_ok_def)
  then show "ids_ok (rm_add_put key value rm)"
    using assms(1) by (auto simp: ids_ok_def rm_add_put_def repeated_def nth_append)
  show "waiting (rm_add_put key value rm) = waiting rm"
    using at by (fastforce simp: waiting_def rm_add_put_def nth_append)
  show "repeated (rm_add_put key value rm) \<longleftrightarrow> repeated rm" by (simp add: repeated_def rm_add_put_def)
qed

definition put_started :: "u32 \<Rightarrow> nat \<Rightarrow> requests_manager \<Rightarrow> requests_manager" where
  "put_started x k rm = rm\<lparr>puts_table_status := (puts_table_status rm)[k := (puts_table_status rm ! k)\<lparr>rs_status := REQUEST_START\<rparr>],
     table_scheduled_puts := (table_scheduled_puts rm)(x \<mapsto> k), rm_next_put := k + 1\<rparr>"

lemma put_started_repeated:
  assumes "ids_ok rm" and "k = rm_next_put rm"
  shows "repeated (put_started x k rm) \<longleftrightarrow> repeated rm \<or> x \<in> dom (table_scheduled_puts rm)"
    and "card (dom (table_scheduled_puts (put_started x k rm))) \<le> k + 1"
proof -
  let ?T = "table_scheduled_puts rm"
  have fin: "finite (dom ?T)" "card (dom ?T) \<le> k" using assms by (simp_all add: ids_ok_def)
  then have count: "card (dom (?T(x \<mapsto> k))) = card (dom ?T) + (if x \<in> dom ?T then 0 else 1)"
    by (simp add: insert_absorb)
  then show "repeated (put_started x k rm) \<longleftrightarrow> repeated rm \<or> x \<in> dom ?T"
    using fin(2) assms(2) by (auto simp: repeated_def put_started_def)
  show "card (dom (table_scheduled_puts (put_started x k rm))) \<le> k + 1"
    using count fin by (simp add: put_started_def)
qed

lemma put_started_ids:
  assumes ok: "ids_ok rm" and k: "k = rm_next_put rm" "k < length (puts_table_status rm)"
  shows "ids_ok (put_started x k rm)"
proof -
  let ?T = "table_scheduled_puts rm" and ?rm = "put_started x k rm"
  have at: "?T y = Some j \<Longrightarrow> j < k" for y j using ok k(1) by (auto simp: ids_ok_def)
  note rep = put_started_repeated [OF ok k(1), of x]
  have "finite (dom (table_scheduled_puts ?rm))" "card (dom (table_scheduled_puts ?rm)) \<le> rm_next_put ?rm"
    using ok rep(2) by (simp_all add: put_started_def ids_ok_def)
  moreover have "\<forall>y j. table_scheduled_puts ?rm y = Some j \<longrightarrow> j < rm_next_put ?rm"
    using at by (fastforce simp: put_started_def split: if_splits)
  moreover have "\<forall>j < rm_next_put ?rm. rs_status (puts_table_status ?rm ! j) \<noteq> REQUEST_NOT_STARTED"
    using ok k unfolding ids_ok_def by (auto simp: put_started_def nth_update_any)
  moreover have "inj_on (?T(x \<mapsto> k)) (dom (?T(x \<mapsto> k)))" if "\<not> repeated ?rm"
  proof -
    have "inj_on ?T (dom ?T)" using ok that rep(1) by (simp add: ids_ok_def)
    then show ?thesis using at by (auto simp: inj_on_def split: if_splits) (metis domI less_irrefl)+
  qed
  then have "\<not> repeated ?rm \<longrightarrow> inj_on (table_scheduled_puts ?rm) (dom (table_scheduled_puts ?rm))"
    by (simp add: put_started_def)
  ultimately show ?thesis unfolding ids_ok_def by blast
qed

lemma put_started_waiting:
  assumes ok: "ids_ok rm" and k: "k = rm_next_put rm" "k < length (puts_table_status rm)" and new: "x \<notin> dom (table_scheduled_puts rm)"
  shows "x \<notin> waiting rm \<and> waiting (put_started x k rm) = insert x (waiting rm)"
proof -
  have none: "table_scheduled_puts rm x = None" using new by auto
  have "y \<in> waiting (put_started x k rm) \<longleftrightarrow> y = x \<or> y \<in> waiting rm" for y
  proof (cases "y = x")
    case True
    then show ?thesis using k(2) by (auto simp: waiting_def put_started_def)
  next
    case False
    have "j \<noteq> k" if "table_scheduled_puts rm y = Some j" for j using ok k(1) that by (auto simp: ids_ok_def)
    with False show ?thesis by (auto simp: waiting_def put_started_def)
  qed
  moreover have "x \<notin> waiting rm" using none by (simp add: waiting_def)
  ultimately show ?thesis by auto
qed

lemma prepare_put_ids:
  assumes ok: "ids_ok rm" and k: "k = rm_next_put rm" "k < length (puts_table_status rm)"
    and run: "prepare_put c d txid ts k (rm, env) = (rm1, env1)"
  shows "\<exists>m. schedule_msgs (ce_retrier env1) = schedule_msgs (ce_retrier env) @ [m] \<and> ids_ok rm1 \<and>
    numbered (g_msg_id (ce_gen env)) 1 rm rm1 \<and> (repeated rm \<longrightarrow> repeated rm1) \<and>
    (\<not> repeated rm1 \<longrightarrow> msg_id m \<notin> waiting rm \<and> waiting rm1 = insert (msg_id m) (waiting rm))"
proof -
  let ?rs = "puts_table_status rm ! k"
  define m where "m = fst (create_msg_put c d txid (rs_key ?rs) (rs_value ?rs) (ce_gen env))"
  have sent: "schedule_msgs (ce_retrier env1) = schedule_msgs (ce_retrier env) @ [m]" and rm1: "rm1 = put_started (msg_id m) k rm"
    using run by (auto simp: prepare_put_def put_started_def m_def retrier_defs Let_def split: prod.splits)
  note rep = put_started_repeated(1) [OF ok k(1), of "msg_id m"]
  have "msg_id m \<in> issued (g_msg_id (ce_gen env)) 1" by (simp add: m_def create_msg_defs issued_def)
  then have "numbered (g_msg_id (ce_gen env)) 1 rm rm1" using rep by (auto simp: numbered_def rm1 put_started_def)
  then show ?thesis
    using sent rep put_started_ids [OF ok k] put_started_waiting [OF ok k, of "msg_id m"] unfolding rm1 by blast
qed

text \<open>With no request waiting, all are completed.\<close>

lemma nothing_waiting:
  assumes ok: "ids_ok rm" "rm_ok rm" and one: "\<not> repeated rm" and none: "waiting rm = {}"
    and all: "rm_next_put rm = length (puts_table_status rm)"
  shows "rm_completed_puts rm = length (puts_table_status rm)"
proof -
  let ?T = "table_scheduled_puts rm" and ?n = "rm_next_put rm"
  have at: "?T x = Some k \<Longrightarrow> k < ?n" for x k using ok(1) by (simp add: ids_ok_def)
  have fin: "finite (dom ?T)" "card (dom ?T) = ?n" "inj_on ?T (dom ?T)"
    using ok(1) one by (simp_all add: ids_ok_def) (simp add: repeated_def)
  have "y \<in> Some ` {..<?n}" if y: "y \<in> ?T ` dom ?T" for y
  proof -
    from y obtain x where x: "y = ?T x" "x \<in> dom ?T" by (rule imageE)
    from domD [OF x(2)] obtain k where "?T x = Some k" ..
    with at [OF this] x(1) show ?thesis by simp
  qed
  then have sub: "?T ` dom ?T \<subseteq> Some ` {..<?n}" by blast
  have "card (?T ` dom ?T) = card (Some ` {..<?n})" using fin by (simp add: card_image)
  then have onto: "?T ` dom ?T = Some ` {..<?n}" using sub by (intro card_subset_eq) simp_all
  have "rs_status (puts_table_status rm ! k) = REQUEST_COMPLETED" if "k < ?n" for k
  proof -
    have "Some k \<in> ?T ` dom ?T" unfolding onto using that by blast
    then obtain x where "Some k = ?T x" by (rule imageE)
    then have "?T x = Some k" ..
    then have "rs_status (puts_table_status rm ! k) \<noteq> REQUEST_START" using none by (auto simp: waiting_def)
    moreover have "rs_status (puts_table_status rm ! k) \<noteq> REQUEST_NOT_STARTED" using ok(1) that by (simp add: ids_ok_def)
    ultimately show ?thesis by (cases "rs_status (puts_table_status rm ! k)") simp_all
  qed
  then have "filter (\<lambda>rs. rs_status rs = REQUEST_COMPLETED) (puts_table_status rm) = puts_table_status rm"
    using all by (auto simp: filter_id_conv in_set_conv_nth)
  with ok(2) show ?thesis by (simp add: rm_ok_def)
qed

text \<open>The puts \<open>P\<close> and the replies \<open>R\<close> in flight are of the requests that wait.\<close>

definition replied :: "message \<Rightarrow> u32" where
  "replied m = (case msg_payload m of MsgPutReplyPayload _ x \<Rightarrow> x | _ \<Rightarrow> 0)"

definition answering :: "requests_manager \<Rightarrow> message multiset \<Rightarrow> message multiset \<Rightarrow> bool" where
  "answering rm P R \<longleftrightarrow> ids_ok rm \<and>
     (\<not> repeated rm \<longrightarrow> image_mset msg_id P + image_mset replied R = mset_set (waiting rm))"

lemma answering_make: "answering make_requests_manager {#} {#}"
  by (simp add: answering_def ids_ok_make)

lemma answering_reply:
  assumes "answering rm (add_mset m P) R" and "replied r = msg_id m"
  shows "answering rm P (add_mset r R)"
  using assms by (simp add: answering_def)

lemma answering_complete:
  assumes a: "answering rm P (add_mset r R)" and run: "complete_request (replied r) rm = Inr rm1"
  shows "answering rm1 P R" and "\<not> repeated rm1 \<Longrightarrow> rm_completed_puts rm1 = rm_completed_puts rm + 1"
proof -
  have ok: "ids_ok rm" "ids_ok rm1" and rep: "repeated rm1 \<longleftrightarrow> repeated rm"
    using a complete_request_ids [OF run] complete_request_table(3) [OF run] by (simp_all add: answering_def)
  have wait: "replied r \<in> waiting rm \<and> image_mset msg_id P + image_mset replied R = mset_set (waiting rm - {replied r})"
    if "\<not> repeated rm"
  proof -
    have eq: "add_mset (replied r) (image_mset msg_id P + image_mset replied R) = mset_set (waiting rm)"
      using a that by (simp add: answering_def)
    then have "replied r \<in># mset_set (waiting rm)" by (metis union_single_eq_member)
    with finite_waiting [OF ok(1)] have "replied r \<in> waiting rm" by simp
    moreover from this have "mset_set (waiting rm) = add_mset (replied r) (mset_set (waiting rm - {replied r}))"
      using finite_waiting [OF ok(1)] by (intro mset_set.remove)
    ultimately show ?thesis using eq by simp
  qed
  then show "answering rm1 P R"
    using ok rep complete_request_waiting [OF run ok(1)] unfolding answering_def by auto
  show "rm_completed_puts rm1 = rm_completed_puts rm + 1" if "\<not> repeated rm1"
    using that wait rep complete_request_waiting [OF run ok(1)] by blast
qed

end
