(* ===== verification/Conversation.thy ===== *)
theory Conversation
  imports Client Server Request_Ids
begin

text \<open>
  The conversation between a transaction on the client (\<open>src/tx/client/client_tx.cpp\<close>) and the one of
  the same identifier on the server (\<open>src/tx/server/server_tx.cpp\<close>): the two states and the multiset
  of the messages of the transaction in flight are in step. The rules of \<open>conv\<close> are the moments of
  a conversation. It follows that neither side is ever given a message it has no answer to: no tick
  of either ends in an exception or a failed assertion.
\<close>

section \<open>The moments of a conversation\<close>

definition request_of :: "int \<Rightarrow> client_tx \<Rightarrow> message_type \<Rightarrow> message \<Rightarrow> bool" where
  "request_of srv tx ty m \<longleftrightarrow> msg_type m = ty \<and> typed m \<and> payload_txid (msg_payload m) = ct_txid tx \<and>
     msg_source m = ct_actor_id tx \<and> msg_destination m = srv"

definition reply_to :: "int \<Rightarrow> client_tx \<Rightarrow> message_type \<Rightarrow> message \<Rightarrow> bool" where
  "reply_to srv tx ty m \<longleftrightarrow> msg_type m = ty \<and> typed m \<and> payload_txid (msg_payload m) = ct_txid tx \<and>
     msg_source m = srv \<and> msg_destination m = ct_actor_id tx"

text \<open>The one participant, its table, and the key and value of a put in flight.\<close>

definition the_participant :: "client_tx \<Rightarrow> tx_participant" where
  "the_participant tx = snd (hd (ct_participants tx))"

definition table_of :: "client_tx \<Rightarrow> requests_manager" where
  "table_of tx = p_requests (the_participant tx)"

definition put_pair :: "message \<Rightarrow> int \<times> int" where
  "put_pair m = (case msg_payload m of MsgPutPayload _ key value \<Rightarrow> (key, value) | _ \<Rightarrow> (0, 0))"

inductive conv :: "int \<Rightarrow> client_tx \<Rightarrow> server_tx \<Rightarrow> message multiset \<Rightarrow> bool" for srv tx s where
  starting: "ct_state tx = CTX_START_SENT \<Longrightarrow> p_state (the_participant tx) = P_START_MSG_SENT \<Longrightarrow>
    p_read_ts (the_participant tx) = UNDEFINED_TS \<Longrightarrow> table_of tx = make_requests_manager \<Longrightarrow>
    stx_state s = STX_NOT_STARTED \<Longrightarrow> stx_read_ts s = UNDEFINED_TS \<Longrightarrow> stx_puts s = [] \<Longrightarrow>
    request_of srv tx MSG_START m \<Longrightarrow> conv srv tx s {#m#}"
| started: "ct_state tx = CTX_START_SENT \<Longrightarrow> p_state (the_participant tx) = P_START_MSG_SENT \<Longrightarrow>
    p_read_ts (the_participant tx) = UNDEFINED_TS \<Longrightarrow> table_of tx = make_requests_manager \<Longrightarrow>
    stx_state s = STX_OPEN \<Longrightarrow> stx_txid s = ct_txid tx \<Longrightarrow> stx_puts s = [] \<Longrightarrow>
    reply_to srv tx MSG_START_ACK m \<Longrightarrow> msg_payload m = MsgAckStartPayload i r \<Longrightarrow> r \<noteq> UNDEFINED_TS \<Longrightarrow>
    conv srv tx s {#m#}"
| putting: "ct_state tx = CTX_OPEN \<Longrightarrow> stx_state s = STX_OPEN \<Longrightarrow> stx_txid s = ct_txid tx \<Longrightarrow>
    \<forall>m \<in># P. request_of srv tx MSG_PUT m \<Longrightarrow> \<forall>m \<in># R. reply_to srv tx MSG_PUT_REPLY m \<Longrightarrow>
    rm_completed_puts (table_of tx) + size P + size R \<le> length (puts_table_status (table_of tx)) \<Longrightarrow>
    mset (stx_puts s) + image_mset put_pair P = mset (rm_puts (table_of tx)) \<Longrightarrow> answering (table_of tx) P R \<Longrightarrow>
    conv srv tx s (P + R)"
| committing: "ct_state tx = CTX_COMMIT_SENT \<Longrightarrow> stx_state s = STX_OPEN \<Longrightarrow> stx_txid s = ct_txid tx \<Longrightarrow>
    mset (stx_puts s) = mset (spec_pairs (ct_spec tx)) \<Longrightarrow> request_of srv tx MSG_COMMIT m \<Longrightarrow> conv srv tx s {#m#}"
| accepted: "ct_state tx = CTX_COMMIT_SENT \<Longrightarrow> stx_state s = STX_COMMITTED \<Longrightarrow>
    mset (stx_puts s) = mset (spec_pairs (ct_spec tx)) \<Longrightarrow> reply_to srv tx MSG_COMMIT_ACK m \<Longrightarrow> conv srv tx s {#m#}"
| rejected: "ct_state tx = CTX_COMMIT_SENT \<Longrightarrow> stx_state s = STX_ROLLED_BACK_BY_SERVER \<Longrightarrow>
    mset (stx_puts s) = mset (spec_pairs (ct_spec tx)) \<Longrightarrow> reply_to srv tx MSG_ROLLED_BACK_BY_SERVER m \<Longrightarrow> conv srv tx s {#m#}"
| committed: "ct_state tx = CTX_COMMITTED \<Longrightarrow> stx_state s = STX_COMMITTED \<Longrightarrow>
    mset (stx_puts s) = mset (spec_pairs (ct_spec tx)) \<Longrightarrow> conv srv tx s {#}"
| rolled_back: "ct_state tx = CTX_ROLLED_BACK_BY_SERVER \<Longrightarrow> stx_state s = STX_ROLLED_BACK_BY_SERVER \<Longrightarrow>
    mset (stx_puts s) = mset (spec_pairs (ct_spec tx)) \<Longrightarrow> conv srv tx s {#}"

inductive_cases conv_silentE: "conv srv tx s {#}"

text \<open>Every message of a conversation is a request of the client or a reply of the server.\<close>

definition travels :: "int \<Rightarrow> client_tx \<Rightarrow> message \<Rightarrow> bool" where
  "travels srv tx m \<longleftrightarrow> typed m \<and> payload_txid (msg_payload m) = ct_txid tx \<and>
     (msg_type m \<in> {MSG_START, MSG_PUT, MSG_COMMIT} \<and> msg_source m = ct_actor_id tx \<and> msg_destination m = srv \<or>
      msg_type m \<in> {MSG_START_ACK, MSG_PUT_REPLY, MSG_COMMIT_ACK, MSG_ROLLED_BACK_BY_SERVER} \<and>
        msg_source m = srv \<and> msg_destination m = ct_actor_id tx)"

lemma conv_messages:
  assumes "conv srv tx s F" and "m \<in># F"
  shows "travels srv tx m"
  using assms by cases (auto simp: request_of_def reply_to_def travels_def)

lemma conv_not_started: "conv srv tx s F \<Longrightarrow> ct_state tx \<noteq> CTX_NOT_STARTED"
  by (auto elim: conv.cases)

lemma mset_exchange: "C \<subseteq># A \<Longrightarrow> A + B - C + D = A - C + (B + D)"
  by (metis add.assoc add.commute multiset_diff_union_assoc)

text \<open>How far the two ends have come.\<close>

definition client_steps :: "client_tx \<Rightarrow> nat" where
  "client_steps tx = (case ct_state tx of CTX_NOT_STARTED \<Rightarrow> 0
     | CTX_START_SENT \<Rightarrow> 1 + ct_next_put tx + rm_completed_puts (table_of tx)
     | CTX_OPEN \<Rightarrow> 2 + ct_next_put tx + rm_completed_puts (table_of tx)
     | CTX_COMMIT_SENT \<Rightarrow> 3 + ct_next_put tx + rm_completed_puts (table_of tx)
     | _ \<Rightarrow> 4 + ct_next_put tx + rm_completed_puts (table_of tx))"

definition server_steps :: "server_tx \<Rightarrow> nat" where
  "server_steps s = (case stx_state s of STX_NOT_STARTED \<Rightarrow> 0 | STX_OPEN \<Rightarrow> 1 | _ \<Rightarrow> 2) + length (stx_puts s)"

section \<open>The server's turn\<close>

text \<open>One message: it is answered by one message, and the conversation goes on.\<close>

definition answers :: "int \<Rightarrow> client_tx \<Rightarrow> message multiset \<Rightarrow> message \<Rightarrow> server_tx \<Rightarrow> tx_env \<Rightarrow>
    (server_tx \<times> tx_env) result \<Rightarrow> bool" where
  "answers srv tx F m s env res \<longleftrightarrow> (\<exists>s1 env1 r. res = Inr (s1, env1) \<and>
     schedule_msgs (env_retrier env1) = schedule_msgs (env_retrier env) @ [r] \<and>
     env_gen env1 = created 1 (env_gen env) \<and> msg_source r = srv \<and> server_steps s1 = Suc (server_steps s) \<and>
     conv srv tx s1 (F - {#m#} + {#r#}))"

lemma conv_process_put:
  assumes open_tx: "ct_state tx = CTX_OPEN" "stx_state s = STX_OPEN" "stx_txid s = ct_txid tx"
    and P: "\<forall>m \<in># P. request_of srv tx MSG_PUT m" "m \<in># P" and R: "\<forall>m \<in># R. reply_to srv tx MSG_PUT_REPLY m"
    and room: "rm_completed_puts (table_of tx) + size P + size R \<le> length (puts_table_status (table_of tx))"
    and puts: "mset (stx_puts s) + image_mset put_pair P = mset (rm_puts (table_of tx))" and ans: "answering (table_of tx) P R"
  shows "answers srv tx (P + R) m s env (process_msg ts m (s, env))"
proof -
  have req: "request_of srv tx MSG_PUT m" using P by blast
  then obtain key v where pay: "msg_payload m = MsgPutPayload (ct_txid tx) key v"
    by (cases "msg_payload m") (auto simp: request_of_def typed_def)
  define r where "r = fst (create_msg_put_reply srv (ct_actor_id tx) (ct_txid tx) (msg_id m) (env_gen env))"
  have r: "reply_to srv tx MSG_PUT_REPLY r"
    by (simp add: r_def create_msg_defs reply_to_def typed_def)
  let ?s = "s\<lparr>stx_puts := stx_puts s @ [(key, v)]\<rparr>"
  let ?env = "env\<lparr>env_gen := snd (create_msg_put_reply srv (ct_actor_id tx) (ct_txid tx) (msg_id m) (env_gen env)),
    env_retrier := send_once ts r (env_retrier env)\<rparr>"
  have run: "process_msg ts m (s, env) = Inr (?s, ?env)"
    using open_tx req pay by (simp add: process_msg_def process_msg_open_def request_of_def r_def split_beta)
  obtain P1 where P1: "P = add_mset m P1" using P(2) by (metis mset_add)
  have "replied r = msg_id m" by (simp add: replied_def r_def create_msg_defs)
  then have ids: "answering (table_of tx) P1 (add_mset r R)" using ans unfolding P1 by (intro answering_reply)
  have "put_pair m = (key, v)" by (simp add: put_pair_def pay)
  then have "conv srv tx ?s (P1 + add_mset r R)"
    using open_tx P(1) R room puts r ids unfolding P1 by (intro conv.putting) (auto simp: add.assoc)
  moreover have "P1 + add_mset r R = P + R - {#m#} + {#r#}" using P1 by simp
  moreover have "env_gen ?env = created 1 (env_gen env)" by (simp add: create_msg_defs created_def)
  moreover have "server_steps ?s = Suc (server_steps s)" by (simp add: server_steps_def)
  ultimately show ?thesis using run r by (auto simp: answers_def send_once_def reply_to_def)
qed

lemma conv_process_commit:
  assumes "ct_state tx = CTX_COMMIT_SENT" "stx_state s = STX_OPEN" "stx_txid s = ct_txid tx"
    and "mset (stx_puts s) = mset (spec_pairs (ct_spec tx))" "request_of srv tx MSG_COMMIT m" and ok: "storage_ok (env_storage env)"
  shows "answers srv tx {#m#} m s env (process_msg ts m (s, env))"
proof -
  from find_conflict_result [OF ok, of "stx_read_ts s" "stx_puts s"]
  obtain b c where b: "find_conflict (stx_read_ts s) (env_storage env) (stx_puts s) = Inr (b, c)" by blast
  show ?thesis
  proof (cases b)
    case True
    show ?thesis using assms b True
      by (simp add: answers_def process_msg_def process_msg_open_def create_msg_defs created_def retrier_defs request_of_def server_steps_def)
        (rule conv.rejected; simp add: reply_to_def typed_def)
  next
    case False
    show ?thesis using assms b False
      by (simp add: answers_def process_msg_def process_msg_open_def create_msg_defs created_def retrier_defs request_of_def server_steps_def)
        (rule conv.accepted; simp add: reply_to_def typed_def)
  qed
qed

lemma conv_process_msg:
  assumes c: "conv srv tx s F" and m: "m \<in># F" "msg_destination m = srv" "ct_actor_id tx \<noteq> srv"
    and ok: "storage_ok (env_storage env)" and ts: "ts \<noteq> UNDEFINED_TS"
  shows "answers srv tx F m s env (process_msg ts m (s, env))"
  using c
proof cases
  case (starting m0)
  then have m0: "F = {#m#}" "request_of srv tx MSG_START m" using m(1) by auto
  then obtain t where "msg_payload m = MsgStartPayload (ct_txid tx) t"
    by (cases "msg_payload m") (auto simp: request_of_def typed_def)
  then show ?thesis using m0 starting ts
    by (simp add: answers_def process_msg_def process_msg_not_started_def create_msg_defs created_def retrier_defs request_of_def server_steps_def)
      (rule conv.started; simp add: reply_to_def typed_def)
next
  case (putting P R)
  then have "m \<in># P" using m by (auto simp: reply_to_def)
  with putting show ?thesis using conv_process_put by blast
next
  case (committing m0)
  then have "F = {#m#}" "request_of srv tx MSG_COMMIT m" using m(1) by auto
  then show ?thesis using conv_process_commit committing ok by blast
qed (use m in \<open>auto simp: reply_to_def\<close>)

lemma conv_process_msgs:
  assumes "conv srv tx s F" and "mset ms \<subseteq># F" "\<forall>m \<in> set ms. msg_destination m = srv" "ct_actor_id tx \<noteq> srv"
    and "txs_ok B (env_storage env) txs" "txs i = Some s" "ct_txid tx = i"
    and "B i = ts" "0 \<le> ts" "\<And>j. j \<noteq> i \<Longrightarrow> B j < ts"
  shows "\<exists>s1 env1 out. foldE (process_msg ts) ms (s, env) = Inr (s1, env1) \<and>
    schedule_msgs (env_retrier env1) = schedule_msgs (env_retrier env) @ out \<and> env_gen env1 = created (length ms) (env_gen env) \<and>
    (\<forall>r \<in> set out. msg_source r = srv) \<and> length out = length ms \<and> server_steps s1 = server_steps s + length ms \<and>
    conv srv tx s1 (F - mset ms + mset out)"
  using assms(1-3,5,6)
proof (induction ms arbitrary: s F env txs)
  case (Cons m ms)
  have m: "m \<in># F" "msg_destination m = srv" using Cons.prems(2,3) by (auto dest: mset_subset_eqD)
  have st: "storage_ok (env_storage env)" using txs_okD(1) [OF Cons.prems(4)] .
  have ts: "ts \<noteq> UNDEFINED_TS" using assms(9) by (simp add: UNDEFINED_TS_def)
  from conv_process_msg [OF Cons.prems(1) m assms(4) st ts] obtain s1 env1 r where
      one: "process_msg ts m (s, env) = Inr (s1, env1)"
        "schedule_msgs (env_retrier env1) = schedule_msgs (env_retrier env) @ [r]" "msg_source r = srv"
        "env_gen env1 = created 1 (env_gen env)"
        "conv srv tx s1 (F - {#m#} + {#r#})" "server_steps s1 = Suc (server_steps s)"
    unfolding answers_def by blast
  have mm: "typed m" "payload_txid (msg_payload m) = i" using conv_messages [OF Cons.prems(1) m(1)] assms(7) by (auto simp: travels_def)
  have ok: "txs_ok B (env_storage env1) (txs(i \<mapsto> s1))"
    using process_msg_ok [OF Cons.prems(4,5) assms(8-10) mm one(1)] by blast
  have sub: "mset ms \<subseteq># F - {#m#}" using Cons.prems(2) m(1) by (simp add: insert_subset_eq_iff)
  then have "mset ms \<subseteq># F - {#m#} + {#r#}" by (metis subset_mset.add_increasing2 subset_mset.zero_le)
  from Cons.IH [OF one(5) this _ ok] Cons.prems(3) obtain s2 env2 out where
      two: "foldE (process_msg ts) ms (s1, env1) = Inr (s2, env2)"
        "schedule_msgs (env_retrier env2) = schedule_msgs (env_retrier env1) @ out" "env_gen env2 = created (length ms) (env_gen env1)"
        "\<forall>r \<in> set out. msg_source r = srv"
        "conv srv tx s2 (F - {#m#} + {#r#} - mset ms + mset out)" "length out = length ms"
        "server_steps s2 = server_steps s1 + length ms"
    by auto
  have "F - {#m#} + {#r#} - mset ms + mset out = F - mset (m # ms) + mset (r # out)"
    using mset_exchange [OF sub, of "{#r#}" "mset out"] by simp
  with one two show ?case by (intro exI [of _ s2] exI [of _ env2] exI [of _ "r # out"]) auto
qed auto

section \<open>The client's turn\<close>

lemma sorted_all:
  "\<forall>m \<in> set ms. (msg_type m = MSG_START_ACK \<or> msg_type m = MSG_PUT_REPLY) \<and> msg_source m = srv \<Longrightarrow>
    group_of srv (snd (fold sort_msg ms (e, g))) = group_of srv g @ ms"
  by (induction ms arbitrary: e g) (auto simp: sort_msg_def group_of_push_back)

lemma sorted_none:
  "\<forall>m \<in> set ms. msg_type m \<noteq> MSG_START_ACK \<and> msg_type m \<noteq> MSG_PUT_REPLY \<Longrightarrow> snd (fold sort_msg ms (e, g)) = g"
  by (induction ms arbitrary: e g) (auto simp: sort_msg_def)

lemma mset_sub_single: "mset ms \<subseteq># {#m#} \<Longrightarrow> ms = [] \<or> ms = [m]"
  by (cases ms) (auto simp: insert_subset_eq_iff)

text \<open>Between ticks a participant has sent all its requests, in the name of its client.\<close>

definition sent_all :: "client_tx \<Rightarrow> bool" where
  "sent_all tx \<longleftrightarrow> p_client (the_participant tx) = ct_actor_id tx \<and>
     rm_next_put (table_of tx) = length (puts_table_status (table_of tx))"

lemma participantE:
  assumes "ct_inv srv tx" and "ct_state tx \<noteq> CTX_NOT_STARTED"
  obtains p where "participant_mid p (\<lambda>_. False) srv tx" "ct_txid tx \<noteq> UNDEFINED_TX_ID" "ct_coordinator tx = srv"
    "d_actor_ids (ct_discovery tx) = [srv]" "the_participant tx = p" "table_of tx = p_requests p"
proof -
  obtain p where "participant_mid p (\<lambda>_. False) srv tx" "ct_txid tx \<noteq> UNDEFINED_TX_ID" "ct_coordinator tx = srv"
      "d_actor_ids (ct_discovery tx) = [srv]"
    using assms by (auto simp: ct_inv_def ct_mid_def)
  moreover have "the_participant tx = p" using calculation by (simp add: the_participant_def participant_mid_def)
  ultimately show ?thesis using that by (simp add: table_of_def)
qed

text \<open>A tick of a transaction with one participant, in terms of it.\<close>

lemma tick_one_participant:
  assumes "ct_participants tx = [(srv, p)]"
    and "process_incoming ts (group_of srv (snd (fold sort_msg ms ([], [])))) p = Inr p1"
    and "tick_state ts ms (tx\<lparr>ct_participants := [(srv, p1)]\<rparr>, env) = Inr (tx2, env2)"
    and "ct_participants tx2 = [(srv, p2)]" and "schedule_requests ts (p2, env2) = (p3, env3)"
  shows "client_tx_tick ts ms scheduled (tx, env) =
    Inr (scheduled @ schedule_msgs (ce_retrier env3), tx2\<lparr>ct_participants := [(srv, p3)]\<rparr>,
      env3\<lparr>ce_retrier := (ce_retrier env3)\<lparr>schedule_msgs := []\<rparr>\<rparr>)"
  using assms by (simp add: client_tx_tick_def receive_replies_def send_requests_def Let_def get_scheduled_msgs_def)

lemma schedule_nothing:
  assumes "rm_next_put (p_requests p) = length (puts_table_status (p_requests p))"
  shows "schedule_requests ts (p, env) = (p, env)"
  using assms by (simp add: schedule_requests_def prepare_msg_def)

text \<open>What a tick is to achieve.\<close>

text \<open>A step is due when its time has come, whatever messages there are; \<open>moves\<close> says that a tick with a
  message or with a step due moves the transaction forward.\<close>

definition put_due :: "int \<Rightarrow> client_tx \<Rightarrow> bool" where
  "put_due ts tx \<longleftrightarrow> ct_next_put tx < length (spec_puts (ct_spec tx)) \<and>
     ts \<ge> cp_earliest_ts (spec_puts (ct_spec tx) ! ct_next_put tx)"

definition commits_now :: "int \<Rightarrow> client_tx \<Rightarrow> bool" where
  "commits_now ts tx \<longleftrightarrow> rm_completed_puts (table_of tx) = length (spec_puts (ct_spec tx)) \<and>
     ts \<ge> earliest_commit_ts (ct_spec tx) \<and> spec_action (ct_spec tx) = ACTION_COMMIT"

definition due :: "int \<Rightarrow> client_tx \<Rightarrow> bool" where
  "due ts tx \<longleftrightarrow> ct_state tx = CTX_NOT_STARTED \<and> ts \<ge> earliest_start_ts (ct_spec tx) \<or>
     ct_state tx = CTX_OPEN \<and> (put_due ts tx \<or> commits_now ts tx)"

definition moves :: "generator \<Rightarrow> int \<Rightarrow> message list \<Rightarrow> message list \<Rightarrow> client_tx \<Rightarrow> client_tx \<Rightarrow> bool" where
  "moves g ts ms out tx tx1 \<longleftrightarrow> client_steps tx + length out \<le> client_steps tx1 \<and>
     (due ts tx \<longrightarrow> client_steps tx < client_steps tx1) \<and>
     (ms \<noteq> [] \<longrightarrow> client_steps tx < client_steps tx1 \<or> repeated (table_of tx1)) \<and>
     (repeated (table_of tx) \<longrightarrow> repeated (table_of tx1)) \<and>
     numbered (g_msg_id g) (length out) (table_of tx) (table_of tx1)"

definition goes_on :: "int \<Rightarrow> int \<Rightarrow> message list \<Rightarrow> server_tx \<Rightarrow> client_tx \<Rightarrow> cl_env \<Rightarrow> message multiset \<Rightarrow> message list \<Rightarrow>
    (message list \<times> client_tx \<times> cl_env) result \<Rightarrow> bool" where
  "goes_on srv ts ms s tx env F scheduled r \<longleftrightarrow> (\<exists>out tx1 env1. r = Inr (scheduled @ out, tx1, env1) \<and>
     conv srv tx1 s (F - mset ms + mset out) \<and> sent_all tx1 \<and> ct_txid tx1 = ct_txid tx \<and>
     ce_gen env1 = created (length out) (ce_gen env) \<and> moves (ce_gen env) ts ms out tx tx1)"

lemma table_of_one: "ct_participants tx = [(srv, p)] \<Longrightarrow> table_of tx = p_requests p"
  by (simp add: table_of_def the_participant_def)

lemma moves_idle: "\<not> due ts tx \<Longrightarrow> moves g ts [] [] tx tx"
  by (simp add: moves_def numbered_same)

lemma moves_forward:
  "client_steps tx < client_steps tx1 \<Longrightarrow> table_of tx1 = table_of tx \<Longrightarrow> length out \<le> 1 \<Longrightarrow> moves g ts ms out tx tx1"
  by (simp add: moves_def numbered_same)

lemma conv_tick_start:
  assumes c: "conv srv tx s F" and inv: "ct_inv srv tx" and all: "sent_all tx" and ms: "mset ms \<subseteq># F"
    "\<forall>m \<in> set ms. msg_destination m = ct_actor_id tx" and srv: "ct_actor_id tx \<noteq> srv"
    and empty: "schedule_msgs (ce_retrier env) = []" and state: "ct_state tx = CTX_START_SENT"
  shows "goes_on srv ts ms s tx env F scheduled (client_tx_tick ts ms scheduled (tx, env))"
proof -
  obtain p where p: "participant_mid p (\<lambda>_. False) srv tx" "ct_coordinator tx = srv" "the_participant tx = p" "table_of tx = p_requests p"
    using participantE [OF inv] state by auto
  then have ps: "ct_participants tx = [(srv, p)]" by (simp add: participant_mid_def)
  have sent: "rm_next_put (p_requests p) = length (puts_table_status (p_requests p))" "p_client p = ct_actor_id tx"
    using all p(3,4) by (simp_all add: sent_all_def)
  have begun: "p_state p = P_START_MSG_SENT" "p_read_ts p = UNDEFINED_TS" "p_requests p = make_requests_manager"
    using c state p(3,4) by (auto elim: conv.cases)
  have "\<not> due ts tx" using state by (simp add: due_def)
  show ?thesis
  proof (cases "ms = []")
    case True
    then have "process_incoming ts (group_of srv (snd (fold sort_msg ms ([], [])))) p = Inr p"
      using begun by (simp add: process_incoming_def group_of_def participant_replies_start_sent_def)
    moreover have "tick_state ts ms (tx\<lparr>ct_participants := [(srv, p)]\<rparr>, env) = Inr (tx, env)"
      using state ps p(2) begun by (cases tx) (simp add: tick_state_def tick_start_sent_def is_open_def)
    ultimately show ?thesis
      using tick_one_participant [OF ps _ _ ps schedule_nothing [OF sent(1)]] True c all empty ps moves_idle [OF \<open>\<not> due ts tx\<close>]
      by (cases tx) (simp add: goes_on_def)
  next
    case False
    from c state False ms srv obtain m i r where m: "F = {#m#}" "reply_to srv tx MSG_START_ACK m" "ms = [m]"
        "msg_payload m = MsgAckStartPayload i r" "r \<noteq> UNDEFINED_TS"
        "stx_state s = STX_OPEN" "stx_txid s = ct_txid tx" "stx_puts s = []"
      by (cases; auto dest!: mset_sub_single simp: request_of_def)
    let ?p = "p\<lparr>p_read_ts := r, p_state := P_TX_OPEN\<rparr>"
    let ?tx = "tx\<lparr>ct_read_ts := r, ct_state := CTX_OPEN, ct_participants := [(srv, ?p)]\<rparr>"
    have "group_of srv (snd (fold sort_msg ms ([], []))) = [m]"
      using sorted_all [of ms srv "[]" "[]"] m by (simp add: reply_to_def group_of_def)
    then have a: "process_incoming ts (group_of srv (snd (fold sort_msg ms ([], [])))) p = Inr ?p"
      using begun m by (simp add: process_incoming_def participant_replies_start_sent_def read_start_ack_def reply_to_def)
    have b: "tick_state ts ms (tx\<lparr>ct_participants := [(srv, ?p)]\<rparr>, env) = Inr (?tx, env)"
      using state p(2) m(5) by (cases tx) (simp add: tick_state_def tick_start_sent_def is_open_def configure_read_ts_def
          participant_def participant_read_ts_def)
    have "schedule_requests ts (?p, env) = (?p, env)" using sent by (intro schedule_nothing) simp
    note run = tick_one_participant [OF ps a b _ this]
    have rm: "rm_ok (p_requests p)" using p(1) by (simp add: participant_mid_def)
    have "conv srv ?tx s ({#} + {#})"
      using m(6-8) begun(3) rm answering_make
      by (intro conv.putting) (simp_all add: table_of_def the_participant_def rm_ok_def rm_puts_def make_requests_manager_def)
    moreover have "moves (ce_gen env) ts ms [] tx ?tx"
      using state p(4) by (intro moves_forward) (simp_all add: client_steps_def table_of_one)
    ultimately show ?thesis
      using run m(1,3) sent empty by (simp add: goes_on_def sent_all_def table_of_def the_participant_def)
  qed
qed

lemma complete_request_step:
  assumes "rm_ok rm"
  shows "\<exists>rm1. complete_request mid rm = Inr rm1 \<and> rm_ok rm1 \<and> rm_puts rm1 = rm_puts rm \<and>
    rm_completed_puts rm \<le> rm_completed_puts rm1 \<and> rm_completed_puts rm1 \<le> rm_completed_puts rm + 1"
proof -
  obtain rm1 where rm1: "complete_request mid rm = Inr rm1" "rm_ok rm1" "rm_puts rm1 = rm_puts rm"
      "rm_completed_puts rm \<le> rm_completed_puts rm1"
    using complete_request_ok [OF assms] by blast
  then have "rm_completed_puts rm1 \<le> rm_completed_puts rm + 1"
    by (auto simp: complete_request_def Let_def result_simps split: option.splits if_splits)
  with rm1 show ?thesis by blast
qed

definition replies_read :: "message list \<Rightarrow> requests_manager \<Rightarrow> requests_manager \<Rightarrow> bool" where
  "replies_read ms rm rm1 \<longleftrightarrow> rm_ok rm1 \<and> rm_puts rm1 = rm_puts rm \<and> rm_next_put rm1 = rm_next_put rm \<and>
     rm_completed_puts rm \<le> rm_completed_puts rm1 \<and> rm_completed_puts rm1 \<le> rm_completed_puts rm + length ms \<and>
     table_scheduled_puts rm1 = table_scheduled_puts rm \<and> (repeated rm1 \<longleftrightarrow> repeated rm) \<and>
     (\<not> repeated rm \<longrightarrow> rm_completed_puts rm1 = rm_completed_puts rm + length ms)"

lemma replies_open_return:
  assumes "mset ms \<subseteq># R" and "\<forall>m \<in> set ms. reply_to srv tx MSG_PUT_REPLY m" and "rm_ok (p_requests p)"
    and "answering (p_requests p) P R"
  shows "\<exists>rm. foldE participant_reply_open ms p = Inr (p\<lparr>p_requests := rm\<rparr>) \<and> replies_read ms (p_requests p) rm \<and>
    answering rm P (R - mset ms)"
  using assms
proof (induction ms arbitrary: p R)
  case Nil
  then show ?case by (intro exI [of _ "p_requests p"]) (simp add: replies_read_def)
next
  case (Cons m ms)
  then obtain i mid where m: "msg_type m = MSG_PUT_REPLY" "msg_payload m = MsgPutReplyPayload i mid"
    by (cases "msg_payload m") (auto simp: reply_to_def typed_def)
  then have mid: "replied m = mid" by (simp add: replied_def)
  obtain rm1 where one: "complete_request mid (p_requests p) = Inr rm1" "rm_ok rm1" "rm_puts rm1 = rm_puts (p_requests p)"
      "rm_completed_puts (p_requests p) \<le> rm_completed_puts rm1" "rm_completed_puts rm1 \<le> rm_completed_puts (p_requests p) + 1"
    using complete_request_step [OF Cons.prems(3)] by blast
  obtain R1 where R: "R = add_mset m R1" and ms: "mset ms \<subseteq># R1"
    using Cons.prems(1) by (metis insert_subset_eq_iff mset.simps(2) multi_member_split add_mset_remove_trivial)
  have two: "answering rm1 P R1" "\<not> repeated rm1 \<Longrightarrow> rm_completed_puts rm1 = rm_completed_puts (p_requests p) + 1"
    using answering_complete [OF Cons.prems(4) [unfolded R], unfolded mid, OF one(1)] by simp_all
  have "\<exists>rm. foldE participant_reply_open ms (p\<lparr>p_requests := rm1\<rparr>) = Inr (p\<lparr>p_requests := rm1\<rparr>\<lparr>p_requests := rm\<rparr>) \<and>
      replies_read ms (p_requests (p\<lparr>p_requests := rm1\<rparr>)) rm \<and> answering rm P (R1 - mset ms)"
    using Cons.prems(2) one(2) two(1) by (intro Cons.IH [OF ms]) simp_all
  then obtain rm where rm: "foldE participant_reply_open ms (p\<lparr>p_requests := rm1\<rparr>) = Inr (p\<lparr>p_requests := rm\<rparr>)"
      "replies_read ms rm1 rm" "answering rm P (R1 - mset ms)"
    by auto
  have "participant_reply_open m p = Inr (p\<lparr>p_requests := rm1\<rparr>)"
    using m one(1) by (simp add: participant_reply_open_def)
  moreover have "replies_read (m # ms) (p_requests p) rm"
    using rm(2) one two(2) complete_request_table [OF one(1)] by (auto simp: replies_read_def)
  ultimately show ?case using rm by (intro exI [of _ rm]) (simp add: R)
qed

lemma sub_right:
  assumes "mset ms \<subseteq># P + R" and "\<forall>m \<in> set ms. m \<notin># P"
  shows "mset ms \<subseteq># R"
proof (rule mset_subset_eqI)
  fix m
  show "count (mset ms) m \<le> count R m"
  proof (cases "m \<in> set ms")
    case True
    then have "count P m = 0" using assms(2) by (simp add: not_in_iff)
    then show ?thesis using mset_subset_eq_count [OF assms(1), of m] by simp
  qed (simp add: count_eq_zero_iff [THEN iffD2])
qed

text \<open>The open transaction with the replies read: it issues a put, asks for the commit, or waits.\<close>

definition answered :: "int \<Rightarrow> server_tx \<Rightarrow> message multiset \<Rightarrow> message multiset \<Rightarrow> client_tx \<Rightarrow> tx_participant \<Rightarrow> bool" where
  "answered srv s P R tx p \<longleftrightarrow> ct_state tx = CTX_OPEN \<and> ct_participants tx = [(srv, p)] \<and> ct_coordinator tx = srv \<and>
     d_actor_ids (ct_discovery tx) = [srv] \<and> p_client p = ct_actor_id tx \<and> p_coordinator p = srv \<and>
     p_txid p = ct_txid tx \<and> p_state p = P_TX_OPEN \<and> rm_ok (p_requests p) \<and>
     rm_next_put (p_requests p) = length (puts_table_status (p_requests p)) \<and>
     rm_puts (p_requests p) = take (ct_next_put tx) (spec_pairs (ct_spec tx)) \<and>
     ct_next_put tx \<le> length (spec_puts (ct_spec tx)) \<and> stx_state s = STX_OPEN \<and> stx_txid s = ct_txid tx \<and>
     (\<forall>m \<in># P. request_of srv tx MSG_PUT m) \<and> (\<forall>m \<in># R. reply_to srv tx MSG_PUT_REPLY m) \<and>
     rm_completed_puts (p_requests p) + size P + size R \<le> length (puts_table_status (p_requests p)) \<and>
     mset (stx_puts s) + image_mset put_pair P = mset (rm_puts (p_requests p)) \<and> answering (p_requests p) P R"

lemma length_rm_puts: "length (rm_puts rm) = length (puts_table_status rm)"
  by (simp add: rm_puts_def)

lemma answered_conv: "answered srv s P R tx p \<Longrightarrow> conv srv tx s (P + R) \<and> sent_all tx"
  by (auto simp: answered_def sent_all_def table_of_def the_participant_def intro: conv.putting)

lemma answered_table:
  assumes "answered srv s P R tx p"
  shows "length (puts_table_status (p_requests p)) = ct_next_put tx"
  using assms by (auto simp: answered_def spec_pairs_def simp flip: length_rm_puts)

lemma maybe_commit_waits: "ct_participants tx = [(srv, p)] \<Longrightarrow> \<not> commits_now ts tx \<Longrightarrow> maybe_commit ts (tx, env) = (tx, env)"
  by (simp add: maybe_commit_def commits_now_def completed_requests_def table_of_def the_participant_def)

lemma issue_nothing: "\<not> put_due ts tx \<Longrightarrow> issue_put ts tx = Inr tx"
  by (auto simp: issue_put_def put_due_def Let_def)

lemma answered_waits:
  assumes "answered srv s P R tx p" and "\<not> put_due ts tx" and "\<not> commits_now ts tx"
  shows "tick_open ts (tx, env) = Inr (tx, env) \<and> schedule_requests ts (p, env) = (p, env)"
  using assms maybe_commit_waits [of tx srv p ts env] schedule_nothing [of p ts env]
  by (simp add: tick_open_def issue_nothing answered_def)

lemma answered_commits:
  assumes a: "answered srv s P R tx p" and "\<not> put_due ts tx" and now: "commits_now ts tx"
  shows "\<exists>m env1. tick_open ts (tx, env) = Inr (tx\<lparr>ct_state := CTX_COMMIT_SENT\<rparr>, env1) \<and>
    schedule_requests ts (p, env1) = (p, env1) \<and> schedule_msgs (ce_retrier env1) = schedule_msgs (ce_retrier env) @ [m] \<and>
    ce_gen env1 = created 1 (ce_gen env) \<and>
    P + R = {#} \<and> conv srv (tx\<lparr>ct_state := CTX_COMMIT_SENT\<rparr>) s {#m#} \<and> sent_all (tx\<lparr>ct_state := CTX_COMMIT_SENT\<rparr>) \<and>
    moves (ce_gen env) ts [] [m] tx (tx\<lparr>ct_state := CTX_COMMIT_SENT\<rparr>)"
proof -
  let ?n = "length (spec_puts (ct_spec tx))" and ?rm = "p_requests p"
  have len: "length (puts_table_status ?rm) = ct_next_put tx" "ct_next_put tx \<le> ?n"
      "rm_completed_puts ?rm + size P + size R \<le> length (puts_table_status ?rm)"
    using answered_table [OF a] a by (auto simp: answered_def)
  moreover have table: "table_of tx = ?rm" using a by (simp add: answered_def table_of_one)
  moreover have "rm_completed_puts ?rm = ?n" using now table by (simp add: commits_now_def)
  ultimately have none: "size P = 0" "size R = 0" "ct_next_put tx = ?n" by linarith+
  then have "P + R = {#}" by simp
  moreover have "mset (stx_puts s) = mset (spec_pairs (ct_spec tx))"
    using a none by (simp add: answered_def spec_pairs_def)
  moreover have "schedule_requests ts (p, env1) = (p, env1)" for env1
    using a by (intro schedule_nothing) (simp add: answered_def)
  moreover have "\<exists>m g. create_msg_commit (ct_actor_id tx) srv (ct_txid tx) (ce_gen env) = (m, g) \<and>
      request_of srv tx MSG_COMMIT m \<and> g = created 1 (ce_gen env)"
    by (simp add: create_msg_defs created_def request_of_def typed_def)
  then obtain m g where "create_msg_commit (ct_actor_id tx) srv (ct_txid tx) (ce_gen env) = (m, g)"
      "request_of srv tx MSG_COMMIT m" "g = created 1 (ce_gen env)"
    by blast
  moreover have "ct_state tx = CTX_OPEN" using a by (simp add: answered_def)
  then have "moves (ce_gen env) ts [] [m] tx (tx\<lparr>ct_state := CTX_COMMIT_SENT\<rparr>)" for m
    by (intro moves_forward) (simp_all add: client_steps_def table_of_def the_participant_def)
  ultimately show ?thesis using a assms(2) now
    by (auto simp: tick_open_def issue_nothing maybe_commit_def commits_now_def completed_requests_def answered_def
        retrier_defs request_of_def sent_all_def table_of_def the_participant_def intro!: conv.committing)
qed

text \<open>A put added to the table is sent at once, and waits for its reply.\<close>

definition put_added :: "int \<Rightarrow> int \<Rightarrow> requests_manager \<Rightarrow> requests_manager \<Rightarrow> bool" where
  "put_added key v rm rm1 \<longleftrightarrow> rm_ok rm1 \<and> rm_puts rm1 = rm_puts rm @ [(key, v)] \<and>
     rm_next_put rm1 = length (puts_table_status rm1) \<and> length (puts_table_status rm1) = Suc (length (puts_table_status rm)) \<and>
     rm_completed_puts rm1 = rm_completed_puts rm \<and> (repeated rm \<longrightarrow> repeated rm1)"

lemma added_put_sent:
  assumes rm: "rm_ok (p_requests p)" "rm_next_put (p_requests p) = length (puts_table_status (p_requests p))"
    and ans: "answering (p_requests p) P R" and state: "p_state p = P_TX_OPEN" and p2: "p2 = participant_add_put key v p"
  shows "\<exists>rm1 env1 m. schedule_requests ts (p2, env) = (p2\<lparr>p_requests := rm1\<rparr>, env1) \<and>
    schedule_msgs (ce_retrier env1) = schedule_msgs (ce_retrier env) @ [m] \<and> ce_gen env1 = created 1 (ce_gen env) \<and>
    numbered (g_msg_id (ce_gen env)) 1 (p_requests p) rm1 \<and> msg_type m = MSG_PUT \<and> msg_source m = p_client p \<and> msg_destination m = p_coordinator p \<and>
    msg_payload m = MsgPutPayload (p_txid p) key v \<and>
    put_added key v (p_requests p) rm1 \<and> answering rm1 (add_mset m P) R"
proof -
  let ?rm = "p_requests p" and ?rm2 = "rm_add_put key v (p_requests p)"
  let ?n = "length (puts_table_status (p_requests p))"
  have p2: "p2 = p\<lparr>p_requests := ?rm2\<rparr>" by (simp add: p2 participant_add_put_def)
  have rm2: "puts_table_status ?rm2 = puts_table_status ?rm @ [\<lparr>rs_status = REQUEST_NOT_STARTED, rs_key = key, rs_value = v\<rparr>]"
      "rm_next_put ?rm2 = ?n" "rm_completed_puts ?rm2 = rm_completed_puts ?rm"
    using rm by (simp_all add: rm_add_put_def)
  have ok2: "rm_ok ?rm2" "rm_puts ?rm2 = rm_puts ?rm @ [(key, v)]" using rm_add_put_ok rm(1) by simp_all
  obtain rm1 env1 where prep: "prepare_put (p_client p) (p_coordinator p) (p_txid p) ts ?n (?rm2, env) = (rm1, env1)"
    by (cases "prepare_put (p_client p) (p_coordinator p) (p_txid p) ts ?n (?rm2, env)")
  then have sched: "schedule_requests ts (p2, env) = (p2\<lparr>p_requests := rm1\<rparr>, env1)"
    using rm2 state by (simp add: p2 schedule_requests_def prepare_msg_def)
  have "\<exists>m. schedule_msgs (ce_retrier env1) = schedule_msgs (ce_retrier env) @ [m] \<and> ce_gen env1 = created 1 (ce_gen env) \<and>
      msg_type m = MSG_PUT \<and> msg_source m = p_client p \<and> msg_destination m = p_coordinator p \<and> msg_payload m = MsgPutPayload (p_txid p) key v"
    using prep rm2(1) by (auto simp: prepare_put_def create_msg_defs created_def retrier_defs)
  then obtain m where m: "schedule_msgs (ce_retrier env1) = schedule_msgs (ce_retrier env) @ [m]" "ce_gen env1 = created 1 (ce_gen env)"
      "msg_type m = MSG_PUT \<and> msg_source m = p_client p \<and> msg_destination m = p_coordinator p \<and> msg_payload m = MsgPutPayload (p_txid p) key v"
    by blast
  have ids: "ids_ok ?rm" using ans by (simp add: answering_def)
  note add = add_put_ids [OF ids rm(1), of key v]
  from prepare_put_ids [OF add(1) _ _ prep] have new: "ids_ok rm1" "numbered (g_msg_id (ce_gen env)) 1 ?rm2 rm1" "repeated ?rm \<Longrightarrow> repeated rm1"
      "\<not> repeated rm1 \<Longrightarrow> msg_id m \<notin> waiting ?rm \<and> waiting rm1 = insert (msg_id m) (waiting ?rm)"
    using m(1) add(2,3) rm2 by auto
  have "answering rm1 (add_mset m P) R" using ans new finite_waiting [OF ids] unfolding answering_def by auto
  moreover have "put_added key v ?rm rm1"
    using prepare_put_ok [OF ok2(1) _ _ prep] rm2 ok2(2) new(3) by (simp add: put_added_def)
  moreover have "numbered (g_msg_id (ce_gen env)) 1 ?rm rm1" using new(2) add(3) by (simp add: numbered_def rm_add_put_def)
  ultimately show ?thesis using sched m by blast
qed

lemma answered_puts:
  assumes a: "answered srv s P R tx p" and due: "put_due ts tx"
  shows "\<exists>tx2 p2 p3 env3 m. tick_open ts (tx, env) = Inr (tx2, env) \<and> ct_participants tx2 = [(srv, p2)] \<and>
    schedule_requests ts (p2, env) = (p3, env3) \<and> schedule_msgs (ce_retrier env3) = schedule_msgs (ce_retrier env) @ [m] \<and>
    ce_gen env3 = created 1 (ce_gen env) \<and> ct_txid tx2 = ct_txid tx \<and>
    answered srv s (add_mset m P) R (tx2\<lparr>ct_participants := [(srv, p3)]\<rparr>) p3 \<and>
    moves (ce_gen env) ts [] [m] tx (tx2\<lparr>ct_participants := [(srv, p3)]\<rparr>)"
proof -
  let ?rm = "p_requests p" and ?n = "ct_next_put tx"
  define x where "x = spec_puts (ct_spec tx) ! ?n"
  define p2 where "p2 = participant_add_put (cp_key x) (cp_value x) p"
  define tx2 where "tx2 = tx\<lparr>ct_participants := [(srv, p2)], ct_next_put := ?n + 1\<rparr>"
  have len: "length (puts_table_status ?rm) = ?n" "?n < length (spec_puts (ct_spec tx))"
    using answered_table [OF a] due by (auto simp: put_due_def)
  have issue: "issue_put ts tx = Inr tx2"
    using a due by (simp add: issue_put_def put_due_def get_by_key_def participant_def answered_def tx2_def p2_def x_def Let_def)
  have "rm_completed_puts ?rm \<le> ?n" using a len by (simp add: answered_def)
  moreover have "rm_completed_puts (table_of tx2) = rm_completed_puts ?rm"
    by (simp add: table_of_def the_participant_def tx2_def p2_def participant_add_put_def rm_add_put_def)
  ultimately have "\<not> commits_now ts tx2" using len(2) by (simp add: commits_now_def) (simp add: tx2_def)
  then have tick: "tick_open ts (tx, env) = Inr (tx2, env)"
    using issue maybe_commit_waits [of tx2 srv p2] by (simp add: tick_open_def tx2_def)
  have "rm_ok ?rm" "rm_next_put ?rm = length (puts_table_status ?rm)" "answering ?rm P R" "p_state p = P_TX_OPEN"
    using a by (simp_all add: answered_def)
  from added_put_sent [OF this p2_def, of ts env] obtain rm3 env3 m where
      sched: "schedule_requests ts (p2, env) = (p2\<lparr>p_requests := rm3\<rparr>, env3)"
        "schedule_msgs (ce_retrier env3) = schedule_msgs (ce_retrier env) @ [m]" "ce_gen env3 = created 1 (ce_gen env)"
      and ids: "numbered (g_msg_id (ce_gen env)) 1 ?rm rm3" and m: "msg_type m = MSG_PUT" "msg_source m = p_client p" "msg_destination m = p_coordinator p"
        "msg_payload m = MsgPutPayload (p_txid p) (cp_key x) (cp_value x)"
      and rm3: "put_added (cp_key x) (cp_value x) ?rm rm3" "answering rm3 (add_mset m P) R"
    by blast
  let ?p3 = "p2\<lparr>p_requests := rm3\<rparr>"
  let ?tx3 = "tx2\<lparr>ct_participants := [(srv, ?p3)]\<rparr>"
  have req: "request_of srv tx MSG_PUT m" "put_pair m = (cp_key x, cp_value x)"
    using a m by (simp_all add: request_of_def put_pair_def typed_def answered_def)
  have "ct_state tx = CTX_OPEN" "table_of tx = ?rm" using a by (simp_all add: answered_def table_of_one)
  moreover have "table_of ?tx3 = rm3" by (simp add: table_of_one)
  ultimately have move: "moves (ce_gen env) ts [] [m] tx ?tx3"
    using rm3(1) ids by (simp add: moves_def client_steps_def put_added_def) (simp add: tx2_def)
  have pairs: "take (Suc ?n) (spec_pairs (ct_spec tx)) = take ?n (spec_pairs (ct_spec tx)) @ [(cp_key x, cp_value x)]"
    using len(2) by (simp add: take_Suc_conv_app_nth spec_pairs_def x_def)
  have fields: "p_client p2 = p_client p" "p_coordinator p2 = srv" "p_txid p2 = ct_txid tx" "p_state p2 = P_TX_OPEN"
    using a by (simp_all add: p2_def participant_add_put_def answered_def)
  have "answered srv s (add_mset m P) R ?tx3 ?p3"
    using a req rm3 len fields pairs unfolding answered_def tx2_def put_added_def by (auto simp: request_of_def reply_to_def)
  with tick sched move show ?thesis unfolding tx2_def by auto
qed

lemma answered_tick:
  assumes a: "answered srv s P R tx p"
    and step: "tick_open ts (tx, env) = Inr (tx2, env2)" "ct_participants tx2 = [(srv, p2)]" "schedule_requests ts (p2, env2) = (p3, env3)"
  shows "\<exists>out. schedule_msgs (ce_retrier env3) = schedule_msgs (ce_retrier env) @ out \<and> ce_gen env3 = created (length out) (ce_gen env) \<and>
    ct_txid tx2 = ct_txid tx \<and> conv srv (tx2\<lparr>ct_participants := [(srv, p3)]\<rparr>) s (P + R + mset out) \<and>
    sent_all (tx2\<lparr>ct_participants := [(srv, p3)]\<rparr>) \<and> moves (ce_gen env) ts [] out tx (tx2\<lparr>ct_participants := [(srv, p3)]\<rparr>)"
proof -
  have ps: "ct_participants tx = [(srv, p)]" using a by (simp add: answered_def)
  then have same: "tx\<lparr>ct_participants := [(srv, p)]\<rparr> = tx" by (cases tx) simp
  show ?thesis
  proof (cases "put_due ts tx")
    case True
    then obtain m where m: "schedule_msgs (ce_retrier env3) = schedule_msgs (ce_retrier env) @ [m]"
        "ce_gen env3 = created 1 (ce_gen env)" "ct_txid tx2 = ct_txid tx"
        "answered srv s (add_mset m P) R (tx2\<lparr>ct_participants := [(srv, p3)]\<rparr>) p3"
        "moves (ce_gen env) ts [] [m] tx (tx2\<lparr>ct_participants := [(srv, p3)]\<rparr>)"
      using answered_puts [OF a, of ts env] step by auto
    from m(1-3,5) answered_conv [OF m(4)] show ?thesis by (intro exI [of _ "[m]"]) simp
  next
    case idle: False
    show ?thesis
    proof (cases "commits_now ts tx")
      case True
      have eq: "tx\<lparr>ct_state := CTX_COMMIT_SENT, ct_participants := [(srv, p)]\<rparr> = tx\<lparr>ct_state := CTX_COMMIT_SENT\<rparr>"
        using ps by (cases tx) simp
      obtain m where "schedule_msgs (ce_retrier env3) = schedule_msgs (ce_retrier env) @ [m]" "ce_gen env3 = created 1 (ce_gen env)"
          "P + R = {#}" "tx2 = tx\<lparr>ct_state := CTX_COMMIT_SENT\<rparr>" "p3 = p"
          "conv srv (tx\<lparr>ct_state := CTX_COMMIT_SENT\<rparr>) s {#m#}" "sent_all (tx\<lparr>ct_state := CTX_COMMIT_SENT\<rparr>)"
          "moves (ce_gen env) ts [] [m] tx (tx\<lparr>ct_state := CTX_COMMIT_SENT\<rparr>)"
        using answered_commits [OF a idle True, of env] step ps by auto
      then show ?thesis by (intro exI [of _ "[m]"]) (simp add: eq)
    next
      case False
      then have "tx2 = tx" "env2 = env" "p3 = p" "env3 = env" using answered_waits [OF a idle, of env] step ps by auto
      moreover have "\<not> due ts tx" using a idle False by (simp add: due_def answered_def)
      note moves_idle [OF this]
      ultimately show ?thesis using answered_conv [OF a] same by (intro exI [of _ "[]"]) simp
    qed
  qed
qed

lemma answered_returns:
  assumes a: "answered srv s P R tx p"
  shows "\<exists>tx2 env2 p2. tick_open ts (tx, env) = Inr (tx2, env2) \<and> ct_participants tx2 = [(srv, p2)]"
proof (cases "put_due ts tx")
  case True
  with answered_puts [OF a] show ?thesis by blast
next
  case False
  have "ct_participants tx = [(srv, p)]" using a by (simp add: answered_def)
  then show ?thesis using answered_waits [OF a False] answered_commits [OF a False] by (cases "commits_now ts tx") fastforce+
qed

lemma conv_open:
  assumes "conv srv tx s F" and "ct_state tx = CTX_OPEN"
  shows "stx_state s = STX_OPEN \<and> stx_txid s = ct_txid tx \<and>
    (\<exists>P R. F = P + R \<and> (\<forall>m \<in># P. request_of srv tx MSG_PUT m) \<and> (\<forall>m \<in># R. reply_to srv tx MSG_PUT_REPLY m) \<and>
      rm_completed_puts (table_of tx) + size P + size R \<le> length (puts_table_status (table_of tx)) \<and>
      mset (stx_puts s) + image_mset put_pair P = mset (rm_puts (table_of tx)) \<and> answering (table_of tx) P R)"
  using assms(1)
proof cases
  case (putting P R)
  then show ?thesis by (intro conjI exI [of _ P] exI [of _ R])
qed (use assms(2) in simp_all)

lemma moves_after_replies:
  assumes "ct_state tx = CTX_OPEN" and "replies_read ms (table_of tx) (table_of tx1)"
    and "tx1 = tx\<lparr>ct_participants := ps\<rparr>" and m: "moves g ts [] out tx1 tx2"
  shows "moves g ts ms out tx tx2"
proof -
  have state: "ct_state tx1 = CTX_OPEN" using assms(1,3) by simp
  have steps: "client_steps tx \<le> client_steps tx1" "repeated (table_of tx1) \<longleftrightarrow> repeated (table_of tx)"
      "\<not> repeated (table_of tx) \<Longrightarrow> ms \<noteq> [] \<Longrightarrow> client_steps tx < client_steps tx1"
      "rm_completed_puts (table_of tx1) = rm_completed_puts (table_of tx) \<or> client_steps tx < client_steps tx1"
      "table_scheduled_puts (table_of tx1) = table_scheduled_puts (table_of tx)"
    using assms(1,2) state assms(3) by (auto simp: client_steps_def replies_read_def)
  have "due ts tx1 \<or> client_steps tx < client_steps tx1" if "due ts tx"
    using that steps(4) assms(1,3) by (auto simp: due_def put_due_def commits_now_def)
  moreover have "numbered (g_msg_id g) (length out) (table_of tx) (table_of tx2)"
    using m steps(2,5) by (simp add: moves_def numbered_def)
  ultimately show ?thesis using steps(1-3) m unfolding moves_def by fastforce
qed

text \<open>The replies of the open transaction are read.\<close>

lemma open_replies_read:
  assumes c: "conv srv tx s F" and inv: "ct_inv srv tx" and all: "sent_all tx" and ms: "mset ms \<subseteq># F"
    "\<forall>m \<in> set ms. msg_destination m = ct_actor_id tx" and srv: "ct_actor_id tx \<noteq> srv" and state: "ct_state tx = CTX_OPEN"
  shows "\<exists>p p1 P R. ct_participants tx = [(srv, p)] \<and>
    process_incoming ts (group_of srv (snd (fold sort_msg ms ([], [])))) p = Inr p1 \<and>
    replies_read ms (p_requests p) (p_requests p1) \<and>
    answered srv s P R (tx\<lparr>ct_participants := [(srv, p1)]\<rparr>) p1 \<and> P + R = F - mset ms"
proof -
  obtain p where p: "participant_mid p (\<lambda>_. False) srv tx" "ct_coordinator tx = srv" "d_actor_ids (ct_discovery tx) = [srv]"
      "the_participant tx = p" "table_of tx = p_requests p"
    using participantE [OF inv] state by auto
  have open_tx: "stx_state s = STX_OPEN" "stx_txid s = ct_txid tx" using conv_open [OF c state] by simp_all
  obtain P R where F: "F = P + R" and PR: "\<forall>m \<in># P. request_of srv tx MSG_PUT m" "\<forall>m \<in># R. reply_to srv tx MSG_PUT_REPLY m"
      "rm_completed_puts (p_requests p) + size P + size R \<le> length (puts_table_status (p_requests p))"
      "mset (stx_puts s) + image_mset put_pair P = mset (rm_puts (p_requests p))" "answering (p_requests p) P R"
    using conv_open [OF c state] unfolding p(5) by blast
  have "\<forall>m \<in> set ms. m \<notin># P" using ms(2) PR(1) srv unfolding request_of_def by metis
  with ms(1) have msR: "mset ms \<subseteq># R" unfolding F by (rule sub_right)
  then have replies: "\<forall>m \<in> set ms. reply_to srv tx MSG_PUT_REPLY m" using PR(2) by (auto dest: mset_subset_eqD)
  have mid: "ct_participants tx = [(srv, p)]" "rm_ok (p_requests p)" "p_state p = P_TX_OPEN"
    using p(1) state by (simp_all add: participant_mid_def)
  from replies_open_return [OF msR replies mid(2) PR(5)] obtain rm where
      rm1: "foldE participant_reply_open ms p = Inr (p\<lparr>p_requests := rm\<rparr>)" "replies_read ms (p_requests p) rm"
      and ans: "answering rm P (R - mset ms)"
    by blast
  have rm: "rm_ok rm" "rm_puts rm = rm_puts (p_requests p)" "rm_next_put rm = rm_next_put (p_requests p)"
      "rm_completed_puts rm \<le> rm_completed_puts (p_requests p) + length ms"
    using rm1(2) by (simp_all add: replies_read_def)
  define p1 where "p1 = p\<lparr>p_requests := rm\<rparr>"
  let ?tx1 = "tx\<lparr>ct_participants := [(srv, p1)]\<rparr>"
  have "group_of srv (snd (fold sort_msg ms ([], []))) = ms"
    using sorted_all [of ms srv "[]" "[]"] replies by (simp add: reply_to_def group_of_def)
  then have inc: "process_incoming ts (group_of srv (snd (fold sort_msg ms ([], [])))) p = Inr p1"
    using rm1(1) mid(3) by (simp add: process_incoming_def p1_def)
  have len: "length (puts_table_status rm) = length (puts_table_status (p_requests p))" using rm(2) by (metis length_rm_puts)
  have "length ms \<le> size R" using size_mset_mono [OF msR] by simp
  then have room: "rm_completed_puts rm + size P + size (R - mset ms) \<le> length (puts_table_status rm)"
    using PR(3) rm(4) len size_Diff_submset [OF msR] by simp
  have "answered srv s P (R - mset ms) ?tx1 p1"
    using p(1-3) mid PR(1,2,4) open_tx rm ans len room all state
    unfolding answered_def p1_def
    by (auto simp: participant_mid_def sent_all_def p(4,5) request_of_def reply_to_def dest: in_diffD)
  moreover have "P + (R - mset ms) = F - mset ms" unfolding F by (rule multiset_diff_union_assoc [OF msR, symmetric])
  moreover have "replies_read ms (p_requests p) (p_requests p1)" using rm1(2) by (simp add: p1_def)
  ultimately show ?thesis using mid(1) inc by blast
qed

lemma conv_tick_open:
  assumes c: "conv srv tx s F" and inv: "ct_inv srv tx" and all: "sent_all tx" and ms: "mset ms \<subseteq># F"
    "\<forall>m \<in> set ms. msg_destination m = ct_actor_id tx" and srv: "ct_actor_id tx \<noteq> srv"
    and empty: "schedule_msgs (ce_retrier env) = []" and state: "ct_state tx = CTX_OPEN"
  shows "goes_on srv ts ms s tx env F scheduled (client_tx_tick ts ms scheduled (tx, env))"
proof -
  obtain p p1 P R where mid: "ct_participants tx = [(srv, p)]"
      and inc: "process_incoming ts (group_of srv (snd (fold sort_msg ms ([], [])))) p = Inr p1"
      and read: "replies_read ms (p_requests p) (p_requests p1)"
      and ans: "answered srv s P R (tx\<lparr>ct_participants := [(srv, p1)]\<rparr>) p1" and flow: "P + R = F - mset ms"
    using open_replies_read [OF c inv all ms srv state] by blast
  define tx1 where "tx1 = tx\<lparr>ct_participants := [(srv, p1)]\<rparr>"
  note r = answered_returns [OF ans, folded tx1_def] answered_tick [OF ans, folded tx1_def]
  obtain tx2 env2 p2 where t2: "tick_open ts (tx1, env) = Inr (tx2, env2)" "ct_participants tx2 = [(srv, p2)]" using r(1) by blast
  obtain p3 env3 where t3: "schedule_requests ts (p2, env2) = (p3, env3)" by (cases "schedule_requests ts (p2, env2)")
  have "tick_state ts ms (tx1, env) = Inr (tx2, env2)" using t2 state by (simp add: tick_state_def tx1_def)
  note run = tick_one_participant [OF mid inc this [unfolded tx1_def] t2(2) t3]
  moreover obtain out where out: "schedule_msgs (ce_retrier env3) = schedule_msgs (ce_retrier env) @ out"
      "ce_gen env3 = created (length out) (ce_gen env)" "ct_txid tx2 = ct_txid tx1"
      "conv srv (tx2\<lparr>ct_participants := [(srv, p3)]\<rparr>) s (F - mset ms + mset out)"
      "sent_all (tx2\<lparr>ct_participants := [(srv, p3)]\<rparr>)" "moves (ce_gen env) ts [] out tx1 (tx2\<lparr>ct_participants := [(srv, p3)]\<rparr>)"
    using r(2) [OF t2 t3] unfolding flow by blast
  moreover have "moves (ce_gen env) ts ms out tx (tx2\<lparr>ct_participants := [(srv, p3)]\<rparr>)"
    by (rule moves_after_replies [OF state _ _ out(6)]) (use read mid in \<open>simp_all add: tx1_def table_of_one\<close>)
  ultimately show ?thesis using empty by (auto simp: goes_on_def tx1_def)
qed

lemma commit_reply_read:
  assumes c: "conv srv tx s F" and all: "sent_all tx" and mid: "ct_participants tx = [(srv, p)]"
    and ms: "mset ms \<subseteq># F" "\<forall>m \<in> set ms. msg_destination m = ct_actor_id tx" and srv: "ct_actor_id tx \<noteq> srv"
    and state: "ct_state tx = CTX_COMMIT_SENT"
  shows "\<exists>tx1. foldE reply_commit_sent ms tx = Inr tx1 \<and> ct_participants tx1 = [(srv, p)] \<and> ct_txid tx1 = ct_txid tx \<and>
    conv srv tx1 s (F - mset ms) \<and> sent_all tx1 \<and> moves g ts ms [] tx tx1 \<and>
    (\<forall>m \<in> set ms. msg_type m \<noteq> MSG_START_ACK \<and> msg_type m \<noteq> MSG_PUT_REPLY)"
proof (cases "ms = []")
  case True
  moreover have "\<not> due ts tx" using state by (simp add: due_def)
  ultimately show ?thesis using c all mid moves_idle by simp
next
  case False
  from c state False ms srv consider
      (acc) m where "F = {#m#}" "ms = [m]" "reply_to srv tx MSG_COMMIT_ACK m" "stx_state s = STX_COMMITTED"
        "mset (stx_puts s) = mset (spec_pairs (ct_spec tx))"
    | (rej) m where "F = {#m#}" "ms = [m]" "reply_to srv tx MSG_ROLLED_BACK_BY_SERVER m" "stx_state s = STX_ROLLED_BACK_BY_SERVER"
        "mset (stx_puts s) = mset (spec_pairs (ct_spec tx))"
    by (cases; auto dest!: mset_sub_single simp: request_of_def)
  then show ?thesis
  proof cases
    case acc
    then obtain i t where m: "msg_type m = MSG_COMMIT_ACK" "msg_payload m = MsgCommitAckPayload i t"
      by (cases "msg_payload m") (auto simp: reply_to_def typed_def)
    show ?thesis
      by (rule exI [of _ "tx\<lparr>ct_commit_ts := t, ct_state := CTX_COMMITTED\<rparr>"])
        (use acc m state mid all in \<open>auto simp: reply_commit_sent_def sent_all_def table_of_def the_participant_def client_steps_def
            intro: conv.committed moves_forward\<close>)
  next
    case rej
    then obtain i t where m: "msg_type m = MSG_ROLLED_BACK_BY_SERVER" "msg_payload m = MsgRolledBackByServerPayload i t"
      by (cases "msg_payload m") (auto simp: reply_to_def typed_def)
    show ?thesis
      by (rule exI [of _ "tx\<lparr>ct_state := CTX_ROLLED_BACK_BY_SERVER, ct_conflict_txid := t\<rparr>"])
        (use rej m state mid all in \<open>auto simp: reply_commit_sent_def sent_all_def table_of_def the_participant_def client_steps_def
            intro: conv.rolled_back moves_forward\<close>)
  qed
qed

lemma conv_tick_commit_sent:
  assumes c: "conv srv tx s F" and inv: "ct_inv srv tx" and all: "sent_all tx" and ms: "mset ms \<subseteq># F"
    "\<forall>m \<in> set ms. msg_destination m = ct_actor_id tx" and srv: "ct_actor_id tx \<noteq> srv"
    and empty: "schedule_msgs (ce_retrier env) = []" and state: "ct_state tx = CTX_COMMIT_SENT"
  shows "goes_on srv ts ms s tx env F scheduled (client_tx_tick ts ms scheduled (tx, env))"
proof -
  obtain p where p: "participant_mid p (\<lambda>_. False) srv tx" "the_participant tx = p" "table_of tx = p_requests p"
    using participantE [OF inv] state by auto
  have mid: "ct_participants tx = [(srv, p)]" "p_state p = P_TX_OPEN" using p(1) state by (simp_all add: participant_mid_def)
  have sent: "schedule_requests ts (p, env) = (p, env)" for env
    using all p(2,3) by (intro schedule_nothing) (simp add: sent_all_def)
  have same: "tx\<lparr>ct_participants := [(srv, p)]\<rparr> = tx" using mid(1) by (cases tx) simp
  have env: "env\<lparr>ce_retrier := (ce_retrier env)\<lparr>schedule_msgs := []\<rparr>\<rparr> = env" using empty by (cases env) simp
  obtain tx1 where tx1: "foldE reply_commit_sent ms tx = Inr tx1" "ct_participants tx1 = [(srv, p)]" "ct_txid tx1 = ct_txid tx"
      "conv srv tx1 s (F - mset ms)" "sent_all tx1" "moves (ce_gen env) ts ms [] tx tx1"
      and none: "\<forall>m \<in> set ms. msg_type m \<noteq> MSG_START_ACK \<and> msg_type m \<noteq> MSG_PUT_REPLY"
    using commit_reply_read [OF c all mid(1) ms srv state] by blast
  have "process_incoming ts (group_of srv (snd (fold sort_msg ms ([], [])))) p = Inr p"
    using mid(2) sorted_none [OF none] by (simp add: process_incoming_def group_of_def)
  moreover have "tick_state ts ms (tx\<lparr>ct_participants := [(srv, p)]\<rparr>, env) = Inr (tx1, env)"
    using state tx1(1) same by (simp add: tick_state_def tick_commit_sent_def)
  ultimately have "client_tx_tick ts ms scheduled (tx, env) = Inr (scheduled, tx1\<lparr>ct_participants := [(srv, p)]\<rparr>, env)"
    using tick_one_participant [OF mid(1) _ _ tx1(2) sent] empty env by simp
  moreover have "tx1\<lparr>ct_participants := [(srv, p)]\<rparr> = tx1" using tx1(2) by (cases tx1) simp
  ultimately show ?thesis using tx1 by (simp add: goes_on_def)
qed

lemma conv_tick_done:
  assumes c: "conv srv tx s F" and inv: "ct_inv srv tx" and all: "sent_all tx" and ms: "mset ms \<subseteq># F"
    and empty: "schedule_msgs (ce_retrier env) = []" and state: "ct_state tx \<in> {CTX_COMMITTED, CTX_ROLLED_BACK_BY_SERVER}"
  shows "goes_on srv ts ms s tx env F scheduled (client_tx_tick ts ms scheduled (tx, env))"
proof -
  have "ct_state tx \<noteq> CTX_NOT_STARTED" using state by auto
  from participantE [OF inv this] obtain p where p: "participant_mid p (\<lambda>_. False) srv tx" "the_participant tx = p"
      "table_of tx = p_requests p"
    by metis
  have mid: "ct_participants tx = [(srv, p)]" "p_state p = P_TX_OPEN" using p(1) state by (auto simp: participant_mid_def)
  have sent: "schedule_requests ts (p, env) = (p, env)" for env
    using all p(2,3) by (intro schedule_nothing) (simp add: sent_all_def)
  have same: "tx\<lparr>ct_participants := [(srv, p)]\<rparr> = tx" using mid(1) by (cases tx) simp
  have F: "F = {#}" "ms = []" using c state ms by (cases; auto)+
  then have "client_tx_tick ts ms scheduled (tx, env) = Inr (scheduled, tx, env\<lparr>ce_retrier := (ce_retrier env)\<lparr>schedule_msgs := []\<rparr>\<rparr>)"
    using tick_one_participant [OF mid(1) _ _ mid(1) sent, where ms = ms] mid empty state same
    by (auto simp: process_incoming_def group_of_def tick_state_def)
  moreover have "\<not> due ts tx" using state by (auto simp: due_def)
  ultimately show ?thesis using c F all moves_idle by (simp add: goes_on_def)
qed

text \<open>Any tick of a transaction that has begun.\<close>

lemma conv_tick:
  assumes "conv srv tx s F" and "ct_inv srv tx" and "sent_all tx" and "mset ms \<subseteq># F"
    and "\<forall>m \<in> set ms. msg_destination m = ct_actor_id tx" and "ct_actor_id tx \<noteq> srv" and "schedule_msgs (ce_retrier env) = []"
  shows "goes_on srv ts ms s tx env F scheduled (client_tx_tick ts ms scheduled (tx, env))"
proof (cases "ct_state tx")
  case CTX_NOT_STARTED
  with conv_not_started [OF assms(1)] show ?thesis by simp
qed (use conv_tick_start conv_tick_open conv_tick_commit_sent conv_tick_done assms in simp_all)

text \<open>The first words: when its time has come a transaction takes a new identifier and asks the server to
  start.\<close>

lemma conv_begin:
  assumes inv: "ct_inv srv tx" and state: "ct_state tx = CTX_NOT_STARTED" and empty: "schedule_msgs (ce_retrier env) = []"
    and pos: "0 \<le> g_tx_id (ce_gen env)" and s: "stx_state s = STX_NOT_STARTED" "stx_read_ts s = UNDEFINED_TS" "stx_puts s = []"
  shows "\<exists>out tx1 env1. client_tx_tick ts [] scheduled (tx, env) = Inr (scheduled @ out, tx1, env1) \<and>
    (tx1 = tx \<and> out = [] \<and> ce_gen env1 = ce_gen env \<and> \<not> due ts tx \<or>
     ct_txid tx1 = g_tx_id (ce_gen env) + 1 \<and> ce_gen env1 = (created 1 (ce_gen env))\<lparr>g_tx_id := g_tx_id (ce_gen env) + 1\<rparr> \<and>
     length out = 1 \<and> table_of tx1 = make_requests_manager \<and>
     conv srv tx1 s (mset out) \<and> sent_all tx1 \<and> 0 < client_steps tx1)"
proof (cases "ts \<ge> earliest_start_ts (ct_spec tx)")
  case False
  have "ct_participants tx = []" using inv state by (simp add: ct_inv_def ct_mid_def)
  moreover from this have "tx\<lparr>ct_participants := []\<rparr> = tx" by (cases tx) simp
  ultimately show ?thesis using False state empty
    by (simp add: client_tx_tick_def receive_replies_def tick_state_def tick_not_started_def send_requests_def get_scheduled_msgs_def due_def)
next
  case True
  let ?g = "ce_gen env" and ?a = "ct_actor_id tx"
  have ps: "ct_participants tx = []" and d: "d_actor_ids (ct_discovery tx) = [srv]" using inv state by (simp_all add: ct_inv_def ct_mid_def)
  from ps have same: "tx\<lparr>ct_participants := []\<rparr> = tx" by (cases tx) simp
  define m where "m = fst (create_msg_start ?a srv ?g)"
  define i where "i = g_tx_id ?g + 1"
  define p where "p = (make_tx_participant ?a srv)\<lparr>p_txid := i, p_state := P_START_MSG_SENT\<rparr>"
  define tx1 where "tx1 = tx\<lparr>ct_coordinator := srv, ct_txid := i, ct_state := CTX_START_SENT, ct_participants := [(srv, p)]\<rparr>"
  have i: "i \<noteq> UNDEFINED_TX_ID" using pos by (simp add: i_def UNDEFINED_TX_ID_def)
  have m: "request_of srv tx1 MSG_START m"
    by (simp add: m_def tx1_def i_def create_msg_defs request_of_def typed_def)
  have "schedule_requests ts (p, env1) = (p, env1)" for env1
    by (simp add: schedule_requests_def p_def make_tx_participant_def)
  moreover have p0: "p_client (make_tx_participant ?a srv) = ?a" "p_coordinator (make_tx_participant ?a srv) = srv"
    by (simp_all add: make_tx_participant_def)
  ultimately have run: "\<exists>env1. client_tx_tick ts [] scheduled (tx, env) = Inr (scheduled @ [m], tx1, env1) \<and>
      ce_gen env1 = (created 1 ?g)\<lparr>g_tx_id := i\<rparr>"
    using True state empty ps d i
    by (simp add: client_tx_tick_def receive_replies_def tick_state_def tick_not_started_def configure_coordinator_def
        get_random_def schedule_start_msg_def participant_txid_def create_msg_defs get_txid_from_msg_payload_def
        send_requests_def retrier_defs same m_def tx1_def p_def i_def created_def)
  have "conv srv tx1 s (mset [m])"
    using s m by (simp, intro conv.starting)
      (simp_all add: tx1_def p_def the_participant_def table_of_def make_tx_participant_def make_requests_manager_def)
  moreover have "sent_all tx1"
    by (simp add: sent_all_def tx1_def p_def the_participant_def table_of_def make_tx_participant_def make_requests_manager_def)
  moreover have "0 < client_steps tx1" by (simp add: client_steps_def tx1_def)
  moreover have "table_of tx1 = make_requests_manager"
    by (simp add: tx1_def p_def table_of_def the_participant_def make_tx_participant_def)
  ultimately show ?thesis using run by (auto simp: i_def tx1_def)
qed

end
