(* ===== verification/Network.thy ===== *)
theory Network
  imports Conversation Client_Tx_Runs
begin

text \<open>
  All conversations at once: the transactions of all clients, the transactions of the server and the
  multiset of all messages in flight, wherever they are (the queue of the runtime, the mail of an
  actor, the messages an actor is working on). Every tick of a client, of the server and of the
  runtime returns and keeps the network in step.
\<close>

section \<open>The network\<close>

definition begun :: "client_tx \<Rightarrow> bool" where
  "begun tx \<longleftrightarrow> ct_state tx \<noteq> CTX_NOT_STARTED"

definition about :: "int \<Rightarrow> message multiset \<Rightarrow> message multiset" where
  "about i F = {#m \<in># F. payload_txid (msg_payload m) = i#}"

definition server_side :: "int \<Rightarrow> transactions \<Rightarrow> int \<Rightarrow> server_tx" where
  "server_side srv stxs i = (case stxs i of None \<Rightarrow> make_server_tx srv | Some s \<Rightarrow> s)"

text \<open>The messages in flight are the old ones, which the present tick of the runtime hands out, and the new
  ones. The marks are what was at the start of the tick: of each conversation the steps of its two
  ends and its messages, the identifier before the first message ever and how many messages there had been. Since
  then a conversation has advanced, or it is as it was; each new message was a step.\<close>

record marks =
  mk_conv :: "int \<Rightarrow> nat \<times> nat \<times> message multiset"
  mk_first :: u32
  mk_count :: nat

definition advanced :: "nat \<times> nat \<times> message multiset \<Rightarrow> client_tx \<Rightarrow> server_tx \<Rightarrow> message multiset \<Rightarrow> message multiset \<Rightarrow> bool" where
  "advanced = (\<lambda>(c, v, M) tx s Old New. c + v + size New \<le> client_steps tx + server_steps s \<and>
     (repeated (table_of tx) \<or> c \<le> client_steps tx \<and> v \<le> server_steps s \<and>
        (c < client_steps tx \<or> v < server_steps s \<or> Old = M \<and> New = {#})))"

definition in_step :: "int \<Rightarrow> marks \<Rightarrow> transactions \<Rightarrow> message multiset \<Rightarrow> message multiset \<Rightarrow> client_tx \<Rightarrow> bool" where
  "in_step srv mark stxs Old New tx \<longleftrightarrow> ct_inv srv tx \<and> ct_actor_id tx \<noteq> srv \<and>
     (begun tx \<longrightarrow> conv srv tx (server_side srv stxs (ct_txid tx)) (about (ct_txid tx) (Old + New)) \<and> sent_all tx \<and>
        advanced (mk_conv mark (ct_txid tx)) tx (server_side srv stxs (ct_txid tx)) (about (ct_txid tx) Old) (about (ct_txid tx) New))"

definition network :: "int \<Rightarrow> marks \<Rightarrow> generator \<Rightarrow> message multiset \<Rightarrow> message multiset \<Rightarrow> client_tx list \<Rightarrow> transactions \<Rightarrow> bool" where
  "network srv mark g Old New txs stxs \<longleftrightarrow> 0 \<le> g_tx_id g \<and>
     g_msg_id g = mk_first mark + of_nat (mk_count mark + size New) \<and>
     (\<forall>tx \<in> set txs. in_step srv mark stxs Old New tx \<and> (begun tx \<longrightarrow> ct_txid tx \<le> g_tx_id g \<and>
        fresh_ids (mk_first mark) (mk_count mark + size New) (table_of tx))) \<and>
     distinct (map ct_txid (filter begun txs)) \<and>
     (\<forall>m \<in># Old + New. \<exists>tx \<in> set txs. begun tx \<and> ct_txid tx = payload_txid (msg_payload m)) \<and>
     (\<forall>i. stxs i \<noteq> None \<longrightarrow> i \<le> g_tx_id g) \<and> (\<forall>i > g_tx_id g. mk_conv mark i = (0, 0, {#}))"

lemma advanced_client:
  assumes "advanced mk tx s Old New" and "moves g ts ms out tx tx1"
  shows "advanced mk tx1 s (Old - mset ms) (New + mset out)"
proof -
  have "out \<noteq> [] \<or> ms \<noteq> [] \<longrightarrow> client_steps tx < client_steps tx1 \<or> repeated (table_of tx1)"
    using assms(2) by (cases out) (auto simp: moves_def)
  with assms show ?thesis by (cases "ms = [] \<and> out = []") (auto simp: advanced_def moves_def split: prod.splits)
qed

lemma advanced_server:
  assumes "advanced mk tx s Old New" and "server_steps s1 = server_steps s + length ms" and "length out = length ms"
  shows "advanced mk tx s1 (Old - mset ms) (New + mset out)"
  using assms by (cases ms) (auto simp: advanced_def split: prod.splits)

lemma about_in: "m \<in># about i F \<longleftrightarrow> m \<in># F \<and> payload_txid (msg_payload m) = i"
  by (simp add: about_def)

lemma about_all: "\<forall>m \<in># A. payload_txid (msg_payload m) = i \<Longrightarrow> about i A = A"
  by (simp add: about_def filter_mset_eq_conv)

lemma about_none: "\<forall>m \<in># A. payload_txid (msg_payload m) \<noteq> i \<Longrightarrow> about i A = {#}"
  by (simp add: about_def filter_mset_eq_conv)

lemma about_union: "about i (A + B) = about i A + about i B"
  by (simp add: about_def)

lemma about_taken:
  assumes "\<forall>m \<in># A. payload_txid (msg_payload m) = i"
  shows "about j (F - A) = (if j = i then about i F - A else about j F)"
proof -
  have "about j (F - A) = about j F - about j A" by (simp add: about_def)
  then show ?thesis using assms about_all [of A i] about_none [of A j] by auto
qed

lemma about_sent:
  assumes "\<forall>m \<in># B. payload_txid (msg_payload m) = i"
  shows "about j (F + B) = (if j = i then about i F + B else about j F)"
  using assms about_all [of B i] about_none [of B j] by (auto simp: about_union)

lemma mset_flow: "A \<subseteq># Old \<Longrightarrow> Old - A + (New + B) = Old + New - A + B"
  by (metis add.assoc multiset_diff_union_assoc subset_mset.add_diff_assoc2)

lemma undefined_begun: "ct_inv srv tx \<Longrightarrow> begun tx \<longleftrightarrow> ct_txid tx \<noteq> UNDEFINED_TX_ID"
  by (auto simp: begun_def ct_inv_def ct_mid_def split: if_splits)

lemma networkD:
  assumes "network srv mark g Old New txs stxs"
  shows "0 \<le> g_tx_id g" and "tx \<in> set txs \<Longrightarrow> in_step srv mark stxs Old New tx" and "tx \<in> set txs \<Longrightarrow> begun tx \<Longrightarrow> ct_txid tx \<le> g_tx_id g"
    and "tx \<in> set txs \<Longrightarrow> begun tx \<Longrightarrow> conv srv tx (server_side srv stxs (ct_txid tx)) (about (ct_txid tx) (Old + New))"
    and "m \<in># Old + New \<Longrightarrow> \<exists>tx \<in> set txs. begun tx \<and> ct_txid tx = payload_txid (msg_payload m)"
    and "stxs i \<noteq> None \<Longrightarrow> i \<le> g_tx_id g" and "g_tx_id g < i \<Longrightarrow> mk_conv mark i = (0, 0, {#})"
    and "g_msg_id g = mk_first mark + of_nat (mk_count mark + size New)"
    and "tx \<in> set txs \<Longrightarrow> begun tx \<Longrightarrow> fresh_ids (mk_first mark) (mk_count mark + size New) (table_of tx)"
  using assms by (auto simp: network_def in_step_def)

text \<open>Every message in flight is typed, defined and goes between the server and the transaction's client.\<close>

lemma network_message:
  assumes "network srv mark g Old New txs stxs" and "m \<in># Old + New"
  shows "\<exists>tx \<in> set txs. begun tx \<and> payload_txid (msg_payload m) \<noteq> UNDEFINED_TX_ID \<and> travels srv tx m"
proof -
  obtain tx where tx: "tx \<in> set txs" "begun tx" "ct_txid tx = payload_txid (msg_payload m)"
    using networkD(5) [OF assms] by blast
  have "m \<in># about (ct_txid tx) (Old + New)" using assms(2) tx(3) by (simp add: about_in)
  from conv_messages [OF networkD(4) [OF assms(1) tx(1,2)] this] have "travels srv tx m" .
  moreover have "ct_inv srv tx" using networkD(2) [OF assms(1) tx(1)] by (simp add: in_step_def)
  ultimately show ?thesis using tx undefined_begun by (intro bexI [of _ tx]) auto
qed

text \<open>The identifier of the transaction whose turn it is, its own or a new one, is no other transaction's.\<close>

lemma network_others:
  assumes n: "network srv mark g Old New (pre @ tx # post) stxs"
    and i: "if begun tx then ct_txid tx = i else i = g_tx_id g + 1"
  shows "t \<in> set (pre @ post) \<Longrightarrow> begun t \<Longrightarrow> ct_txid t \<noteq> i"
    and "begun tx1 \<Longrightarrow> ct_txid tx1 = i \<Longrightarrow> distinct (map ct_txid (filter begun (pre @ tx1 # post)))"
proof -
  have old: "ct_txid t \<noteq> i" if "t \<in> set (pre @ post)" "begun t" for t
  proof (cases "begun tx")
    case True
    then have "distinct (map ct_txid (filter begun (pre @ tx # post)))" "ct_txid tx = i" using n i by (simp_all add: network_def)
    with True have "ct_txid ` {x \<in> set pre \<union> set post. begun x} \<inter> {i} = {}" by auto
    with that show ?thesis by auto
  next
    case False
    moreover have "ct_txid t \<le> g_tx_id g" using networkD(3) [OF n, of t] that by auto
    ultimately show ?thesis using i by simp
  qed
  from old show "t \<in> set (pre @ post) \<Longrightarrow> begun t \<Longrightarrow> ct_txid t \<noteq> i" .
  have "distinct (map ct_txid (filter begun (pre @ post)))" using n by (auto simp: network_def split: if_splits)
  moreover have "i \<notin> ct_txid ` {x \<in> set pre \<union> set post. begun x}" using old by auto
  ultimately show "distinct (map ct_txid (filter begun (pre @ tx1 # post)))" if "begun tx1" "ct_txid tx1 = i" using that by auto
qed

text \<open>A transaction takes its turn: messages of its own leave the network and others enter.\<close>

lemma network_turn:
  assumes n: "network srv mark g Old New (pre @ tx # post) stxs"
    and tx1: "in_step srv mark stxs (Old - A) (New + B) tx1" "begun tx1" "ct_txid tx1 = i"
    and AB: "\<forall>m \<in># A. payload_txid (msg_payload m) = i" "\<forall>m \<in># B. payload_txid (msg_payload m) = i"
    and i: "if begun tx then ct_txid tx = i \<and> g_tx_id g1 = g_tx_id g else i = g_tx_id g + 1 \<and> g_tx_id g1 = g_tx_id g + 1"
    and ids: "g_msg_id g1 = g_msg_id g + of_nat (size B)" "fresh_ids (mk_first mark) (mk_count mark + size (New + B)) (table_of tx1)"
  shows "network srv mark g1 (Old - A) (New + B) (pre @ tx1 # post) stxs"
proof -
  have later: "g_tx_id g \<le> g_tx_id g1" using i by (auto split: if_splits)
  have "if begun tx then ct_txid tx = i else i = g_tx_id g + 1" using i by (simp split: if_splits)
  note old = network_others(1) [OF n this] and apart = network_others(2) [OF n this tx1(2,3)]
  have frame: "in_step srv mark stxs (Old - A) (New + B) t" if "t \<in> set (pre @ post)" for t
  proof -
    have "in_step srv mark stxs Old New t" using networkD(2) [OF n, of t] that by auto
    moreover have "begun t \<Longrightarrow> about (ct_txid t) (Old - A) = about (ct_txid t) Old"
        "begun t \<Longrightarrow> about (ct_txid t) (New + B) = about (ct_txid t) New"
      using old [OF that] about_taken [OF AB(1)] about_sent [OF AB(2)] by simp_all
    ultimately show ?thesis by (simp add: in_step_def about_union)
  qed
  have owner: "\<exists>t \<in> set (pre @ tx1 # post). begun t \<and> ct_txid t = payload_txid (msg_payload m)" if "m \<in># Old - A + (New + B)" for m
  proof (cases "payload_txid (msg_payload m) = i")
    case False
    then have "m \<in># Old + New" using that AB(2) by (auto dest: in_diffD)
    from networkD(5) [OF n this] obtain t where t: "t \<in> set (pre @ tx # post)" "begun t" "ct_txid t = payload_txid (msg_payload m)"
      by blast
    with False i have "t \<noteq> tx" by auto
    with t show ?thesis by auto
  qed (use tx1 in auto)
  have each: "in_step srv mark stxs (Old - A) (New + B) t \<and> (begun t \<longrightarrow> ct_txid t \<le> g_tx_id g1 \<and>
      fresh_ids (mk_first mark) (mk_count mark + size (New + B)) (table_of t))" if "t \<in> set (pre @ tx1 # post)" for t
  proof (cases "t = tx1")
    case True
    then show ?thesis using tx1 i ids(2) networkD(3) [OF n, of tx] by (cases "begun tx") simp_all
  next
    case False
    with that have t: "t \<in> set (pre @ post)" by auto
    then have "t \<in> set (pre @ tx # post)" by auto
    from networkD(3,9) [OF n this] frame [OF t] later show ?thesis
      using fresh_ids_mono [of _ "mk_count mark + size New" "table_of t" "mk_count mark + size (New + B)"] by fastforce
  qed
  have "\<forall>j. stxs j \<noteq> None \<longrightarrow> j \<le> g_tx_id g1" using networkD(6) [OF n] later by (metis order_trans)
  moreover have "0 \<le> g_tx_id g1" using networkD(1) [OF n] later by simp
  moreover have "\<forall>j > g_tx_id g1. mk_conv mark j = (0, 0, {#})" using networkD(7) [OF n] later by simp
  moreover have "g_msg_id g1 = mk_first mark + of_nat (mk_count mark + size (New + B))"
    using networkD(8) [OF n] ids(1) by (simp add: add.assoc)
  ultimately show ?thesis using apart owner each unfolding network_def by blast
qed

text \<open>At the start of a tick every message is old and every conversation is as it is marked.\<close>

definition marks_of :: "int \<Rightarrow> marks \<Rightarrow> client_tx list \<Rightarrow> transactions \<Rightarrow> message multiset \<Rightarrow> marks" where
  "marks_of srv mark txs stxs F = \<lparr>mk_conv = (\<lambda>i. case map_of (map (\<lambda>tx. (ct_txid tx, tx)) (filter begun txs)) i of
     None \<Rightarrow> (0, 0, {#})
   | Some tx \<Rightarrow> (client_steps tx, server_steps (server_side srv stxs i), about i F)),
     mk_first = mk_first mark, mk_count = mk_count mark + size F\<rparr>"

lemma marks_of_begun:
  assumes "distinct (map ct_txid (filter begun txs))" and "tx \<in> set txs" and "begun tx"
  shows "mk_conv (marks_of srv mark txs stxs F) (ct_txid tx) =
    (client_steps tx, server_steps (server_side srv stxs (ct_txid tx)), about (ct_txid tx) F)"
proof -
  have "distinct (map fst (map (\<lambda>tx. (ct_txid tx, tx)) (filter begun txs)))" using assms(1) by (simp add: comp_def)
  then have "map_of (map (\<lambda>tx. (ct_txid tx, tx)) (filter begun txs)) (ct_txid tx) = Some tx"
    using assms(2,3) by (intro map_of_is_SomeI) auto
  then show ?thesis by (simp add: marks_of_def)
qed

lemma marks_of_fresh:
  assumes "\<forall>tx \<in> set txs. begun tx \<longrightarrow> ct_txid tx \<noteq> i"
  shows "mk_conv (marks_of srv mark txs stxs F) i = (0, 0, {#})"
proof -
  have "map_of (map (\<lambda>tx. (ct_txid tx, tx)) (filter begun txs)) i = None"
    using assms unfolding map_of_eq_None_iff by fastforce
  then show ?thesis by (simp add: marks_of_def)
qed

lemma network_marked:
  assumes n: "network srv mark g {#} F txs stxs"
  shows "network srv (marks_of srv mark txs stxs F) g F {#} txs stxs"
proof -
  let ?mark = "marks_of srv mark txs stxs F"
  have ids: "distinct (map ct_txid (filter begun txs))" using n by (simp add: network_def)
  have same: "mk_first ?mark = mk_first mark" "mk_count ?mark = mk_count mark + size F" by (simp_all add: marks_of_def)
  have "in_step srv ?mark stxs F {#} tx" if "tx \<in> set txs" for tx
    using networkD(2) [OF n that] marks_of_begun [OF ids that]
    by (auto simp: in_step_def advanced_def about_def)
  moreover have "mk_conv ?mark i = (0, 0, {#})" if "g_tx_id g < i" for i
    using networkD(3) [OF n] that by (intro marks_of_fresh) fastforce
  ultimately show ?thesis using n unfolding network_def same by simp
qed

section \<open>A tick of a client\<close>

lemma client_tick_keeps:
  assumes inv: "ct_inv srv tx" and empty: "schedule_msgs (ce_retrier env) = []"
    and run: "client_tx_tick ts ms scheduled (tx, env) = Inr (scheduled @ out, tx1, env1)"
  shows "ct_inv srv tx1" and "same_tx tx tx1" and "schedule_msgs (ce_retrier env1) = []"
    and "\<forall>m \<in> set out. msg_destination m = srv"
proof -
  have "\<forall>m \<in> set ms. told (\<lambda>_. True) (\<lambda>_. True) True m" by (simp add: told_any)
  from client_tx_tick_ok [OF inv agrees_any this run] empty
  show "ct_inv srv tx1" and "same_tx tx tx1" and "schedule_msgs (ce_retrier env1) = []"
    and "\<forall>m \<in> set out. msg_destination m = srv"
    by (auto simp: request_ok_def)
qed

lemma conv_sent:
  assumes "conv srv tx s (G + mset out)" and "\<forall>m \<in> set out. msg_destination m = srv" and "ct_actor_id tx \<noteq> srv"
  shows "\<forall>m \<in> set out. msg_source m = ct_actor_id tx \<and> payload_txid (msg_payload m) = ct_txid tx"
proof
  fix m assume m: "m \<in> set out"
  then have "travels srv tx m" by (intro conv_messages [OF assms(1)]) simp
  with assms(2,3) m show "msg_source m = ct_actor_id tx \<and> payload_txid (msg_payload m) = ct_txid tx"
    by (auto simp: travels_def)
qed

text \<open>What a tick makes of a transaction.\<close>

definition turn :: "int \<Rightarrow> client_tx \<Rightarrow> client_tx \<Rightarrow> bool" where
  "turn now tx tx1 \<longleftrightarrow> same_tx tx tx1 \<and> (due now tx \<longrightarrow> client_steps tx < client_steps tx1) \<and>
     (begun tx \<longrightarrow> begun tx1 \<and> client_steps tx \<le> client_steps tx1 \<and> (repeated (table_of tx) \<longrightarrow> repeated (table_of tx1)))"

lemma due_mono: "due now tx \<Longrightarrow> now \<le> ts \<Longrightarrow> due ts tx"
  by (auto simp: due_def put_due_def commits_now_def)

lemma network_begun_tx:
  assumes n: "network srv mark (ce_gen env) Old New (pre @ tx # post) stxs" and empty: "schedule_msgs (ce_retrier env) = []"
    and ms: "mset ms \<subseteq># Old" "\<forall>m \<in> set ms. payload_txid (msg_payload m) = ct_txid tx \<and> msg_destination m = ct_actor_id tx"
    and "begun tx" and now: "now \<le> ts"
  shows "\<exists>out tx1 env1. client_tx_tick ts ms scheduled (tx, env) = Inr (scheduled @ out, tx1, env1) \<and>
    network srv mark (ce_gen env1) (Old - mset ms) (New + mset out) (pre @ tx1 # post) stxs \<and>
    (\<forall>m \<in> set out. msg_source m = ct_actor_id tx) \<and> turn now tx tx1"
proof -
  let ?i = "ct_txid tx"
  let ?s = "server_side srv stxs ?i"
  have inv: "ct_inv srv tx" and a: "ct_actor_id tx \<noteq> srv"
    and c: "conv srv tx ?s (about ?i (Old + New))" "sent_all tx" "advanced (mk_conv mark ?i) tx ?s (about ?i Old) (about ?i New)"
    using networkD(2) [OF n, of tx] assms(5) by (simp_all add: in_step_def)
  have "about ?i (mset ms) = mset ms" using ms(2) by (intro about_all) simp
  then have sub: "mset ms \<subseteq># about ?i Old" using multiset_filter_mono [OF ms(1)] by (metis about_def)
  then have "mset ms \<subseteq># about ?i (Old + New)" by (simp add: about_union subset_mset.add_increasing2)
  from conv_tick [OF c(1) inv c(2) this _ a empty, of ts] ms(2) obtain out tx1 env1 where
      r: "client_tx_tick ts ms scheduled (tx, env) = Inr (scheduled @ out, tx1, env1)"
        "conv srv tx1 ?s (about ?i (Old + New) - mset ms + mset out)" "sent_all tx1" "ct_txid tx1 = ?i"
        "ce_gen env1 = created (length out) (ce_gen env)" "moves (ce_gen env) ts ms out tx tx1"
    unfolding goes_on_def by blast
  note k = client_tick_keeps [OF inv empty r(1)]
  have a1: "ct_actor_id tx1 = ct_actor_id tx" using k(2) by (simp add: same_tx_def)
  have out: "\<forall>m \<in> set out. msg_source m = ct_actor_id tx \<and> payload_txid (msg_payload m) = ?i"
    using conv_sent [OF r(2) k(4)] a a1 r(4) by simp
  then have mine: "\<forall>m \<in># mset ms. payload_txid (msg_payload m) = ?i" "\<forall>m \<in># mset out. payload_txid (msg_payload m) = ?i"
    using ms(2) by simp_all
  have b: "begun tx1" using conv_not_started [OF r(2)] by (simp add: begun_def)
  have "about ?i (Old - mset ms + (New + mset out)) = about ?i (Old + New) - mset ms + mset out"
    using about_taken [OF mine(1), of ?i Old] about_sent [OF mine(2), of ?i New] mset_flow [OF sub, of "about ?i New" "mset out"]
    unfolding about_union by metis
  moreover have "advanced (mk_conv mark ?i) tx1 ?s (about ?i (Old - mset ms)) (about ?i (New + mset out))"
    using advanced_client [OF c(3) r(6)] about_taken [OF mine(1), of ?i Old] about_sent [OF mine(2), of ?i New] by simp
  ultimately have "in_step srv mark stxs (Old - mset ms) (New + mset out) tx1"
    using k(1) a1 r a by (simp add: in_step_def)
  moreover have "fresh_ids (mk_first mark) (mk_count mark + size New + length out) (table_of tx1)"
    by (rule fresh_ids_numbered [where rm = "table_of tx"])
      (use networkD(8,9) [OF n] assms(5) r(6) in \<open>simp_all add: moves_def\<close>)
  ultimately have "network srv mark (ce_gen env1) (Old - mset ms) (New + mset out) (pre @ tx1 # post) stxs"
    using network_turn [OF n _ b r(4) mine, of "ce_gen env1"] assms(5) r(5) by (simp add: add.assoc)
  moreover have "turn now tx tx1" using k(2) r(6) b due_mono [OF _ now] by (auto simp: turn_def moves_def)
  ultimately show ?thesis using r out by (intro exI [of _ out] exI [of _ tx1] exI [of _ env1]) simp
qed

lemma network_fresh_tx:
  assumes n: "network srv mark (ce_gen env) Old New (pre @ tx # post) stxs" and empty: "schedule_msgs (ce_retrier env) = []"
    and "\<not> begun tx" and now: "now \<le> ts"
  shows "\<exists>out tx1 env1. client_tx_tick ts [] scheduled (tx, env) = Inr (scheduled @ out, tx1, env1) \<and>
    network srv mark (ce_gen env1) Old (New + mset out) (pre @ tx1 # post) stxs \<and>
    (\<forall>m \<in> set out. msg_source m = ct_actor_id tx) \<and> turn now tx tx1"
proof -
  let ?nxt = "g_tx_id (ce_gen env)"
  let ?j = "?nxt + 1"
  have inv: "ct_inv srv tx" and a: "ct_actor_id tx \<noteq> srv" using networkD(2) [OF n, of tx] by (simp_all add: in_step_def)
  have "stxs ?j = None" by (rule ccontr) (drule networkD(6) [OF n], simp)
  then have s: "server_side srv stxs ?j = make_server_tx srv" by (simp add: server_side_def)
  have "about ?j (Old + New) = {#}" using networkD(3,5) [OF n] by (intro about_none) fastforce
  then have none: "about ?j Old = {#}" "about ?j New = {#}" by (simp_all add: about_union)
  have mark: "mk_conv mark ?j = (0, 0, {#})" using networkD(7) [OF n] by simp
  have blank: "stx_state (make_server_tx srv) = STX_NOT_STARTED" "stx_read_ts (make_server_tx srv) = UNDEFINED_TS"
      "stx_puts (make_server_tx srv) = []"
    by (simp_all add: make_server_tx_def)
  have state: "ct_state tx = CTX_NOT_STARTED" using assms(3) by (simp add: begun_def)
  from conv_begin [OF inv this empty networkD(1) [OF n] blank] obtain out tx1 env1 where
      r: "client_tx_tick ts [] scheduled (tx, env) = Inr (scheduled @ out, tx1, env1)" and
      alt: "tx1 = tx \<and> out = [] \<and> ce_gen env1 = ce_gen env \<and> \<not> due ts tx \<or>
        ct_txid tx1 = ?j \<and> ce_gen env1 = (created 1 (ce_gen env))\<lparr>g_tx_id := ?j\<rparr> \<and>
        length out = 1 \<and> table_of tx1 = make_requests_manager \<and> conv srv tx1 (make_server_tx srv) (mset out) \<and> sent_all tx1 \<and>
          0 < client_steps tx1"
    by blast
  note k = client_tick_keeps [OF inv empty r]
  have a1: "ct_actor_id tx1 = ct_actor_id tx" using k(2) by (simp add: same_tx_def)
  from alt show ?thesis
  proof
    assume "tx1 = tx \<and> out = [] \<and> ce_gen env1 = ce_gen env \<and> \<not> due ts tx"
    with r n k(2) due_mono [OF _ now] show ?thesis
      by (intro exI [of _ "[]"] exI [of _ tx] exI [of _ env1]) (auto simp: turn_def)
  next
    assume t: "ct_txid tx1 = ?j \<and> ce_gen env1 = (created 1 (ce_gen env))\<lparr>g_tx_id := ?j\<rparr> \<and>
        length out = 1 \<and> table_of tx1 = make_requests_manager \<and> conv srv tx1 (make_server_tx srv) (mset out) \<and> sent_all tx1 \<and>
        0 < client_steps tx1"
    have out: "\<forall>m \<in> set out. msg_source m = ct_actor_id tx \<and> payload_txid (msg_payload m) = ?j"
      using conv_sent [of srv tx1 _ "{#}" out] t k(4) a a1 by auto
    then have mine: "\<forall>m \<in># {#}. payload_txid (msg_payload m) = ?j" "\<forall>m \<in># mset out. payload_txid (msg_payload m) = ?j"
      by simp_all
    have b: "begun tx1" using conv_not_started t by (auto simp: begun_def)
    have "about ?j (New + mset out) = mset out" using about_sent [OF mine(2), of ?j New] none by simp
    then have "in_step srv mark stxs (Old - {#}) (New + mset out) tx1"
      using k(1) t a a1 none s mark by (simp add: in_step_def about_union advanced_def)
    then have "network srv mark (ce_gen env1) (Old - {#}) (New + mset out) (pre @ tx1 # post) stxs"
      using network_turn [OF n _ b _ mine, of "ce_gen env1"] assms(3) t by (simp add: fresh_ids_make)
    moreover have "client_steps tx = 0" using state by (simp add: client_steps_def)
    then have "turn now tx tx1" using k(2) t assms(3) by (simp add: turn_def)
    ultimately show ?thesis using r out t by (intro exI [of _ out] exI [of _ tx1] exI [of _ env1]) simp
  qed
qed

lemma after_taking: "A + B \<subseteq># F \<Longrightarrow> B \<subseteq># F - A" for A B F :: "'a multiset"
  by (metis add.commute mset_subset_eq_add_left subset_eq_diff_conv subset_mset.add_le_cancel_right subset_mset.diff_add subset_mset.order_trans)

text \<open>The messages of a client are grouped by transaction.\<close>

definition of_tx :: "int \<Rightarrow> message list \<Rightarrow> message list" where
  "of_tx i ms = filter (\<lambda>m. payload_txid (msg_payload m) = i) ms"

lemma client_route_all:
  "\<forall>m \<in> set ms. typed m \<Longrightarrow> \<exists>g1. foldE client_route_msg ms g = Inr g1 \<and>
    (\<forall>i. i \<noteq> UNDEFINED_TX_ID \<longrightarrow> group_of i g1 = group_of i g @ of_tx i ms)"
proof (induction ms arbitrary: g)
  case (Cons m ms)
  let ?i = "payload_txid (msg_payload m)"
  let ?g = "if ?i \<noteq> UNDEFINED_TX_ID then push_back_at ?i m g else g"
  have "client_route_msg m g = Inr ?g" using Cons.prems by (simp add: client_route_msg_def typed_txid)
  moreover from Cons obtain g1 where "foldE client_route_msg ms ?g = Inr g1"
      "\<forall>i. i \<noteq> UNDEFINED_TX_ID \<longrightarrow> group_of i g1 = group_of i ?g @ of_tx i ms"
    by fastforce
  ultimately show ?case by (intro exI [of _ g1]) (auto simp: of_tx_def group_of_push_back)
qed (simp add: of_tx_def)

lemma of_tx_partition: "mset ms = mset (of_tx i ms) + mset (filter (\<lambda>m. payload_txid (msg_payload m) \<noteq> i) ms)"
  by (simp add: of_tx_def)

text \<open>\<open>grouped txs groups ms\<close>: the messages \<open>ms\<close> are all for the transactions \<open>txs\<close> of actor \<open>a\<close>, grouped.\<close>

definition grouped :: "int \<Rightarrow> client_tx list \<Rightarrow> groups \<Rightarrow> message list \<Rightarrow> bool" where
  "grouped a txs groups ms \<longleftrightarrow> (\<forall>i. i \<noteq> UNDEFINED_TX_ID \<longrightarrow> group_of i groups = of_tx i ms) \<and>
     (\<forall>tx \<in> set txs. ct_actor_id tx = a) \<and>
     (\<forall>m \<in> set ms. msg_destination m = a \<and> (\<exists>tx \<in> set txs. begun tx \<and> ct_txid tx = payload_txid (msg_payload m)))"

lemma network_tick_client_tx:
  assumes n: "network srv mark (ce_gen env) Old New (pre @ tx # post) stxs" and empty: "schedule_msgs (ce_retrier env) = []"
    and ms: "mset ms \<subseteq># Old" and g: "grouped a (tx # txs) groups ms" and now: "now \<le> tm clock"
  shows "\<exists>tx1 clock1 groups1 env1 out taken rest. tick_client_tx tx (clock, groups, env, scheduled) =
      Inr (tx1, clock1, groups1, env1, scheduled @ out) \<and> mset ms = mset taken + mset rest \<and> grouped a txs groups1 rest \<and>
    network srv mark (ce_gen env1) (Old - mset taken) (New + mset out) (pre @ tx1 # post) stxs \<and>
    schedule_msgs (ce_retrier env1) = [] \<and> turn now tx tx1 \<and> (\<forall>m \<in> set out. msg_source m = a) \<and> now \<le> tm clock1"
proof -
  let ?i = "ct_txid tx"
  have inv: "ct_inv srv tx" using networkD(2) [OF n, of tx] by (simp add: in_step_def)
  have a: "ct_actor_id tx = a" using g by (simp add: grouped_def)
  have later: "now \<le> tm clock + 1" using now by simp
  show ?thesis
  proof (cases "begun tx")
    case True
    let ?rest = "filter (\<lambda>m. payload_txid (msg_payload m) \<noteq> ?i) ms"
    have id: "?i \<noteq> UNDEFINED_TX_ID" using True undefined_begun [OF inv] by simp
    have "mset (of_tx ?i ms) \<subseteq># mset ms" by (simp add: of_tx_def)
    then have sub: "mset (of_tx ?i ms) \<subseteq># Old" using ms by (rule subset_mset.order_trans)
    have mine: "\<forall>m \<in> set (of_tx ?i ms). payload_txid (msg_payload m) = ?i \<and> msg_destination m = ct_actor_id tx"
      using g a by (auto simp: of_tx_def grouped_def)
    obtain out tx1 env1 where r: "client_tx_tick (tm clock + 1) (of_tx ?i ms) scheduled (tx, env) = Inr (scheduled @ out, tx1, env1)"
        "network srv mark (ce_gen env1) (Old - mset (of_tx ?i ms)) (New + mset out) (pre @ tx1 # post) stxs"
        "\<forall>m \<in> set out. msg_source m = ct_actor_id tx" "turn now tx tx1"
      using network_begun_tx [OF n empty sub mine True later] by blast
    have "group_of ?i groups = of_tx ?i ms" using g id by (simp add: grouped_def)
    then have run: "tick_client_tx tx (clock, groups, env, scheduled) =
        Inr (tx1, clock\<lparr>tm := tm clock + 1\<rparr>, move_out ?i groups, env1, scheduled @ out)"
      using r(1) id by (simp add: tick_client_tx_def clock_next_def)
    have "group_of j (move_out ?i groups) = of_tx j ?rest" if "j \<noteq> UNDEFINED_TX_ID" for j
      using g that by (auto simp: grouped_def group_of_move_out of_tx_def intro: filter_cong)
    moreover have "\<exists>t \<in> set txs. begun t \<and> ct_txid t = payload_txid (msg_payload m)" if "m \<in> set ?rest" for m
      using g that by (auto simp: grouped_def)
    ultimately have "grouped a txs (move_out ?i groups) ?rest" using g by (simp add: grouped_def)
    with run r(2-4) later client_tick_keeps [OF inv empty r(1)] of_tx_partition [of ms ?i] a show ?thesis
      by (intro exI [of _ tx1] exI [of _ "clock\<lparr>tm := tm clock + 1\<rparr>"] exI [of _ "move_out ?i groups"] exI [of _ env1]
          exI [of _ out] exI [of _ "of_tx ?i ms"] exI [of _ ?rest]) simp
  next
    case False
    have id: "?i = UNDEFINED_TX_ID" using False undefined_begun [OF inv] by simp
    obtain out tx1 env1 where r: "client_tx_tick (tm clock + 1) [] scheduled (tx, env) = Inr (scheduled @ out, tx1, env1)"
        "network srv mark (ce_gen env1) Old (New + mset out) (pre @ tx1 # post) stxs"
        "\<forall>m \<in> set out. msg_source m = ct_actor_id tx" "turn now tx tx1"
      using network_fresh_tx [OF n empty False later] by blast
    then have run: "tick_client_tx tx (clock, groups, env, scheduled) =
        Inr (tx1, clock\<lparr>tm := tm clock + 1\<rparr>, groups, env1, scheduled @ out)"
      using id by (simp add: tick_client_tx_def clock_next_def)
    have "grouped a txs groups ms" using g False by (auto simp: grouped_def)
    with run r later client_tick_keeps [OF inv empty r(1)] a show ?thesis
      by (intro exI [of _ tx1] exI [of _ "clock\<lparr>tm := tm clock + 1\<rparr>"] exI [of _ groups] exI [of _ env1]
          exI [of _ out] exI [of _ "[]"] exI [of _ ms]) simp
  qed
qed

lemma network_tick_client_txs:
  assumes "network srv mark (ce_gen env) Old New (pre @ txs @ post) stxs" and "schedule_msgs (ce_retrier env) = []"
    and "mset ms \<subseteq># Old" and "grouped a txs groups ms" and "now \<le> tm clock"
  shows "\<exists>txs1 clock1 groups1 env1 out. traverseE tick_client_tx txs (clock, groups, env, scheduled) =
      Inr (txs1, clock1, groups1, env1, scheduled @ out) \<and>
    network srv mark (ce_gen env1) (Old - mset ms) (New + mset out) (pre @ txs1 @ post) stxs \<and>
    schedule_msgs (ce_retrier env1) = [] \<and> list_all2 (turn now) txs txs1 \<and> (\<forall>m \<in> set out. msg_source m = a)"
  using assms
proof (induction txs arbitrary: pre clock groups env scheduled Old New ms)
  case Nil
  then have "ms = []" by (auto simp: grouped_def)
  with Nil show ?case by simp
next
  case (Cons tx txs)
  have "network srv mark (ce_gen env) Old New (pre @ tx # txs @ post) stxs" using Cons.prems(1) by simp
  from network_tick_client_tx [OF this Cons.prems(2-5)] obtain tx1 clock1 groups1 env1 out taken rest where
      a: "tick_client_tx tx (clock, groups, env, scheduled) = Inr (tx1, clock1, groups1, env1, scheduled @ out)"
        "mset ms = mset taken + mset rest" "grouped a txs groups1 rest"
        "network srv mark (ce_gen env1) (Old - mset taken) (New + mset out) ((pre @ [tx1]) @ txs @ post) stxs"
        "schedule_msgs (ce_retrier env1) = []" "turn now tx tx1" "\<forall>m \<in> set out. msg_source m = a" "now \<le> tm clock1"
    by fastforce
  have sub: "mset rest \<subseteq># Old - mset taken" using Cons.prems(3) unfolding a(2) by (rule after_taking)
  from Cons.IH [OF a(4,5) sub a(3,8)] obtain txs1 clock2 groups2 env2 out2 where
      b: "traverseE tick_client_tx txs (clock1, groups1, env1, scheduled @ out) = Inr (txs1, clock2, groups2, env2, (scheduled @ out) @ out2)"
        "network srv mark (ce_gen env2) (Old - mset taken - mset rest) (New + mset out + mset out2) ((pre @ [tx1]) @ txs1 @ post) stxs"
        "schedule_msgs (ce_retrier env2) = []" "list_all2 (turn now) txs txs1" "\<forall>m \<in> set out2. msg_source m = a"
    by blast
  have "Old - mset taken - mset rest = Old - mset ms" "New + mset out + mset out2 = New + mset (out @ out2)"
    using a(2) by simp_all
  with a b show ?case
    by (intro exI [of _ "tx1 # txs1"] exI [of _ clock2] exI [of _ groups2] exI [of _ env2] exI [of _ "out @ out2"]) auto
qed

text \<open>The client's part of the network: its actor, its transactions and nobody else's.\<close>

definition client_in :: "int \<Rightarrow> client \<Rightarrow> client_tx list \<Rightarrow> bool" where
  "client_in srv c others \<longleftrightarrow> pr_source_actor_id (cl_proxy c) = cl_actor_id c \<and> cl_actor_id c \<noteq> srv \<and>
     schedule_msgs (cl_retrier c) = [] \<and> (\<forall>tx \<in> set (cl_transactions c). ct_actor_id tx = cl_actor_id c) \<and>
     (\<forall>tx \<in> set others. ct_actor_id tx \<noteq> cl_actor_id c)"

lemma proxy_send_own: "msg_source m = pr_source_actor_id p \<Longrightarrow> proxy_send p m = m"
  by (cases m) (simp add: proxy_send_def)

lemma same_txs_actor:
  assumes "list_all2 (turn now) txs txs1" and "\<forall>tx \<in> set txs. ct_actor_id tx = a"
  shows "\<forall>tx \<in> set txs1. ct_actor_id tx = a"
proof
  fix t assume "t \<in> set txs1"
  then obtain k where k: "k < length txs1" "t = txs1 ! k" by (auto simp: in_set_conv_nth)
  then have "same_tx (txs ! k) t" using list_all2_nthD2 [OF assms(1)] by (simp add: turn_def)
  moreover have "txs ! k \<in> set txs" using k(1) list_all2_lengthD [OF assms(1)] by simp
  ultimately show "ct_actor_id t = a" using assms(2) by (simp add: same_tx_def)
qed

lemma network_client:
  assumes n: "network srv mark g Old New (pre @ cl_transactions c @ post) stxs" and c: "client_in srv c (pre @ post)"
    and ms: "mset ms \<subseteq># Old" "\<forall>m \<in> set ms. msg_destination m = cl_actor_id c" and now: "now \<le> tm clock"
  shows "\<exists>clock1 out c1 g1. client_on_tick clock ms (c, g) = Inr (clock1, out, c1, g1) \<and>
    network srv mark g1 (Old - mset ms) (New + mset out) (pre @ cl_transactions c1 @ post) stxs \<and>
    client_in srv c1 (pre @ post) \<and> cl_actor_id c1 = cl_actor_id c \<and> list_all2 (turn now) (cl_transactions c) (cl_transactions c1)"
proof -
  let ?env = "\<lparr>ce_retrier = cl_retrier c, ce_gen = g\<rparr>"
  have owner: "typed m \<and> (\<exists>tx \<in> set (cl_transactions c). begun tx \<and> ct_txid tx = payload_txid (msg_payload m))" if "m \<in> set ms" for m
  proof -
    have "m \<in># Old + New" using ms(1) that by (auto dest: mset_subset_eqD)
    from network_message [OF n this] obtain tx where tx: "tx \<in> set (pre @ cl_transactions c @ post)" "begun tx"
        "ct_txid tx = payload_txid (msg_payload m)" "typed m" "msg_destination m = srv \<or> msg_destination m = ct_actor_id tx"
      unfolding travels_def by metis
    moreover have "ct_actor_id tx = cl_actor_id c" using tx(5) ms(2) that c by (auto simp: client_in_def)
    ultimately show ?thesis using c by (auto simp: client_in_def)
  qed
  obtain groups where groups: "foldE client_route_msg ms [] = Inr groups" "\<forall>i. i \<noteq> UNDEFINED_TX_ID \<longrightarrow> group_of i groups = of_tx i ms"
    using client_route_all [of ms "[]"] owner by (auto simp: group_of_def)
  have "grouped (cl_actor_id c) (cl_transactions c) groups ms"
    using groups(2) owner ms(2) c by (simp add: grouped_def client_in_def)
  from network_tick_client_txs [of srv mark ?env Old New pre "cl_transactions c" post stxs ms, OF _ _ ms(1) this now, of "[]"] n c
  obtain txs1 clock1 groups1 env1 out where r: "traverseE tick_client_tx (cl_transactions c) (clock, groups, ?env, []) =
        Inr (txs1, clock1, groups1, env1, out)"
      "network srv mark (ce_gen env1) (Old - mset ms) (New + mset out) (pre @ txs1 @ post) stxs"
      "schedule_msgs (ce_retrier env1) = []" "list_all2 (turn now) (cl_transactions c) txs1" "\<forall>m \<in> set out. msg_source m = cl_actor_id c"
    by (auto simp: client_in_def)
  let ?c = "c\<lparr>cl_retrier := ce_retrier env1, cl_transactions := txs1\<rparr>"
  have same: "map (proxy_send (cl_proxy c)) out = out"
    using r(5) c by (intro map_idI) (simp add: proxy_send_own client_in_def)
  have "client_on_tick clock ms (c, g) = Inr (clock1, out, ?c, ce_gen env1)"
    using groups(1) r(1) same by (simp add: client_on_tick_def)
  moreover have "\<forall>tx \<in> set txs1. ct_actor_id tx = cl_actor_id c"
    using c by (intro same_txs_actor [OF r(4)]) (simp add: client_in_def)
  then have "client_in srv ?c (pre @ post)" using r(3) c by (simp add: client_in_def)
  ultimately show ?thesis using r(2,4)
    by (intro exI [of _ clock1] exI [of _ out] exI [of _ ?c] exI [of _ "ce_gen env1"]) simp
qed

section \<open>A tick of the server\<close>

lemma server_side_create: "get_or_create_tx i s = (tx, s1) \<Longrightarrow> tx = server_side (sv_actor_id s) (sv_transactions s) i \<and>
    sv_transactions s1 = (sv_transactions s)(i \<mapsto> tx) \<and> sv_retrier s1 = sv_retrier s \<and> sv_storage s1 = sv_storage s"
  by (cases "sv_transactions s i") (auto simp: get_or_create_tx_def server_side_def Let_def fun_upd_idem)

text \<open>The server takes its turn in one conversation.\<close>

lemma network_reply:
  assumes n: "network srv mark g Old New txs stxs" and tx: "tx \<in> set txs" "begun tx" "ct_txid tx = i"
    and c: "conv srv tx s1 (about i (Old - A + (New + B)))" "advanced (mk_conv mark i) tx s1 (about i (Old - A)) (about i (New + B))"
    and AB: "\<forall>m \<in># A. payload_txid (msg_payload m) = i" "\<forall>m \<in># B. payload_txid (msg_payload m) = i"
  shows "network srv mark (created (size B) g) (Old - A) (New + B) txs (stxs(i \<mapsto> s1))"
proof -
  have "distinct (map ct_txid (filter begun txs))" using n by (simp add: network_def)
  then have only: "t = tx" if "t \<in> set txs" "begun t" "ct_txid t = i" for t
    using that tx by (auto simp: distinct_map inj_on_def)
  have each: "in_step srv mark (stxs(i \<mapsto> s1)) (Old - A) (New + B) t" if t: "t \<in> set txs" for t
  proof (cases "begun t \<and> ct_txid t = i")
    case True
    with only t have "t = tx" by simp
    then show ?thesis using networkD(2) [OF n tx(1)] c tx(2,3) by (simp add: in_step_def server_side_def)
  next
    case False
    then show ?thesis
      using networkD(2) [OF n t] about_taken [OF AB(1), of "ct_txid t" Old] about_sent [OF AB(2), of "ct_txid t" New]
      by (auto simp: in_step_def server_side_def about_union)
  qed
  have owner: "\<exists>t \<in> set txs. begun t \<and> ct_txid t = payload_txid (msg_payload m)" if m: "m \<in># Old - A + (New + B)" for m
  proof (cases "m \<in># B")
    case True
    then show ?thesis using AB(2) tx by auto
  next
    case False
    then show ?thesis using m by (intro networkD(5) [OF n]) (auto dest: in_diffD)
  qed
  have "i \<le> g_tx_id g" using networkD(3) [OF n tx(1,2)] tx(3) by simp
  then have "\<forall>j. (stxs(i \<mapsto> s1)) j \<noteq> None \<longrightarrow> j \<le> g_tx_id g" using networkD(6) [OF n] by simp
  moreover have "fresh_ids (mk_first mark) (mk_count mark + size (New + B)) (table_of t)" if "t \<in> set txs" "begun t" for t
    by (rule fresh_ids_mono [OF networkD(9) [OF n that]]) simp
  moreover have "g_msg_id (created (size B) g) = mk_first mark + of_nat (mk_count mark + size (New + B))"
    using networkD(8) [OF n] by (simp add: add.assoc)
  ultimately show ?thesis using n each owner unfolding network_def created_simps(3) by blast
qed

definition server_in :: "int \<Rightarrow> int \<Rightarrow> server \<Rightarrow> bool" where
  "server_in srv now s \<longleftrightarrow> sv_actor_id s = srv \<and> pr_source_actor_id (sv_proxy s) = srv \<and> server_inv now s"

text \<open>The messages of a group: of one transaction and for the server.\<close>

definition requests_of :: "int \<Rightarrow> int \<times> message list \<Rightarrow> bool" where
  "requests_of srv p \<longleftrightarrow> snd p \<noteq> [] \<and> (\<forall>m \<in> set (snd p). typed m \<and> payload_txid (msg_payload m) = fst p \<and> msg_destination m = srv)"

text \<open>The server works through the messages of one transaction.\<close>

lemma network_process_msgs:
  assumes n: "network srv mark (env_gen env) Old New txs stxs" and ms: "mset ms \<subseteq># Old" and p: "requests_of srv (i, ms)"
    and ok: "txs_ok (\<lambda>j. if j = i then now + 1 else now) (env_storage env) (stxs(i \<mapsto> server_side srv stxs i))" and now: "0 \<le> now"
  shows "\<exists>s1 env1 out. foldE (process_msg (now + 1)) ms (server_side srv stxs i, env) = Inr (s1, env1) \<and>
    schedule_msgs (env_retrier env1) = schedule_msgs (env_retrier env) @ out \<and>
    (\<forall>r \<in> set out. msg_source r = srv) \<and> network srv mark (env_gen env1) (Old - mset ms) (New + mset out) txs (stxs(i \<mapsto> s1))"
proof -
  let ?s0 = "server_side srv stxs i"
  have ms_i: "\<forall>m \<in> set ms. typed m \<and> payload_txid (msg_payload m) = i" "\<forall>m \<in> set ms. msg_destination m = srv" "ms \<noteq> []"
    using p by (auto simp: requests_of_def)
  then obtain m where "m \<in> set ms" by (cases ms) auto
  then have "m \<in># Old + New" "payload_txid (msg_payload m) = i" using ms ms_i(1) by (auto dest: mset_subset_eqD)
  then obtain tx where tx: "tx \<in> set txs" "begun tx" "ct_txid tx = i" using networkD(5) [OF n] by blast
  have a: "ct_actor_id tx \<noteq> srv" using networkD(2) [OF n tx(1)] by (simp add: in_step_def)
  have c: "conv srv tx ?s0 (about i (Old + New))" "advanced (mk_conv mark i) tx ?s0 (about i Old) (about i New)"
    using networkD(2) [OF n tx(1)] tx(2,3) by (simp_all add: in_step_def)
  have "about i (mset ms) = mset ms" using ms_i(1) by (intro about_all) simp
  then have old: "mset ms \<subseteq># about i Old" using multiset_filter_mono [OF ms] by (metis about_def)
  then have sub: "mset ms \<subseteq># about i (Old + New)" by (simp add: about_union subset_mset.add_increasing2)
  from conv_process_msgs [OF c(1) sub ms_i(2) a ok _ tx(3), of "now + 1"] now obtain s1 env1 out where
      r: "foldE (process_msg (now + 1)) ms (?s0, env) = Inr (s1, env1)"
        "schedule_msgs (env_retrier env1) = schedule_msgs (env_retrier env) @ out" "env_gen env1 = created (length ms) (env_gen env)"
        "\<forall>r \<in> set out. msg_source r = srv" "conv srv tx s1 (about i (Old + New) - mset ms + mset out)"
        "length out = length ms" "server_steps s1 = server_steps ?s0 + length ms"
    by auto
  have "\<forall>m \<in> set out. payload_txid (msg_payload m) = i"
  proof
    fix m assume "m \<in> set out"
    then have "travels srv tx m" by (intro conv_messages [OF r(5)]) simp
    then show "payload_txid (msg_payload m) = i" using tx(3) by (simp add: travels_def)
  qed
  then have AB: "\<forall>m \<in># mset ms. payload_txid (msg_payload m) = i" "\<forall>m \<in># mset out. payload_txid (msg_payload m) = i"
    using ms_i(1) by simp_all
  have ab: "about i (Old - mset ms) = about i Old - mset ms" "about i (New + mset out) = about i New + mset out"
    using about_taken [OF AB(1), of i Old] about_sent [OF AB(2), of i New] by simp_all
  have "conv srv tx s1 (about i (Old - mset ms + (New + mset out)))"
    using r(5) mset_flow [OF old, of "about i New" "mset out"] ab unfolding about_union by metis
  moreover have "advanced (mk_conv mark i) tx s1 (about i (Old - mset ms)) (about i (New + mset out))"
    using advanced_server [OF c(2) r(7,6)] unfolding ab .
  ultimately show ?thesis using network_reply [OF n tx _ _ AB] r(1-4,6) by simp
qed

lemma network_tick_tx:
  assumes n: "network srv mark g Old New txs (sv_transactions s)" and s: "server_in srv (tm clock) s"
    and ms: "mset ms \<subseteq># Old" and p: "requests_of srv (i, ms)"
  shows "\<exists>clock1 s1 g1 out. tick_tx (i, ms) (clock, s, g, scheduled) = Inr (clock1, s1, g1, scheduled @ out) \<and>
    network srv mark g1 (Old - mset ms) (New + mset out) txs (sv_transactions s1) \<and> server_in srv (tm clock1) s1 \<and>
    (\<forall>m \<in> set out. msg_source m = srv)"
proof -
  obtain s0 sa where get: "get_or_create_tx i s = (s0, sa)" by (cases "get_or_create_tx i s")
  have inv: "server_inv (tm clock) s" "sv_actor_id s = srv" using s by (simp_all add: server_in_def)
  note one = get_or_create_tx_ok [OF inv(1) get]
  have sa: "s0 = server_side srv (sv_transactions s) i" "sv_transactions sa = (sv_transactions s)(i \<mapsto> s0)"
    using server_side_create [OF get] inv(2) by simp_all
  let ?env = "\<lparr>env_storage = sv_storage sa, env_retrier = sv_retrier sa, env_gen = g\<rparr>"
  have "txs_ok (\<lambda>j. if j = i then tm clock + 1 else tm clock) (env_storage ?env) ((sv_transactions s)(i \<mapsto> s0))"
    using one(1) by (auto simp: server_inv_def sa(2) intro: txs_ok_mono)
  moreover have "0 \<le> tm clock" using inv(1) by (simp add: server_inv_def)
  ultimately obtain s1 env1 out where
      r: "foldE (process_msg (tm clock + 1)) ms (s0, ?env) = Inr (s1, env1)"
        "schedule_msgs (env_retrier env1) = schedule_msgs (sv_retrier sa) @ out"
        "\<forall>r \<in> set out. msg_source r = srv"
        "network srv mark (env_gen env1) (Old - mset ms) (New + mset out) txs ((sv_transactions s)(i \<mapsto> s1))"
    using network_process_msgs [OF _ ms p, of mark ?env New txs "sv_transactions s" "tm clock"] n unfolding sa(1) by auto
  have empty: "schedule_msgs (sv_retrier sa) = []" using one(1) by (simp add: server_inv_def)
  let ?s = "sa\<lparr>sv_storage := env_storage env1, sv_retrier := (env_retrier env1)\<lparr>schedule_msgs := []\<rparr>,
      sv_transactions := (sv_transactions sa)(i \<mapsto> s1)\<rparr>"
  let ?clock = "clock\<lparr>tm := tm clock + 1\<rparr>"
  have run: "tick_tx (i, ms) (clock, s, g, scheduled) = Inr (?clock, ?s, env_gen env1, scheduled @ out)"
    using get r(1,2) empty by (simp add: tick_tx_def clock_next_def server_tx_tick_def get_scheduled_msgs_def)
  have "\<forall>m \<in> set ms. typed m \<and> payload_txid (msg_payload m) = i" using p by (auto simp: requests_of_def)
  then have "server_inv (tm ?clock) ?s" using tick_tx_ok [OF inv(1) _ run] by blast
  then have "server_in srv (tm ?clock) ?s" using tick_tx_keeps [OF run] s by (simp add: server_in_def)
  then show ?thesis using run r(3,4)
    by (intro exI [of _ ?clock] exI [of _ ?s] exI [of _ "env_gen env1"] exI [of _ out]) (simp add: sa(2))
qed

lemma network_tick_txs:
  assumes "network srv mark g Old New txs (sv_transactions s)" and "server_in srv (tm clock) s"
    and "mset (concat (map snd ps)) \<subseteq># Old" and "\<forall>p \<in> set ps. requests_of srv p"
  shows "\<exists>clock1 s1 g1 out. foldE tick_tx ps (clock, s, g, scheduled) = Inr (clock1, s1, g1, scheduled @ out) \<and>
    network srv mark g1 (Old - mset (concat (map snd ps))) (New + mset out) txs (sv_transactions s1) \<and>
    server_in srv (tm clock1) s1 \<and> (\<forall>m \<in> set out. msg_source m = srv)"
  using assms
proof (induction ps arbitrary: clock s g scheduled Old New)
  case (Cons p ps)
  obtain i ms where p: "p = (i, ms)" by (cases p)
  let ?rest = "mset (concat (map snd ps))"
  have all: "mset ms + ?rest \<subseteq># Old" using Cons.prems(3) p by simp
  then have "mset ms \<subseteq># Old" by (metis mset_subset_eq_add_left subset_mset.order_trans)
  moreover have "requests_of srv (i, ms)" using Cons.prems(4) p by simp
  ultimately obtain clock1 s1 g1 out where a: "tick_tx (i, ms) (clock, s, g, scheduled) = Inr (clock1, s1, g1, scheduled @ out)"
      "network srv mark g1 (Old - mset ms) (New + mset out) txs (sv_transactions s1)" "server_in srv (tm clock1) s1"
      "\<forall>m \<in> set out. msg_source m = srv"
    using network_tick_tx [OF Cons.prems(1,2)] by blast
  have sub: "?rest \<subseteq># Old - mset ms" by (rule after_taking [OF all])
  have "\<forall>p \<in> set ps. requests_of srv p" using Cons.prems(4) by simp
  from Cons.IH [OF a(2,3) sub this] obtain clock2 s2 g2 out2 where
      b: "foldE tick_tx ps (clock1, s1, g1, scheduled @ out) = Inr (clock2, s2, g2, (scheduled @ out) @ out2)"
        "network srv mark g2 (Old - mset ms - ?rest) (New + mset out + mset out2) txs (sv_transactions s2)"
        "server_in srv (tm clock2) s2" "\<forall>m \<in> set out2. msg_source m = srv"
    by blast
  have flow: "Old - mset ms - ?rest = Old - mset (concat (map snd (p # ps)))" "New + mset out + mset out2 = New + mset (out @ out2)"
    using p by simp_all
  have "foldE tick_tx (p # ps) (clock, s, g, scheduled) = Inr (clock2, s2, g2, scheduled @ out @ out2)"
    using a(1) b(1) p by simp
  moreover have "\<forall>m \<in> set (out @ out2). msg_source m = srv" using a(4) b(4) by (simp add: ball_Un)
  ultimately show ?case using b(2,3) unfolding flow by blast
qed simp

lemma route_all:
  "\<forall>m \<in> set ms. typed m \<and> payload_txid (msg_payload m) \<noteq> UNDEFINED_TX_ID \<Longrightarrow> \<exists>g1. foldE route_msg ms g = Inr g1"
  by (induction ms arbitrary: g) (simp_all add: route_msg_def typed_txid)

lemma mset_concat_perm: "mset xs = mset ys \<Longrightarrow> mset (concat (map f xs)) = mset (concat (map f ys))"
  by (simp add: mset_concat flip: sum_mset_sum_list)

lemma groups_requests:
  assumes "groups_ok ms gs" and "\<forall>m \<in> set ms. msg_destination m = srv" and "p \<in> set gs"
  shows "requests_of srv p"
proof -
  obtain i b where p: "p = (i, b)" by (cases p)
  have "b \<noteq> []" "\<forall>m \<in> set b. typed m \<and> payload_txid (msg_payload m) = i"
    using assms(1,3) unfolding groups_ok_def p by blast+
  moreover have "set (concat (map snd gs)) = set ms" using assms(1) by (intro mset_eq_setD) (simp add: groups_ok_def)
  then have "set b \<subseteq> set ms" using assms(3) p by fastforce
  ultimately show ?thesis using assms(2) p by (auto simp: requests_of_def)
qed

lemma network_server:
  assumes order: "\<forall>gs. mset (order gs) = mset gs" and n: "network srv mark g Old New txs (sv_transactions s)"
    and s: "server_in srv (tm clock) s" and ms: "mset ms \<subseteq># Old" "\<forall>m \<in> set ms. msg_destination m = srv"
  shows "\<exists>clock1 out s1 g1. server_on_tick order clock ms (s, g) = Inr (clock1, out, s1, g1) \<and>
    network srv mark g1 (Old - mset ms) (New + mset out) txs (sv_transactions s1) \<and> server_in srv (tm clock1) s1"
proof -
  have "typed m \<and> payload_txid (msg_payload m) \<noteq> UNDEFINED_TX_ID" if "m \<in> set ms" for m
    using network_message [OF n, of m] mset_subset_eqD [OF ms(1), of m] that by (auto simp: travels_def)
  then obtain gs where gs: "foldE route_msg ms [] = Inr gs" using route_all by blast
  have ok: "groups_ok ms gs" using route_msgs_ok [OF groups_ok_nil gs] by simp
  have flat: "mset (concat (map snd (order gs))) = mset ms"
    using ok mset_concat_perm [of "order gs" gs snd] order by (simp add: groups_ok_def)
  have "requests_of srv p" if "p \<in> set (order gs)" for p
    using that order mset_eq_setD by (intro groups_requests [OF ok ms(2)]) blast
  with network_tick_txs [OF n s, of "order gs" "[]"] ms(1) flat obtain clock1 s1 g1 out where
      r: "foldE tick_tx (order gs) (clock, s, g, []) = Inr (clock1, s1, g1, out)"
        "network srv mark g1 (Old - mset ms) (New + mset out) txs (sv_transactions s1)" "server_in srv (tm clock1) s1"
        "\<forall>m \<in> set out. msg_source m = srv"
    by auto
  have "map (proxy_send (sv_proxy s1)) out = out"
    using r(3,4) by (intro map_idI) (simp add: proxy_send_own server_in_def)
  with gs r show ?thesis by (simp add: server_on_tick_def)
qed

end
