(* ===== verification/Runtime.thy ===== *)
theory Runtime
  imports Services
begin

text \<open>
  \<open>src/tx/runtime/runtime.{h,cpp}\<close> and \<open>src/tx/actor.h\<close>: the runtime owns the clock and a priority
  queue of messages. A tick of the runtime moves the messages that are due to the mail of their
  destinations and ticks every actor with its mail; what the actors send enters the queue, due at
  once. The class of the actors is a type parameter: an actor is a value with an identifier and a
  handler, which gives the clock it leaves, the messages it sent and its next state. Every actor
  sends after its last call of \<open>clock.next()\<close>, so its messages are due at the clock it leaves.

  \<open>std::priority_queue\<close> says which of the messages with the same timestamps comes first; that
  choice is the parameter \<open>front\<close>, of which the theorems assume that it picks a message no other
  one precedes (\<open>queue_top\<close>).

  What the runtime needs of its actors is the locale \<open>actor_contract\<close>.
\<close>

section \<open>The class Runtime\<close>

record 'a runtime =
  rt_timestamp :: int
  rt_clock :: clock
  rt_actors :: "'a list"
  rt_dest :: "int \<Rightarrow> message list option"
  rt_queue :: "sent_message list"

definition runtime_init :: "'a runtime" where
  "runtime_init = \<lparr>rt_timestamp = 0, rt_clock = clock_init, rt_actors = [], rt_dest = Map.empty, rt_queue = []\<rparr>"

type_synonym 'a handler =
  "clock \<Rightarrow> message list \<Rightarrow> 'a \<times> generator \<Rightarrow> (clock \<times> message list \<times> 'a \<times> generator) result"

definition register_actor :: "('a \<Rightarrow> int) \<Rightarrow> 'a \<Rightarrow> 'a runtime \<Rightarrow> 'a runtime result" where
  "register_actor actor_id a rt =
     (if rt_dest rt (actor_id a) \<noteq> None then Inl (InvalidArgument ''failed register new actor'')
      else Inr (rt\<lparr>rt_dest := (rt_dest rt)(actor_id a \<mapsto> []), rt_actors := rt_actors rt @ [a]\<rparr>))"

definition runtime_send :: "message \<Rightarrow> 'a runtime \<Rightarrow> 'a runtime" where
  "runtime_send m rt = rt\<lparr>rt_queue := rt_queue rt @
     [\<lparr>send_timestamp = rt_timestamp rt, delivery_timestamp = clock_current (rt_clock rt), sent_msg = m\<rparr>]\<rparr>"

definition clear_destination_actor_messages :: "'a runtime \<Rightarrow> 'a runtime" where
  "clear_destination_actor_messages rt = rt\<lparr>rt_dest := \<lambda>i. map_option (\<lambda>_. []) (rt_dest rt i)\<rparr>"

text \<open>The loop takes a message out of the queue each time round; it is given as many rounds as there
  are messages.\<close>

primrec fill_destination_actor_messages ::
    "(sent_message list \<Rightarrow> sent_message) \<Rightarrow> nat \<Rightarrow> 'a runtime \<Rightarrow> 'a runtime result" where
  "fill_destination_actor_messages front 0 rt = Inr rt"
| "fill_destination_actor_messages front (Suc n) rt =
     (if rt_queue rt \<noteq> [] \<and> delivery_timestamp (front (rt_queue rt)) \<le> rt_timestamp rt
      then (let m = sent_msg (front (rt_queue rt)); rest = remove1 (front (rt_queue rt)) (rt_queue rt) in
            case rt_dest rt (msg_destination m) of
              None \<Rightarrow> Inl (RuntimeError ''no destination'')
            | Some ms \<Rightarrow> fill_destination_actor_messages front n
                (rt\<lparr>rt_queue := rest, rt_dest := (rt_dest rt)(msg_destination m \<mapsto> ms @ [m])\<rparr>))
      else Inr rt)"

text \<open>The body of the loop of \<open>send_to_actors\<close>.\<close>

definition tick_actor :: "('a \<Rightarrow> int) \<Rightarrow> 'a handler \<Rightarrow> 'a \<Rightarrow> 'a runtime \<times> generator \<Rightarrow>
    ('a \<times> 'a runtime \<times> generator) result" where
  "tick_actor actor_id on_tick a = (\<lambda>(rt, g).
     let destination = actor_id a;
         msgs = (case rt_dest rt destination of None \<Rightarrow> [] | Some ms \<Rightarrow> ms);
         rt1 = rt\<lparr>rt_dest := (rt_dest rt)(destination \<mapsto> [])\<rparr> in
     bindE (on_tick (rt_clock rt1) msgs (a, g)) (\<lambda>(clock1, out, a1, g1).
       Inr (a1, fold runtime_send out (rt1\<lparr>rt_clock := clock1\<rparr>), g1)))"

definition send_to_actors :: "('a \<Rightarrow> int) \<Rightarrow> 'a handler \<Rightarrow> 'a runtime \<times> generator \<Rightarrow>
    ('a runtime \<times> generator) result" where
  "send_to_actors actor_id on_tick s =
     bindE (traverseE (tick_actor actor_id on_tick) (rt_actors (fst s)) s) (\<lambda>(actors, rt, g).
       Inr (rt\<lparr>rt_actors := actors\<rparr>, g))"

text \<open>The body of the loop of \<open>run\<close>.\<close>

definition runtime_tick :: "('a \<Rightarrow> int) \<Rightarrow> 'a handler \<Rightarrow> (sent_message list \<Rightarrow> sent_message) \<Rightarrow>
    'a runtime \<times> generator \<Rightarrow> ('a runtime \<times> generator) result" where
  "runtime_tick actor_id on_tick front s =
     (let rt1 = clear_destination_actor_messages (fst s);
          rt2 = rt1\<lparr>rt_timestamp := clock_current (rt_clock rt1)\<rparr> in
      bindE (fill_destination_actor_messages front (length (rt_queue rt2)) rt2) (\<lambda>rt3.
      bindE (send_to_actors actor_id on_tick (rt3, snd s)) (\<lambda>(rt4, g).
        Inr (if clock_current (rt_clock rt4) = rt_timestamp rt4
             then (let (ts, c) = clock_next (rt_clock rt4) in rt4\<lparr>rt_timestamp := ts, rt_clock := c\<rparr>)
             else rt4, g))))"

primrec runtime_ticks :: "('a \<Rightarrow> int) \<Rightarrow> 'a handler \<Rightarrow> (sent_message list \<Rightarrow> sent_message) \<Rightarrow> nat \<Rightarrow>
    'a runtime \<times> generator \<Rightarrow> ('a runtime \<times> generator) result" where
  "runtime_ticks actor_id on_tick front 0 s = Inr s"
| "runtime_ticks actor_id on_tick front (Suc n) s =
     bindE (runtime_tick actor_id on_tick front s) (runtime_ticks actor_id on_tick front n)"

definition runtime_run :: "('a \<Rightarrow> int) \<Rightarrow> 'a handler \<Rightarrow> (sent_message list \<Rightarrow> sent_message) \<Rightarrow> int \<Rightarrow>
    'a runtime \<times> generator \<Rightarrow> ('a runtime \<times> generator) result" where
  "runtime_run actor_id on_tick front ticks s = runtime_ticks actor_id on_tick front (nat ticks) s"

section \<open>The queue\<close>

definition queue_top :: "(sent_message list \<Rightarrow> sent_message) \<Rightarrow> bool" where
  "queue_top front \<longleftrightarrow> (\<forall>q. q \<noteq> [] \<longrightarrow> front q \<in> set q \<and> (\<forall>x \<in> set q. \<not> delivered_last (front q) x))"

text \<open>One such choice: the first of the earliest messages.\<close>

fun first_due :: "sent_message list \<Rightarrow> sent_message" where
  "first_due [] = undefined"
| "first_due [m] = m"
| "first_due (m # n # q) = (let t = first_due (n # q) in if delivered_last m t then t else m)"

lemma delivered_last_trans: "\<not> delivered_last a b \<Longrightarrow> \<not> delivered_last b c \<Longrightarrow> \<not> delivered_last a c"
  by (auto simp: delivered_last_def)

lemma delivered_last_asym: "delivered_last a b \<Longrightarrow> \<not> delivered_last b a"
  by (auto simp: delivered_last_def)

lemma first_due_top: "queue_top first_due"
proof -
  have "first_due q \<in> set q \<and> (\<forall>x \<in> set q. \<not> delivered_last (first_due q) x)" if "q \<noteq> []" for q
    using that
  proof (induction q rule: first_due.induct)
    case (2 m)
    then show ?case by (simp add: delivered_last_def)
  next
    case (3 m n q)
    let ?t = "first_due (n # q)"
    have t: "?t \<in> set (n # q)" "\<forall>x \<in> set (n # q). \<not> delivered_last ?t x" using 3 by auto
    show ?case
    proof (cases "delivered_last m ?t")
      case True
      with t delivered_last_asym show ?thesis by (auto simp: Let_def)
    next
      case False
      then have "\<not> delivered_last m x" if "x \<in> set (n # q)" for x
        using that t(2) delivered_last_trans by blast
      moreover have "\<not> delivered_last m m" by (simp add: delivered_last_def)
      ultimately show ?thesis using False by (auto simp: Let_def)
    qed
  qed simp
  then show ?thesis by (simp add: queue_top_def)
qed

text \<open>The messages that are taken out of the queue, in order.\<close>

definition in_order :: "sent_message list \<Rightarrow> bool" where
  "in_order sms \<longleftrightarrow> sorted_wrt (\<lambda>a b. \<not> delivered_last a b) sms"

definition mail_of :: "int \<Rightarrow> sent_message list \<Rightarrow> message list" where
  "mail_of i sms = map sent_msg (filter (\<lambda>sm. msg_destination (sent_msg sm) = i) sms)"

lemma fill_ok:
  assumes "queue_top front" and "\<forall>sm \<in> set (rt_queue rt). delivery_timestamp sm \<le> rt_timestamp rt"
    and "length (rt_queue rt) \<le> n" and "fill_destination_actor_messages front n rt = Inr rt1"
  shows "\<exists>sms dest. mset sms = mset (rt_queue rt) \<and> in_order sms \<and> rt1 = rt\<lparr>rt_queue := [], rt_dest := dest\<rparr> \<and>
    (\<forall>i. dest i = map_option (\<lambda>ms. ms @ mail_of i sms) (rt_dest rt i))"
  using assms(2-4)
proof (induction n arbitrary: rt)
  case 0
  then have "rt1 = rt\<lparr>rt_queue := [], rt_dest := rt_dest rt\<rparr>" by simp
  moreover have "(\<forall>i. rt_dest rt i = map_option (\<lambda>ms. ms @ mail_of i []) (rt_dest rt i))"
    by (simp add: mail_of_def option.map_ident)
  ultimately show ?case using 0 by (intro exI [of _ "[]"] exI [of _ "rt_dest rt"]) (simp add: in_order_def)
next
  case (Suc n)
  show ?case
  proof (cases "rt_queue rt = []")
    case True
    then have "rt1 = rt\<lparr>rt_queue := [], rt_dest := rt_dest rt\<rparr>" using Suc.prems(3) by simp
    moreover have "(\<forall>i. rt_dest rt i = map_option (\<lambda>ms. ms @ mail_of i []) (rt_dest rt i))"
      by (simp add: mail_of_def option.map_ident)
    ultimately show ?thesis using True by (intro exI [of _ "[]"] exI [of _ "rt_dest rt"]) (simp add: in_order_def)
  next
    case False
    let ?t = "front (rt_queue rt)"
    let ?d = "msg_destination (sent_msg ?t)"
    have t: "?t \<in> set (rt_queue rt)" "\<forall>x \<in> set (rt_queue rt). \<not> delivered_last ?t x"
      using assms(1) False by (auto simp: queue_top_def)
    let ?rest = "remove1 ?t (rt_queue rt)"
    obtain ms where ms: "rt_dest rt ?d = Some ms"
        "fill_destination_actor_messages front n
          (rt\<lparr>rt_queue := ?rest, rt_dest := (rt_dest rt)(?d \<mapsto> ms @ [sent_msg ?t])\<rparr>) = Inr rt1"
      using Suc.prems(1,3) False t(1) by (auto simp: Let_def split: option.splits)
    have "\<forall>sm \<in> set ?rest. delivery_timestamp sm \<le> rt_timestamp rt"
      using Suc.prems(1) set_remove1_subset [of ?t "rt_queue rt"] by blast
    moreover have "length ?rest \<le> n" using Suc.prems(2) t(1) by (simp add: length_remove1)
    ultimately obtain sms dest where rest: "mset sms = mset ?rest" "in_order sms"
        "rt1 = rt\<lparr>rt_queue := [], rt_dest := dest\<rparr>"
        "\<forall>i. dest i = map_option (\<lambda>ms. ms @ mail_of i sms) (((rt_dest rt)(?d \<mapsto> ms @ [sent_msg ?t])) i)"
      using Suc.IH [OF _ _ ms(2)] by auto
    have "mset (?t # sms) = mset (rt_queue rt)" using rest(1) t(1) by simp
    moreover have "in_order (?t # sms)"
    proof -
      have "set sms \<subseteq> set (rt_queue rt)"
        using mset_eq_setD [OF rest(1)] set_remove1_subset [of ?t "rt_queue rt"] by blast
      with rest(2) t(2) show ?thesis by (auto simp: in_order_def)
    qed
    moreover have "\<forall>i. dest i = map_option (\<lambda>ms. ms @ mail_of i (?t # sms)) (rt_dest rt i)"
      using rest(4) ms(1) by (simp add: mail_of_def)
    ultimately show ?thesis using rest(3) by blast
  qed
qed

text \<open>The loop ends with an error exactly when a message has no destination.\<close>

lemma fill_returns:
  assumes "queue_top front" and "\<forall>sm \<in> set (rt_queue rt). delivery_timestamp sm \<le> rt_timestamp rt"
    and "length (rt_queue rt) \<le> n"
  shows "if \<forall>sm \<in> set (rt_queue rt). msg_destination (sent_msg sm) \<in> dom (rt_dest rt)
    then \<exists>rt1. fill_destination_actor_messages front n rt = Inr rt1
    else fill_destination_actor_messages front n rt = Inl (RuntimeError ''no destination'')"
  using assms(2,3)
proof (induction n arbitrary: rt)
  case (Suc n)
  show ?case
  proof (cases "rt_queue rt = []")
    case False
    let ?t = "front (rt_queue rt)"
    let ?d = "msg_destination (sent_msg ?t)"
    let ?rest = "remove1 ?t (rt_queue rt)"
    have t: "?t \<in> set (rt_queue rt)" using assms(1) False by (auto simp: queue_top_def)
    show ?thesis
    proof (cases "rt_dest rt ?d")
      case None
      with t Suc.prems(1) False show ?thesis by (auto simp: Let_def)
    next
      case (Some ms)
      let ?rt1 = "rt\<lparr>rt_queue := ?rest, rt_dest := (rt_dest rt)(?d \<mapsto> ms @ [sent_msg ?t])\<rparr>"
      have step: "fill_destination_actor_messages front (Suc n) rt = fill_destination_actor_messages front n ?rt1"
        using Some t Suc.prems(1) False by (simp add: Let_def)
      have due: "\<forall>sm \<in> set ?rest. delivery_timestamp sm \<le> rt_timestamp rt"
        using Suc.prems(1) set_remove1_subset [of ?t "rt_queue rt"] by blast
      have len: "length ?rest \<le> n" using Suc.prems(2) t by (simp add: length_remove1)
      have "set (rt_queue rt) = insert ?t (set ?rest)"
      proof -
        have "y \<in> set (rt_queue rt) \<longleftrightarrow> y \<in> insert ?t (set ?rest)" for y
          using t by (cases "y = ?t") auto
        then show ?thesis by blast
      qed
      then have all: "(\<forall>sm \<in> set (rt_queue rt). msg_destination (sent_msg sm) \<in> dom (rt_dest rt)) \<longleftrightarrow>
          (\<forall>sm \<in> set ?rest. msg_destination (sent_msg sm) \<in> dom (rt_dest rt))"
        using Some by auto
      have dom: "dom (rt_dest ?rt1) = dom (rt_dest rt)" using Some by auto
      have "if \<forall>sm \<in> set ?rest. msg_destination (sent_msg sm) \<in> dom (rt_dest rt)
        then \<exists>rt1. fill_destination_actor_messages front n ?rt1 = Inr rt1
        else fill_destination_actor_messages front n ?rt1 = Inl (RuntimeError ''no destination'')"
        using Suc.IH [of ?rt1] due len unfolding dom by simp
      then show ?thesis unfolding step all .
    qed
  qed simp
qed simp

section \<open>One tick\<close>

definition rt_due :: "'a runtime \<Rightarrow> bool" where
  "rt_due rt \<longleftrightarrow> (\<forall>sm \<in> set (rt_queue rt). delivery_timestamp sm \<le> tm (rt_clock rt))"

definition stamp :: "'a runtime \<Rightarrow> message \<Rightarrow> sent_message" where
  "stamp rt m = \<lparr>send_timestamp = rt_timestamp rt, delivery_timestamp = tm (rt_clock rt), sent_msg = m\<rparr>"

lemma runtime_sends: "fold runtime_send out rt = rt\<lparr>rt_queue := rt_queue rt @ map (stamp rt) out\<rparr>"
  by (induction out arbitrary: rt) (simp_all add: runtime_send_def stamp_def clock_current_def)

text \<open>The runtime with its mail sorted, before the actors are ticked.\<close>

definition with_mail :: "sent_message list \<Rightarrow> 'a runtime \<Rightarrow> 'a runtime" where
  "with_mail sms rt = rt\<lparr>rt_timestamp := tm (rt_clock rt), rt_queue := [],
     rt_dest := \<lambda>i. map_option (\<lambda>_. mail_of i sms) (rt_dest rt i)\<rparr>"

lemma fill_with_mail:
  assumes "queue_top front" and "rt_due rt"
    and "fill_destination_actor_messages front (length (rt_queue rt))
      ((clear_destination_actor_messages rt)\<lparr>rt_timestamp := tm (rt_clock rt)\<rparr>) = Inr rt3"
  shows "\<exists>sms. mset sms = mset (rt_queue rt) \<and> in_order sms \<and> rt3 = with_mail sms rt"
proof -
  let ?rt = "(clear_destination_actor_messages rt)\<lparr>rt_timestamp := tm (rt_clock rt)\<rparr>"
  have "\<forall>sm \<in> set (rt_queue ?rt). delivery_timestamp sm \<le> rt_timestamp ?rt"
    using assms(2) by (simp add: rt_due_def clear_destination_actor_messages_def)
  from fill_ok [OF assms(1) this _ assms(3)] obtain sms dest where sms: "mset sms = mset (rt_queue rt)" "in_order sms"
      "rt3 = ?rt\<lparr>rt_queue := [], rt_dest := dest\<rparr>"
      "\<forall>i. dest i = map_option (\<lambda>ms. ms @ mail_of i sms) (rt_dest ?rt i)"
    by (auto simp: clear_destination_actor_messages_def)
  then have "dest = (\<lambda>i. map_option (\<lambda>_. mail_of i sms) (rt_dest rt i))"
    by (auto simp: fun_eq_iff clear_destination_actor_messages_def option.map_comp comp_def)
  with sms show ?thesis by (auto simp: with_mail_def clear_destination_actor_messages_def)
qed

lemma runtime_tickE:
  assumes "queue_top front" and "rt_due rt" and "runtime_tick actor_id on_tick front (rt, g) = Inr (rt1, g1)"
  obtains sms actors rt4 where "mset sms = mset (rt_queue rt)" and "in_order sms"
    and "traverseE (tick_actor actor_id on_tick) (rt_actors rt) (with_mail sms rt, g) = Inr (actors, rt4, g1)"
    and "rt_actors rt1 = actors" and "rt_dest rt1 = rt_dest rt4" and "rt_queue rt1 = rt_queue rt4"
    and "rt_clock rt1 = (if tm (rt_clock rt4) = rt_timestamp rt4 then snd (clock_next (rt_clock rt4)) else rt_clock rt4)"
proof -
  let ?rt = "(clear_destination_actor_messages rt)\<lparr>rt_timestamp := tm (rt_clock rt)\<rparr>"
  have c: "rt_clock (clear_destination_actor_messages rt) = rt_clock rt" "rt_queue (clear_destination_actor_messages rt) = rt_queue rt"
    by (simp_all add: clear_destination_actor_messages_def)
  obtain rt3 rt4 where fill: "fill_destination_actor_messages front (length (rt_queue rt)) ?rt = Inr rt3"
      and send: "send_to_actors actor_id on_tick (rt3, g) = Inr (rt4, g1)"
      and fin: "rt1 = (if tm (rt_clock rt4) = rt_timestamp rt4
        then (let (ts, c) = clock_next (rt_clock rt4) in rt4\<lparr>rt_timestamp := ts, rt_clock := c\<rparr>) else rt4)"
    using assms(3) by (auto simp: runtime_tick_def Let_def clock_current_def c result_simps)
  obtain sms where sms: "mset sms = mset (rt_queue rt)" "in_order sms" "rt3 = with_mail sms rt"
    using fill_with_mail [OF assms(1,2) fill] by blast
  obtain actors rt5 where "traverseE (tick_actor actor_id on_tick) (rt_actors rt) (with_mail sms rt, g) = Inr (actors, rt5, g1)"
      "rt4 = rt5\<lparr>rt_actors := actors\<rparr>"
    using send sms(3) by (auto simp: send_to_actors_def with_mail_def result_simps)
  with sms fin show ?thesis by (intro that [of sms actors rt5]) (auto simp: Let_def clock_next_def)
qed

text \<open>A tick returns when every message has a destination and the actors' handlers return.\<close>

lemma runtime_tick_returns:
  assumes "queue_top front" and "rt_due rt" and "\<forall>sm \<in> set (rt_queue rt). msg_destination (sent_msg sm) \<in> dom (rt_dest rt)"
    and "\<And>sms. mset sms = mset (rt_queue rt) \<Longrightarrow>
      \<exists>actors rt4 g1. traverseE (tick_actor actor_id on_tick) (rt_actors rt) (with_mail sms rt, g) = Inr (actors, rt4, g1)"
  shows "\<exists>rt1 g1. runtime_tick actor_id on_tick front (rt, g) = Inr (rt1, g1)"
proof -
  let ?rt = "(clear_destination_actor_messages rt)\<lparr>rt_timestamp := tm (rt_clock rt)\<rparr>"
  have c: "rt_clock (clear_destination_actor_messages rt) = rt_clock rt" "rt_queue (clear_destination_actor_messages rt) = rt_queue rt"
    by (simp_all add: clear_destination_actor_messages_def)
  have q: "rt_queue ?rt = rt_queue rt" "rt_timestamp ?rt = tm (rt_clock rt)" "dom (rt_dest ?rt) = dom (rt_dest rt)"
    by (auto simp: clear_destination_actor_messages_def)
  obtain rt3 where fill: "fill_destination_actor_messages front (length (rt_queue rt)) ?rt = Inr rt3"
    using fill_returns [OF assms(1), of ?rt "length (rt_queue rt)", unfolded q] assms(2,3) unfolding rt_due_def by auto
  obtain sms where sms: "mset sms = mset (rt_queue rt)" "rt3 = with_mail sms rt"
    using fill_with_mail [OF assms(1,2) fill] by blast
  obtain actors rt4 g1 where "traverseE (tick_actor actor_id on_tick) (rt_actors rt) (with_mail sms rt, g) = Inr (actors, rt4, g1)"
    using assms(4) [OF sms(1)] by blast
  moreover have "rt_actors (with_mail sms rt) = rt_actors rt" by (simp add: with_mail_def)
  ultimately have "send_to_actors actor_id on_tick (rt3, g) = Inr (rt4\<lparr>rt_actors := actors\<rparr>, g1)"
    by (simp add: send_to_actors_def sms(2))
  with fill show ?thesis by (simp add: runtime_tick_def Let_def clock_current_def c)
qed

section \<open>Actors\<close>

text \<open>What the runtime needs of an actor's handler: it keeps the actor's identifier and never turns
  the clock back.\<close>

locale actor_contract =
  fixes actor_id :: "'a \<Rightarrow> int" and on_tick :: "'a handler"
  assumes id_kept: "on_tick clock msgs (a, g) = Inr (clock1, out, a1, g1) \<Longrightarrow> actor_id a1 = actor_id a"
    and clock_forward: "on_tick clock msgs (a, g) = Inr (clock1, out, a1, g1) \<Longrightarrow> tm clock \<le> tm clock1"
begin

definition rt_inv :: "'a runtime \<Rightarrow> bool" where
  "rt_inv rt \<longleftrightarrow> distinct (map actor_id (rt_actors rt)) \<and> dom (rt_dest rt) = actor_id ` set (rt_actors rt) \<and> rt_due rt"

lemma init_inv: "rt_inv runtime_init"
  by (simp add: rt_inv_def runtime_init_def rt_due_def)

lemma register_inv:
  assumes "rt_inv rt"
  shows "if actor_id a \<in> actor_id ` set (rt_actors rt)
    then register_actor actor_id a rt = Inl (InvalidArgument ''failed register new actor'')
    else \<exists>rt1. register_actor actor_id a rt = Inr rt1 \<and> rt_inv rt1 \<and> rt_actors rt1 = rt_actors rt @ [a]"
proof -
  have "rt_dest rt (actor_id a) \<noteq> None \<longleftrightarrow> actor_id a \<in> actor_id ` set (rt_actors rt)"
    using assms by (simp only: rt_inv_def domIff [symmetric])
  with assms show ?thesis by (auto simp: register_actor_def rt_inv_def rt_due_def)
qed

lemma register_all:
  assumes "rt_inv rt" and "foldE (register_actor actor_id) as rt = Inr rt1"
  shows "rt_inv rt1 \<and> rt_actors rt1 = rt_actors rt @ as"
  using assms
proof (induction as arbitrary: rt)
  case (Cons a as)
  then obtain rt2 where a: "register_actor actor_id a rt = Inr rt2" and rest: "foldE (register_actor actor_id) as rt2 = Inr rt1"
    by (auto simp: result_simps)
  have "rt_inv rt2 \<and> rt_actors rt2 = rt_actors rt @ [a]"
    using register_inv [OF Cons.prems(1), of a] a by (auto split: if_splits)
  with Cons.IH [OF _ rest] show ?case by simp
qed simp

lemma tick_actor_ok:
  assumes "tick_actor actor_id on_tick a (rt, g) = Inr (a1, rt1, g1)" and "rt_due rt" and "actor_id a \<in> dom (rt_dest rt)"
  shows "actor_id a1 = actor_id a \<and> dom (rt_dest rt1) = dom (rt_dest rt) \<and> rt_due rt1 \<and>
    tm (rt_clock rt) \<le> tm (rt_clock rt1) \<and> rt_timestamp rt1 = rt_timestamp rt"
proof -
  let ?rt1 = "rt\<lparr>rt_dest := (rt_dest rt)(actor_id a \<mapsto> [])\<rparr>"
  obtain clock1 out where run: "on_tick (rt_clock rt) (case rt_dest rt (actor_id a) of None \<Rightarrow> [] | Some ms \<Rightarrow> ms) (a, g) =
        Inr (clock1, out, a1, g1)" and rt1: "rt1 = fold runtime_send out (?rt1\<lparr>rt_clock := clock1\<rparr>)"
    using assms(1) by (auto simp: tick_actor_def Let_def result_simps)
  have "rt_due rt1"
    using assms(2) clock_forward [OF run] unfolding rt1 runtime_sends by (fastforce simp: rt_due_def stamp_def)
  then show ?thesis
    using id_kept [OF run] clock_forward [OF run] assms(3) unfolding rt1 runtime_sends by auto
qed

lemma tick_actors_ok:
  assumes "traverseE (tick_actor actor_id on_tick) as (rt, g) = Inr (as1, rt1, g1)" and "rt_due rt"
    and "actor_id ` set as \<subseteq> dom (rt_dest rt)"
  shows "map actor_id as1 = map actor_id as \<and> dom (rt_dest rt1) = dom (rt_dest rt) \<and> rt_due rt1 \<and>
    tm (rt_clock rt) \<le> tm (rt_clock rt1) \<and> rt_timestamp rt1 = rt_timestamp rt"
  using assms
proof (induction as arbitrary: rt g as1)
  case (Cons a as)
  obtain a1 rt2 g2 as2 where a: "tick_actor actor_id on_tick a (rt, g) = Inr (a1, rt2, g2)"
      and rest: "traverseE (tick_actor actor_id on_tick) as (rt2, g2) = Inr (as2, rt1, g1)" "as1 = a1 # as2"
    using Cons.prems(1) by (auto simp: traverseE_Cons simp del: traverseE.simps)
  have one: "actor_id a1 = actor_id a" "dom (rt_dest rt2) = dom (rt_dest rt)" "rt_due rt2"
      "tm (rt_clock rt) \<le> tm (rt_clock rt2)" "rt_timestamp rt2 = rt_timestamp rt"
    using tick_actor_ok [OF a Cons.prems(2)] Cons.prems(3) by auto
  with Cons.IH [OF rest(1) one(3)] Cons.prems(3) rest(2) show ?case by auto
qed simp

lemma tick_inv:
  assumes "queue_top front" and inv: "rt_inv rt" and step: "runtime_tick actor_id on_tick front (rt, g) = Inr (rt1, g1)"
  shows "rt_inv rt1 \<and> map actor_id (rt_actors rt1) = map actor_id (rt_actors rt) \<and> tm (rt_clock rt) < tm (rt_clock rt1)"
proof -
  have due: "rt_due rt" using inv by (simp add: rt_inv_def)
  obtain sms actors rt4 where t: "traverseE (tick_actor actor_id on_tick) (rt_actors rt) (with_mail sms rt, g) = Inr (actors, rt4, g1)"
      and fin: "rt_actors rt1 = actors" "rt_dest rt1 = rt_dest rt4" "rt_queue rt1 = rt_queue rt4"
        "rt_clock rt1 = (if tm (rt_clock rt4) = rt_timestamp rt4 then snd (clock_next (rt_clock rt4)) else rt_clock rt4)"
    using runtime_tickE [OF assms(1) due step] by metis
  have mail: "rt_due (with_mail sms rt)" "dom (rt_dest (with_mail sms rt)) = dom (rt_dest rt)"
      "rt_timestamp (with_mail sms rt) = tm (rt_clock rt)" "rt_clock (with_mail sms rt) = rt_clock rt"
    by (auto simp: with_mail_def rt_due_def)
  have ids: "actor_id ` set (rt_actors rt) \<subseteq> dom (rt_dest (with_mail sms rt))"
    using inv mail(2) by (simp add: rt_inv_def)
  note r = tick_actors_ok [OF t mail(1) ids, unfolded mail(2-4)]
  have "tm (rt_clock rt4) \<le> tm (rt_clock rt1) \<and> tm (rt_clock rt) < tm (rt_clock rt1)"
    using r fin(4) by (auto simp: clock_next_def)
  moreover from this have "rt_due rt1" using r fin(3) by (fastforce simp: rt_due_def)
  moreover have "actor_id ` set (rt_actors rt1) = actor_id ` set (rt_actors rt)"
    using r fin(1) by (metis list.set_map)
  ultimately show ?thesis using r fin(1,2) inv by (simp add: rt_inv_def)
qed

lemma ticks_inv:
  assumes "queue_top front" and "rt_inv rt" and "runtime_ticks actor_id on_tick front n (rt, g) = Inr (rt1, g1)"
  shows "rt_inv rt1 \<and> map actor_id (rt_actors rt1) = map actor_id (rt_actors rt) \<and>
    tm (rt_clock rt) + int n \<le> tm (rt_clock rt1)"
  using assms(2,3)
proof (induction n arbitrary: rt g)
  case (Suc n)
  obtain rt2 g2 where a: "runtime_tick actor_id on_tick front (rt, g) = Inr (rt2, g2)"
      and rest: "runtime_ticks actor_id on_tick front n (rt2, g2) = Inr (rt1, g1)"
    using Suc.prems(2) by (auto simp: result_simps)
  have "rt_inv rt2 \<and> map actor_id (rt_actors rt2) = map actor_id (rt_actors rt) \<and> tm (rt_clock rt) < tm (rt_clock rt2)"
    by (rule tick_inv [OF assms(1) Suc.prems(1) a])
  with Suc.IH [OF _ rest] show ?case by simp
qed simp

text \<open>A rule for what every tick keeps.\<close>

lemma ticks_invariant:
  assumes "queue_top front" and "rt_inv rt" and "runtime_ticks actor_id on_tick front n (rt, g) = Inr (rt1, g1)" and "P rt g"
    and "\<And>rt g rt1 g1. rt_inv rt \<Longrightarrow> P rt g \<Longrightarrow> runtime_tick actor_id on_tick front (rt, g) = Inr (rt1, g1) \<Longrightarrow> P rt1 g1"
  shows "P rt1 g1"
  using assms(2-4)
proof (induction n arbitrary: rt g)
  case (Suc n)
  obtain rt2 g2 where a: "runtime_tick actor_id on_tick front (rt, g) = Inr (rt2, g2)"
      and rest: "runtime_ticks actor_id on_tick front n (rt2, g2) = Inr (rt1, g1)"
    using Suc.prems(2) by (auto simp: result_simps)
  have "rt_inv rt2" using tick_inv [OF assms(1) Suc.prems(1) a] by simp
  moreover have "P rt2 g2" by (rule assms(5) [OF Suc.prems(1,3) a])
  ultimately show ?case by (rule Suc.IH [OF _ rest])
qed simp

end

section \<open>Properties\<close>

text \<open>A runtime with three messages, two of them for the same actor.\<close>

definition demo_mail :: "int \<Rightarrow> message" where
  "demo_mail i = \<lparr>msg_type = MSG_COMMIT, msg_source = 9, msg_destination = i, msg_id = 0, msg_payload = MsgCommitPayload 1001\<rparr>"

definition demo_queue :: "int runtime" where
  "demo_queue = \<lparr>rt_timestamp = 2, rt_clock = \<lparr>tm = 3\<rparr>, rt_actors = [1, 2], rt_dest = [1 \<mapsto> [demo_mail 1], 2 \<mapsto> []],
     rt_queue = [\<lparr>send_timestamp = 2, delivery_timestamp = 3, sent_msg = demo_mail 1\<rparr>,
       \<lparr>send_timestamp = 2, delivery_timestamp = 2, sent_msg = demo_mail 2\<rparr>,
       \<lparr>send_timestamp = 1, delivery_timestamp = 3, sent_msg = demo_mail 1\<rparr>]\<rparr>"

text \<open>C10. No message is delayed or lost: when every message in the queue is due, which every tick of the
  runtime leaves it, the next tick hands each actor exactly the messages for it, in the order of
  their timestamps, and none that it was handed before; it fails, with \<open>no destination\<close>, exactly
  when a message is for an actor that was never registered.\<close>

theorem fill_delivers_everything:
  assumes "queue_top front" and "\<forall>sm \<in> set (rt_queue rt). delivery_timestamp sm \<le> tm (rt_clock rt)"
  shows "if \<forall>sm \<in> set (rt_queue rt). msg_destination (sent_msg sm) \<in> dom (rt_dest rt)
    then \<exists>rt1 sms. fill_destination_actor_messages front (length (rt_queue rt))
        ((clear_destination_actor_messages rt)\<lparr>rt_timestamp := tm (rt_clock rt)\<rparr>) = Inr rt1 \<and>
      rt_queue rt1 = [] \<and> mset sms = mset (rt_queue rt) \<and> sorted_wrt (\<lambda>a b. \<not> delivered_last a b) sms \<and>
      (\<forall>i \<in> dom (rt_dest rt). rt_dest rt1 i = Some (map sent_msg (filter (\<lambda>sm. msg_destination (sent_msg sm) = i) sms)))
    else fill_destination_actor_messages front (length (rt_queue rt))
        ((clear_destination_actor_messages rt)\<lparr>rt_timestamp := tm (rt_clock rt)\<rparr>) = Inl (RuntimeError ''no destination'')"
proof -
  let ?rt = "(clear_destination_actor_messages rt)\<lparr>rt_timestamp := tm (rt_clock rt)\<rparr>"
  have rt: "rt_queue ?rt = rt_queue rt" "rt_timestamp ?rt = tm (rt_clock rt)" "dom (rt_dest ?rt) = dom (rt_dest rt)"
    by (auto simp: clear_destination_actor_messages_def)
  have due: "rt_due rt" using assms(2) by (simp add: rt_due_def)
  note r = fill_returns [OF assms(1), of ?rt "length (rt_queue rt)", unfolded rt, OF assms(2) order_refl]
  show ?thesis
  proof (cases "\<forall>sm \<in> set (rt_queue rt). msg_destination (sent_msg sm) \<in> dom (rt_dest rt)")
    case True
    with r obtain rt1 where run: "fill_destination_actor_messages front (length (rt_queue rt)) ?rt = Inr rt1" by auto
    obtain sms where "mset sms = mset (rt_queue rt)" "in_order sms" "rt1 = with_mail sms rt"
      using fill_with_mail [OF assms(1) due run] by blast
    with run have "fill_destination_actor_messages front (length (rt_queue rt)) ?rt = Inr rt1 \<and>
      rt_queue rt1 = [] \<and> mset sms = mset (rt_queue rt) \<and> sorted_wrt (\<lambda>a b. \<not> delivered_last a b) sms \<and>
      (\<forall>i \<in> dom (rt_dest rt). rt_dest rt1 i = Some (map sent_msg (filter (\<lambda>sm. msg_destination (sent_msg sm) = i) sms)))"
      by (auto simp: in_order_def with_mail_def mail_of_def)
    then show ?thesis unfolding if_P [OF True] by blast
  next
    case False
    then show ?thesis using r unfolding if_not_P [OF False] by blast
  qed
qed

theorem fill_delivers_everything_witness:
  "\<exists>rt1 sms. fill_destination_actor_messages first_due 3 ((clear_destination_actor_messages demo_queue)\<lparr>rt_timestamp := 3\<rparr>) = Inr rt1 \<and>
    rt_queue rt1 = [] \<and> mset sms = mset (rt_queue demo_queue) \<and>
    rt_dest rt1 1 = Some (map sent_msg (filter (\<lambda>sm. msg_destination (sent_msg sm) = 1) sms))"
proof -
  have rt: "length (rt_queue demo_queue) = 3" "tm (rt_clock demo_queue) = 3"
      "\<forall>sm \<in> set (rt_queue demo_queue). delivery_timestamp sm \<le> tm (rt_clock demo_queue)"
      "\<forall>sm \<in> set (rt_queue demo_queue). msg_destination (sent_msg sm) \<in> dom (rt_dest demo_queue)"
      "1 \<in> dom (rt_dest demo_queue)"
    by (auto simp: demo_queue_def demo_mail_def)
  show ?thesis
    using fill_delivers_everything [OF first_due_top rt(3), unfolded rt(1,2)] rt(5) unfolding if_P [OF rt(4)] by blast
qed

lemma register_all_iff:
  assumes "dom (rt_dest rt) = I"
  shows "if distinct (map actor_id as) \<and> actor_id ` set as \<inter> I = {}
    then \<exists>rt1. foldE (register_actor actor_id) as rt = Inr rt1 \<and> rt_actors rt1 = rt_actors rt @ as \<and>
      dom (rt_dest rt1) = I \<union> actor_id ` set as
    else foldE (register_actor actor_id) as rt = Inl (InvalidArgument ''failed register new actor'')"
  using assms
proof (induction as arbitrary: rt I)
  case (Cons a as)
  show ?case
  proof (cases "actor_id a \<in> I")
    case True
    then have "rt_dest rt (actor_id a) \<noteq> None" using Cons.prems by auto
    with True show ?thesis by (auto simp: register_actor_def)
  next
    case False
    let ?rt = "rt\<lparr>rt_dest := (rt_dest rt)(actor_id a \<mapsto> []), rt_actors := rt_actors rt @ [a]\<rparr>"
    have "rt_dest rt (actor_id a) = None" using Cons.prems False by auto
    then have step: "foldE (register_actor actor_id) (a # as) rt = foldE (register_actor actor_id) as ?rt"
      by (simp add: register_actor_def)
    have dom: "dom (rt_dest ?rt) = insert (actor_id a) I" using Cons.prems by simp
    have all: "distinct (map actor_id (a # as)) \<and> actor_id ` set (a # as) \<inter> I = {} \<longleftrightarrow>
        distinct (map actor_id as) \<and> actor_id ` set as \<inter> insert (actor_id a) I = {}"
      using False by auto
    show ?thesis using Cons.IH [OF dom] unfolding step all by (auto split: if_splits)
  qed
qed simp

text \<open>Registering a list of actors with a new runtime succeeds exactly when their identifiers are
  distinct, and then keeps their order and gives every one of them a mailbox; otherwise it throws.\<close>

lemma register_iff_distinct:
  fixes as :: "'a list"
  shows "if distinct (map actor_id as)
   then \<exists>rt. foldE (register_actor actor_id) as runtime_init = Inr rt \<and> rt_actors rt = as \<and>
     dom (rt_dest rt) = actor_id ` set as
   else foldE (register_actor actor_id) as runtime_init = Inl (InvalidArgument ''failed register new actor'')"
proof -
  have "rt_actors (runtime_init :: 'a runtime) = []" "dom (rt_dest (runtime_init :: 'a runtime)) = {}"
    by (simp_all add: runtime_init_def)
  with register_all_iff [of "runtime_init :: 'a runtime" "{}" actor_id as] show ?thesis by (auto split: if_splits)
qed

end
