(* ===== verification/System.thy ===== *)
theory System
  imports Server Client Runtime
begin

text \<open>
  The whole transaction system: a runtime whose actors are one server and any number of clients, as
  \<open>tests/test_full_tx.cpp\<close> sets it up. The theory shows that the two actors keep the contract of the
  runtime and that what a client believes of its transactions is what the server decided.
\<close>

section \<open>Actors\<close>

datatype actor = ServerActor server | ClientActor client

fun actor_id :: "actor \<Rightarrow> int" where
  "actor_id (ServerActor s) = sv_actor_id s"
| "actor_id (ClientActor c) = cl_actor_id c"

fun actor_on_tick :: "(groups \<Rightarrow> groups) \<Rightarrow> actor handler" where
  "actor_on_tick order clock msgs (ServerActor s, g) =
     bindE (server_on_tick order clock msgs (s, g)) (\<lambda>(clock1, out, s1, g1). Inr (clock1, out, ServerActor s1, g1))"
| "actor_on_tick order clock msgs (ClientActor c, g) =
     bindE (client_on_tick clock msgs (c, g)) (\<lambda>(clock1, out, c1, g1). Inr (clock1, out, ClientActor c1, g1))"

lemma server_on_tick_keeps:
  assumes "server_on_tick order clock msgs (s, g) = Inr (clock1, out, s1, g1)"
  shows "tm clock \<le> tm clock1 \<and> sv_actor_id s1 = sv_actor_id s"
proof -
  obtain gs sent where run: "foldE tick_tx gs (clock, s, g, []) = Inr (clock1, s1, g1, sent)"
    using assms by (auto simp: server_on_tick_def result_simps)
  let ?P = "\<lambda>(c, t, _, _). tm clock \<le> tm c \<and> sv_actor_id t = sv_actor_id s"
  have "?P (clock1, s1, g1, sent)"
    by (rule foldE_invariant [OF run, where P = ?P]) (auto dest!: tick_tx_keeps)
  then show ?thesis by simp
qed

lemma client_on_tick_keeps:
  assumes "client_on_tick clock msgs (c, g) = Inr (clock1, out, c1, g1)"
  shows "tm clock \<le> tm clock1 \<and> cl_actor_id c1 = cl_actor_id c"
proof -
  obtain gs txs gs1 env1 sent where run: "traverseE tick_client_tx (cl_transactions c)
        (clock, gs, \<lparr>ce_retrier = cl_retrier c, ce_gen = g\<rparr>, []) = Inr (txs, clock1, gs1, env1, sent)"
      and c1: "c1 = c\<lparr>cl_retrier := ce_retrier env1, cl_transactions := txs\<rparr>"
    using assms by (auto simp: client_on_tick_def result_simps)
  have "(\<lambda>(c, _). tm clock \<le> tm c) (clock1, gs1, env1, sent) \<and> list_all2 (\<lambda>_ _. True) (cl_transactions c) txs"
    by (rule traverseE_invariant [OF run])
      (auto simp: tick_client_tx_def clock_next_def Let_def result_simps split: if_splits)
  with c1 show ?thesis by simp
qed

interpretation sys: actor_contract actor_id "actor_on_tick order" for order
proof unfold_locales
  fix clock msgs a g clock1 out a1 g1
  assume step: "actor_on_tick order clock msgs (a, g) = Inr (clock1, out, a1, g1)"
  have "actor_id a1 = actor_id a \<and> tm clock \<le> tm clock1"
  proof (cases a)
    case (ServerActor s)
    with step obtain s1 where "a1 = ServerActor s1" "server_on_tick order clock msgs (s, g) = Inr (clock1, out, s1, g1)"
      by (auto simp: result_simps)
    with server_on_tick_keeps ServerActor show ?thesis by auto
  next
    case (ClientActor c)
    with step obtain c1 where "a1 = ClientActor c1" "client_on_tick clock msgs (c, g) = Inr (clock1, out, c1, g1)"
      by (auto simp: result_simps)
    with client_on_tick_keeps ClientActor show ?thesis by auto
  qed
  then show "actor_id a1 = actor_id a" and "tm clock \<le> tm clock1" by auto
qed

section \<open>The view a server gives\<close>

definition view_of :: "server \<Rightarrow> server_view" where
  "view_of s =
     (\<lambda>i r. \<exists>tx. sv_transactions s i = Some tx \<and> stx_state tx \<noteq> STX_NOT_STARTED \<and> stx_read_ts tx = r,
      \<lambda>i c. \<exists>tx. sv_transactions s i = Some tx \<and> stx_state tx = STX_COMMITTED \<and> stx_commit_ts tx = c,
      \<lambda>i. \<exists>tx. sv_transactions s i = Some tx \<and> stx_state tx = STX_ROLLED_BACK_BY_SERVER)"

definition view_le :: "server_view \<Rightarrow> server_view \<Rightarrow> bool" where
  "view_le V W = (case (V, W) of ((R, C, D), (R', C', D')) \<Rightarrow>
     (\<forall>i r. R i r \<longrightarrow> R' i r) \<and> (\<forall>i c. C i c \<longrightarrow> C' i c) \<and> (\<forall>i. D i \<longrightarrow> D' i))"

lemma view_le_mono:
  assumes "view_le V W"
  shows "msg_true V m \<Longrightarrow> msg_true W m" and "tx_true V tx \<Longrightarrow> tx_true W tx" and "client_ok srv V c \<Longrightarrow> client_ok srv W c"
proof -
  obtain R C D R' C' D' where V: "V = (R, C, D)" and W: "W = (R', C', D')" by (cases V, cases W)
  have R: "R i r \<Longrightarrow> R' i r" and C: "C i t \<Longrightarrow> C' i t" and D: "D i \<Longrightarrow> D' i" for i r t
    using assms by (auto simp: view_le_def V W)
  show "msg_true W m" if "msg_true V m"
    using that R C D by (auto simp: V W msg_true_def told_def Let_def)
  show tx: "tx_true W tx" if "tx_true V tx" for tx
    using that R C D by (auto simp: V W tx_true_def ct_agrees_def)
  show "client_ok srv W c" if "client_ok srv V c"
    using that tx by (simp add: client_ok_def)
qed

lemma view_later:
  assumes "server_later s s1"
  shows "view_le (view_of s) (view_of s1)"
proof -
  have "\<exists>b. sv_transactions s1 i = Some b \<and> stx_state b \<noteq> STX_NOT_STARTED \<and> stx_read_ts b = stx_read_ts a"
    if "sv_transactions s i = Some a" "stx_state a \<noteq> STX_NOT_STARTED" for i a
    using assms that unfolding server_later_def tx_later_def by metis
  moreover have "sv_transactions s1 i = Some a"
    if "sv_transactions s i = Some a" "stx_state a = STX_COMMITTED \<or> stx_state a = STX_ROLLED_BACK_BY_SERVER" for i a
    using assms that by (fastforce simp: server_later_def tx_later_def)
  ultimately show ?thesis by (fastforce simp: view_le_def view_of_def)
qed

lemma reply_true: "reply_of s m \<Longrightarrow> msg_true (view_of s) m"
  by (cases "msg_payload m") (auto simp: reply_of_def reply_ok_def typed_def msg_true_def view_of_def told_def Let_def)

section \<open>The invariant of the system\<close>

definition mail_true :: "server_view \<Rightarrow> actor runtime \<Rightarrow> bool" where
  "mail_true V rt \<longleftrightarrow> (\<forall>i ms. rt_dest rt i = Some ms \<longrightarrow> (\<forall>m \<in> set ms. msg_true V m)) \<and>
     (\<forall>sm \<in> set (rt_queue rt). msg_true V (sent_msg sm))"

definition clients_ok :: "int \<Rightarrow> server_view \<Rightarrow> client list \<Rightarrow> bool" where
  "clients_ok srv V cs \<longleftrightarrow> (\<forall>c \<in> set cs. client_ok srv V c)"

definition system_ok :: "int \<Rightarrow> actor runtime \<Rightarrow> bool" where
  "system_ok srv rt \<longleftrightarrow> (\<exists>cs1 s cs2. rt_actors rt = map ClientActor cs1 @ ServerActor s # map ClientActor cs2 \<and>
     server_inv (tm (rt_clock rt)) s \<and> clients_ok srv (view_of s) (cs1 @ cs2) \<and> mail_true (view_of s) rt)"

lemma tick_client_actor:
  assumes "tick_actor actor_id (actor_on_tick order) (ClientActor c) (rt, g) = Inr (a1, rt1, g1)"
    and "client_ok srv V c" and "mail_true V rt"
  shows "\<exists>c1. a1 = ClientActor c1 \<and> client_ok srv V c1 \<and> mail_true V rt1 \<and> tm (rt_clock rt) \<le> tm (rt_clock rt1)"
proof -
  let ?msgs = "case rt_dest rt (cl_actor_id c) of None \<Rightarrow> [] | Some ms \<Rightarrow> ms"
  obtain clock1 out c1 where run: "client_on_tick (rt_clock rt) ?msgs (c, g) = Inr (clock1, out, c1, g1)"
      and fin: "a1 = ClientActor c1"
        "rt1 = fold runtime_send out (rt\<lparr>rt_dest := (rt_dest rt)(cl_actor_id c \<mapsto> []), rt_clock := clock1\<rparr>)"
    using assms(1) by (auto simp: tick_actor_def Let_def result_simps)
  have "\<forall>m \<in> set ?msgs. msg_true V m" using assms(3) by (cases "rt_dest rt (cl_actor_id c)") (auto simp: mail_true_def)
  note r = client_on_tick_ok [OF assms(2) this run]
  then have "mail_true V rt1"
    using assms(3) unfolding fin(2) runtime_sends by (auto simp: mail_true_def stamp_def)
  with r fin(1) show ?thesis unfolding fin(2) runtime_sends by simp
qed

lemma tick_client_actors:
  assumes "traverseE (tick_actor actor_id (actor_on_tick order)) (map ClientActor cs) (rt, g) = Inr (as, rt1, g1)"
    and "clients_ok srv V cs" and "mail_true V rt"
  shows "\<exists>cs1. as = map ClientActor cs1 \<and> clients_ok srv V cs1 \<and> mail_true V rt1 \<and> tm (rt_clock rt) \<le> tm (rt_clock rt1)"
  using assms
proof (induction cs arbitrary: rt g as)
  case Nil
  then show ?case by (auto simp: clients_ok_def)
next
  case (Cons c cs)
  obtain a1 rt2 g2 as2 where a: "tick_actor actor_id (actor_on_tick order) (ClientActor c) (rt, g) = Inr (a1, rt2, g2)"
      and rest: "traverseE (tick_actor actor_id (actor_on_tick order)) (map ClientActor cs) (rt2, g2) = Inr (as2, rt1, g1)"
        "as = a1 # as2"
    using Cons.prems(1) by (auto simp: traverseE_Cons simp del: traverseE.simps)
  have "client_ok srv V c" "clients_ok srv V cs" using Cons.prems(2) by (auto simp: clients_ok_def)
  from tick_client_actor [OF a this(1) Cons.prems(3)] obtain c1 where one: "a1 = ClientActor c1" "client_ok srv V c1"
      "mail_true V rt2" "tm (rt_clock rt) \<le> tm (rt_clock rt2)"
    by blast
  from Cons.IH [OF rest(1) \<open>clients_ok srv V cs\<close> one(3)] obtain cs1 where "as2 = map ClientActor cs1" "clients_ok srv V cs1"
      "mail_true V rt1" "tm (rt_clock rt2) \<le> tm (rt_clock rt1)"
    by blast
  with one rest(2) show ?case by (intro exI [of _ "c1 # cs1"]) (auto simp: clients_ok_def)
qed

lemma tick_server_actor:
  assumes "\<forall>gs. mset (order gs) = mset gs"
    and "tick_actor actor_id (actor_on_tick order) (ServerActor s) (rt, g) = Inr (a1, rt1, g1)"
    and "server_inv (tm (rt_clock rt)) s" and "mail_true (view_of s) rt"
  shows "\<exists>s1. a1 = ServerActor s1 \<and> server_inv (tm (rt_clock rt1)) s1 \<and> server_later s s1 \<and> mail_true (view_of s1) rt1"
proof -
  let ?msgs = "case rt_dest rt (sv_actor_id s) of None \<Rightarrow> [] | Some ms \<Rightarrow> ms"
  obtain clock1 out s1 where run: "server_on_tick order (rt_clock rt) ?msgs (s, g) = Inr (clock1, out, s1, g1)"
      and fin: "a1 = ServerActor s1"
        "rt1 = fold runtime_send out (rt\<lparr>rt_dest := (rt_dest rt)(sv_actor_id s \<mapsto> []), rt_clock := clock1\<rparr>)"
    using assms(2) by (auto simp: tick_actor_def Let_def result_simps)
  note r = server_on_tick_ok [OF assms(1,3) run]
  have "mail_true (view_of s1) rt" using assms(4) view_le_mono(1) [OF view_later] r by (auto simp: mail_true_def)
  then have "mail_true (view_of s1) rt1"
    using r reply_true unfolding fin(2) runtime_sends by (auto simp: mail_true_def stamp_def)
  with r fin(1) show ?thesis unfolding fin(2) runtime_sends by simp
qed

lemma mail_true_with_mail:
  assumes "mail_true V rt" and "mset sms = mset (rt_queue rt)"
  shows "mail_true V (with_mail sms rt)"
  using assms(1) mset_eq_setD [OF assms(2)] by (auto simp: mail_true_def with_mail_def mail_of_def)

lemma system_tick:
  assumes order: "\<forall>gs. mset (order gs) = mset gs" and front: "queue_top front" and due: "rt_due rt" and ok: "system_ok srv rt"
    and step: "runtime_tick actor_id (actor_on_tick order) front (rt, g) = Inr (rt1, g1)"
  shows "system_ok srv rt1"
proof -
  obtain cs1 s cs2 where rt: "rt_actors rt = map ClientActor cs1 @ ServerActor s # map ClientActor cs2"
      and inv: "server_inv (tm (rt_clock rt)) s" and cs: "clients_ok srv (view_of s) cs1" "clients_ok srv (view_of s) cs2"
      and mail: "mail_true (view_of s) rt"
    using ok by (auto simp: system_ok_def clients_ok_def)
  obtain sms actors rt4 where sms: "mset sms = mset (rt_queue rt)"
      and run: "traverseE (tick_actor actor_id (actor_on_tick order)) (rt_actors rt) (with_mail sms rt, g) = Inr (actors, rt4, g1)"
      and fin: "rt_actors rt1 = actors" "rt_dest rt1 = rt_dest rt4" "rt_queue rt1 = rt_queue rt4"
        "rt_clock rt1 = (if tm (rt_clock rt4) = rt_timestamp rt4 then snd (clock_next (rt_clock rt4)) else rt_clock rt4)"
    using runtime_tickE [OF front due step] by metis
  obtain as1 rta ga a rtb gb as2 where
      a: "traverseE (tick_actor actor_id (actor_on_tick order)) (map ClientActor cs1) (with_mail sms rt, g) = Inr (as1, rta, ga)"
      and b: "tick_actor actor_id (actor_on_tick order) (ServerActor s) (rta, ga) = Inr (a, rtb, gb)"
      and c: "traverseE (tick_actor actor_id (actor_on_tick order)) (map ClientActor cs2) (rtb, gb) = Inr (as2, rt4, g1)"
      and as: "actors = as1 @ a # as2"
    using run unfolding rt traverseE_append traverseE_Cons by auto
  obtain ds1 where ds1: "as1 = map ClientActor ds1" "clients_ok srv (view_of s) ds1" "mail_true (view_of s) rta"
      "tm (rt_clock (with_mail sms rt)) \<le> tm (rt_clock rta)"
    using tick_client_actors [OF a cs(1) mail_true_with_mail [OF mail sms]] by blast
  have "server_inv (tm (rt_clock rta)) s"
    using ds1(4) by (intro server_inv_mono [OF inv]) (simp add: with_mail_def)
  from tick_server_actor [OF order b this ds1(3)] obtain s1 where s1: "a = ServerActor s1" "server_inv (tm (rt_clock rtb)) s1"
      "server_later s s1" "mail_true (view_of s1) rtb"
    by blast
  note later = view_le_mono(3) [OF view_later [OF s1(3)]]
  have "clients_ok srv (view_of s1) cs2" using cs(2) later by (auto simp: clients_ok_def)
  from tick_client_actors [OF c this s1(4)] obtain ds2 where ds2: "as2 = map ClientActor ds2" "clients_ok srv (view_of s1) ds2"
      "mail_true (view_of s1) rt4" "tm (rt_clock rtb) \<le> tm (rt_clock rt4)"
    by blast
  have "tm (rt_clock rt4) \<le> tm (rt_clock rt1)" using fin(4) by (simp add: clock_next_def)
  then have "server_inv (tm (rt_clock rt1)) s1" using ds2(4) by (intro server_inv_mono [OF s1(2)]) simp
  moreover have "clients_ok srv (view_of s1) (ds1 @ ds2)" using ds1(2) ds2(2) later by (auto simp: clients_ok_def)
  moreover have "mail_true (view_of s1) rt1" using ds2(3) fin by (simp add: mail_true_def)
  ultimately show ?thesis using as fin(1) ds1(1) s1(1) ds2(1) by (auto simp: system_ok_def)
qed

section \<open>Properties\<close>

text \<open>How a system is set up: some clients, the server, some more clients are registered with a new runtime.\<close>

definition fresh_client :: "int \<Rightarrow> client \<Rightarrow> bool" where
  "fresh_client srv c \<longleftrightarrow> (\<exists>a specs p. c = make_client a specs (discovery_single srv) p)"

definition set_up :: "int \<Rightarrow> actor list \<Rightarrow> actor runtime \<Rightarrow> bool" where
  "set_up srv as rt \<longleftrightarrow> foldE (register_actor actor_id) as runtime_init = Inr rt \<and>
     (\<exists>cs1 ks p cs2. as = map ClientActor cs1 @ ServerActor (make_server srv ks p) # map ClientActor cs2 \<and>
        (\<forall>c \<in> set (cs1 @ cs2). fresh_client srv c))"

lemma set_up_ok:
  assumes "set_up srv as rt"
  shows "sys.rt_inv rt \<and> rt_actors rt = as \<and> system_ok srv rt"
proof -
  obtain cs1 ks p cs2 where as: "as = map ClientActor cs1 @ ServerActor (make_server srv ks p) # map ClientActor cs2"
      and cs: "\<forall>c \<in> set (cs1 @ cs2). fresh_client srv c" and run: "foldE (register_actor actor_id) as runtime_init = Inr rt"
    using assms by (auto simp: set_up_def)
  have inv: "sys.rt_inv rt" "rt_actors rt = as"
    using sys.register_all [OF sys.init_inv run] by (auto simp: runtime_init_def)
  have "(\<lambda>t. rt_queue t = [] \<and> rt_clock t = clock_init \<and> (\<forall>i ms. rt_dest t i = Some ms \<longrightarrow> ms = [])) rt"
    by (rule foldE_invariant [OF run]) (auto simp: runtime_init_def register_actor_def split: if_splits)
  then have "mail_true V rt" "rt_clock rt = clock_init" for V by (fastforce simp: mail_true_def)+
  moreover have "clients_ok srv V (cs1 @ cs2)" for V
    unfolding clients_ok_def using cs make_client_ok unfolding fresh_client_def by metis
  moreover have "server_inv 0 (make_server srv ks p)" by (rule make_server_inv) simp
  ultimately have "system_ok srv rt"
    unfolding system_ok_def
    by (intro exI [of _ cs1] exI [of _ "make_server srv ks p"] exI [of _ cs2]) (simp add: as inv clock_init_def)
  with inv show ?thesis by simp
qed

lemma system_run:
  assumes "\<forall>gs. mset (order gs) = mset gs" and "queue_top front" and "set_up srv as rt"
    and "runtime_run actor_id (actor_on_tick order) front n (rt, g) = Inr (rt1, g1)"
  shows "system_ok srv rt1"
proof -
  have inv: "sys.rt_inv rt" "system_ok srv rt" using set_up_ok [OF assms(3)] by auto
  have run: "runtime_ticks actor_id (actor_on_tick order) front (nat n) (rt, g) = Inr (rt1, g1)"
    using assms(4) by (simp add: runtime_run_def)
  show ?thesis
  proof (rule sys.ticks_invariant [OF assms(2) inv(1) run, where P = "\<lambda>t _. system_ok srv t"])
    fix t h t1 h1
    assume "sys.rt_inv t" "system_ok srv t" and step: "runtime_tick actor_id (actor_on_tick order) front (t, h) = Inr (t1, h1)"
    then show "system_ok srv t1" by (intro system_tick [OF assms(1,2) _ _ step]) (auto simp: sys.rt_inv_def)
  qed (rule inv(2))
qed

text \<open>The tests \<open>SimpleSendMsgStartFromActor\<close> and \<open>RollbackTxDifferentClients\<close> of
  \<open>tests/test_full_tx.cpp\<close>: the actors, and what the tests look at after the run.\<close>

definition test_client :: "int \<Rightarrow> int \<Rightarrow> actor" where
  "test_client a value = ClientActor (make_client a
     [\<lparr>earliest_start_ts = 0, earliest_commit_ts = 2, spec_gets = [],
       spec_puts = [\<lparr>cp_earliest_ts = 2, cp_key = 17, cp_value = value\<rparr>], spec_action = ACTION_COMMIT\<rparr>]
     (discovery_single 1) (make_proxy_runtime a))"

definition test_actors :: "int list \<Rightarrow> actor list" where
  "test_actors values = ServerActor (make_server 1 [] (make_proxy_runtime 1)) #
     map (\<lambda>(i, v). test_client (2 + int i) v) (enumerate 0 values)"

definition test_run :: "(groups \<Rightarrow> groups) \<Rightarrow> int \<Rightarrow> int list \<Rightarrow> (actor runtime \<times> generator) result" where
  "test_run order ticks values = bindE (foldE (register_actor actor_id) (test_actors values) runtime_init) (\<lambda>rt.
     runtime_run actor_id (actor_on_tick order) first_due ticks (rt, generator_init))"

definition client_result :: "nat \<Rightarrow> actor runtime \<Rightarrow> export_result result" where
  "client_result i rt = (case rt_actors rt ! i of
     ClientActor c \<Rightarrow> bindE (get_tx 0 c) (\<lambda>tx. Inr (export_results tx))
   | _ \<Rightarrow> Inl (Undefined ''not a client''))"

lemma test_set_up:
  assumes "foldE (register_actor actor_id) (test_actors values) runtime_init = Inr rt"
  shows "set_up 1 (test_actors values) rt"
proof -
  let ?cs = "map (\<lambda>(i, v). case test_client (2 + int i) v of ClientActor c \<Rightarrow> c) (enumerate 0 values)"
  have "test_actors values = map ClientActor [] @ ServerActor (make_server 1 [] (make_proxy_runtime 1)) # map ClientActor ?cs"
    by (auto simp: test_actors_def test_client_def)
  moreover have "\<forall>c \<in> set ([] @ ?cs). fresh_client 1 c" by (auto simp: fresh_client_def test_client_def)
  ultimately show ?thesis unfolding set_up_def using assms by blast
qed

definition test_single_outcome :: bool where
  "test_single_outcome = (case test_run (\<lambda>gs. gs) 10 [1177] of Inl _ \<Rightarrow> False | Inr (rt, _) \<Rightarrow>
     (case client_result 1 rt of Inl _ \<Rightarrow> False | Inr res \<Rightarrow>
        er_state res = CTX_COMMITTED \<and> er_read_ts res \<ge> 1 \<and> er_commit_ts res \<ge> 2 \<and> er_txid res = 1001 \<and>
        er_puts res = [(17, 1177)]))"

definition test_rollback_outcome :: "(groups \<Rightarrow> groups) \<Rightarrow> client_tx_state \<Rightarrow> client_tx_state \<Rightarrow> bool" where
  "test_rollback_outcome order st1 st2 = (case test_run order 20 [1177, 2277] of Inl _ \<Rightarrow> False | Inr (rt, _) \<Rightarrow>
     (case client_result 1 rt of Inl _ \<Rightarrow> False | Inr res1 \<Rightarrow>
       (case client_result 2 rt of Inl _ \<Rightarrow> False | Inr res2 \<Rightarrow>
          er_state res1 = st1 \<and> er_state res2 = st2 \<and> er_puts res1 = [(17, 1177)] \<and> er_puts res2 = [(17, 2277)])))"

lemma test_single: test_single_outcome
  by code_simp

text \<open>The test \<open>SimpleSendMsgStartFromActor\<close> at its end.\<close>

lemma test_committed:
  "\<exists>rt0 rt g s c tx. foldE (register_actor actor_id) (test_actors [1177]) runtime_init = Inr rt0 \<and>
    runtime_run actor_id (actor_on_tick (\<lambda>gs. gs)) first_due 10 (rt0, generator_init) = Inr (rt, g) \<and>
    test_run (\<lambda>gs. gs) 10 [1177] = Inr (rt, g) \<and> ServerActor s \<in> set (rt_actors rt) \<and> ClientActor c \<in> set (rt_actors rt) \<and>
    tx \<in> set (cl_transactions c) \<and> ct_state tx = CTX_COMMITTED"
proof -
  obtain rt g res where run: "test_run (\<lambda>gs. gs) 10 [1177] = Inr (rt, g)"
      and res: "client_result 1 rt = Inr res" "er_state res = CTX_COMMITTED"
    using test_single by (auto simp: test_single_outcome_def split: sum.splits prod.splits)
  obtain rt0 where reg: "foldE (register_actor actor_id) (test_actors [1177]) runtime_init = Inr rt0"
      and r: "runtime_run actor_id (actor_on_tick (\<lambda>gs. gs)) first_due 10 (rt0, generator_init) = Inr (rt, g)"
    using run by (auto simp: test_run_def result_simps)
  obtain c where c: "rt_actors rt ! 1 = ClientActor c" "cl_transactions c \<noteq> []" "ct_state (cl_transactions c ! 0) = CTX_COMMITTED"
    using res by (auto simp: client_result_def get_tx_def export_results_def result_simps split: actor.splits)
  have "sys.rt_inv rt0" "rt_actors rt0 = test_actors [1177]" using set_up_ok [OF test_set_up [OF reg]] by auto
  with sys.ticks_inv [OF first_due_top _ r [unfolded runtime_run_def]] have
    "map actor_id (rt_actors rt) = map actor_id (test_actors [1177])" by simp
  then have "length (rt_actors rt) = 2" by (auto dest: map_eq_imp_length_eq simp: test_actors_def)
  then have client: "ClientActor c \<in> set (rt_actors rt)" using c(1) by (metis nth_mem one_less_numeral_iff semiring_norm(76))
  have "system_ok 1 rt" by (rule system_run [OF _ first_due_top test_set_up [OF reg] r]) simp
  then have "\<exists>s. ServerActor s \<in> set (rt_actors rt)" by (fastforce simp: system_ok_def)
  moreover have "cl_transactions c ! 0 \<in> set (cl_transactions c)" using c(2) by simp
  ultimately show ?thesis using reg r run client c(3) by blast
qed

text \<open>C9. What a client believes is what the server decided, in every state a system of one server and
  any number of clients runs into, whatever transactions they are given and in whatever order
  messages of the same instant are delivered: an open transaction has the snapshot the server gave
  it, one the client counts as committed is committed at the server, with the same commit
  timestamp and snapshot, and one it counts as rolled back is rolled back there.\<close>

theorem client_agrees_with_server:
  assumes "\<forall>gs. mset (order gs) = mset gs" and "queue_top front" and "set_up srv as rt"
    and "runtime_run actor_id (actor_on_tick order) front n (rt, g) = Inr (rt1, g1)"
  shows "\<exists>cs1 s cs2. rt_actors rt1 = map ClientActor cs1 @ ServerActor s # map ClientActor cs2 \<and>
    (\<forall>c \<in> set (cs1 @ cs2). \<forall>tx \<in> set (cl_transactions c).
      (ct_state tx \<notin> {CTX_NOT_STARTED, CTX_START_SENT} \<longrightarrow> (\<exists>stx. sv_transactions s (ct_txid tx) = Some stx \<and>
         stx_state stx \<noteq> STX_NOT_STARTED \<and> stx_read_ts stx = ct_read_ts tx)) \<and>
      (ct_state tx = CTX_COMMITTED \<longrightarrow> (\<exists>stx. sv_transactions s (ct_txid tx) = Some stx \<and>
         stx_state stx = STX_COMMITTED \<and> stx_commit_ts stx = ct_commit_ts tx)) \<and>
      (ct_state tx = CTX_ROLLED_BACK_BY_SERVER \<longrightarrow> (\<exists>stx. sv_transactions s (ct_txid tx) = Some stx \<and>
         stx_state stx = STX_ROLLED_BACK_BY_SERVER)))"
proof -
  obtain cs1 s cs2 where as: "rt_actors rt1 = map ClientActor cs1 @ ServerActor s # map ClientActor cs2"
      and cs: "clients_ok srv (view_of s) (cs1 @ cs2)"
    using system_run [OF assms] by (auto simp: system_ok_def)
  have "tx_true (view_of s) tx" if "c \<in> set (cs1 @ cs2)" "tx \<in> set (cl_transactions c)" for c tx
    using cs that by (auto simp: clients_ok_def client_ok_def)
  then show ?thesis
    using as by (intro exI [of _ cs1] exI [of _ s] exI [of _ cs2]) (auto simp: tx_true_def view_of_def ct_agrees_def)
qed

theorem client_agrees_with_server_witness:
  "\<exists>rt g c tx cs1 s cs2. test_run (\<lambda>gs. gs) 10 [1177] = Inr (rt, g) \<and> rt_actors rt = map ClientActor cs1 @ ServerActor s # map ClientActor cs2 \<and>
    c \<in> set (cs1 @ cs2) \<and> tx \<in> set (cl_transactions c) \<and> ct_state tx = CTX_COMMITTED \<and>
    (\<exists>stx. sv_transactions s (ct_txid tx) = Some stx \<and> stx_state stx = STX_COMMITTED \<and> stx_commit_ts stx = ct_commit_ts tx)"
proof -
  obtain rt0 rt g s0 c tx where t: "foldE (register_actor actor_id) (test_actors [1177]) runtime_init = Inr rt0"
      "runtime_run actor_id (actor_on_tick (\<lambda>gs. gs)) first_due 10 (rt0, generator_init) = Inr (rt, g)"
      "test_run (\<lambda>gs. gs) 10 [1177] = Inr (rt, g)" "ServerActor s0 \<in> set (rt_actors rt)" "ClientActor c \<in> set (rt_actors rt)"
      "tx \<in> set (cl_transactions c)" "ct_state tx = CTX_COMMITTED"
    using test_committed by blast
  obtain cs1 s cs2 where as: "rt_actors rt = map ClientActor cs1 @ ServerActor s # map ClientActor cs2"
      and agree: "\<forall>c \<in> set (cs1 @ cs2). \<forall>tx \<in> set (cl_transactions c). ct_state tx = CTX_COMMITTED \<longrightarrow>
        (\<exists>stx. sv_transactions s (ct_txid tx) = Some stx \<and> stx_state stx = STX_COMMITTED \<and> stx_commit_ts stx = ct_commit_ts tx)"
    using client_agrees_with_server [OF _ first_due_top test_set_up [OF t(1)] t(2)] by blast
  have "c \<in> set (cs1 @ cs2)" using t(5) unfolding as by auto
  with t(3,6,7) as agree show ?thesis by blast
qed

text \<open>C11. A run of \<open>n\<close> ticks turns the clock forward by at least \<open>n\<close>, keeps the actors and their mailboxes
  as they were registered, and leaves every message it holds due, so that none waits longer than one tick.\<close>

theorem run_makes_progress:
  assumes "queue_top front" and "set_up srv as rt"
    and "runtime_run actor_id (actor_on_tick order) front n (rt, g) = Inr (rt1, g1)"
  shows "tm (rt_clock rt) + n \<le> tm (rt_clock rt1) \<and> map actor_id (rt_actors rt1) = map actor_id as \<and>
    dom (rt_dest rt1) = actor_id ` set as \<and> (\<forall>sm \<in> set (rt_queue rt1). delivery_timestamp sm \<le> tm (rt_clock rt1))"
proof -
  have "sys.rt_inv rt" "rt_actors rt = as" using set_up_ok [OF assms(2)] by auto
  with sys.ticks_inv [OF assms(1) _ assms(3) [unfolded runtime_run_def]]
  have r: "sys.rt_inv rt1" "map actor_id (rt_actors rt1) = map actor_id as" "tm (rt_clock rt) + int (nat n) \<le> tm (rt_clock rt1)"
    by auto
  moreover have "tm (rt_clock rt) + n \<le> tm (rt_clock rt1)" using r(3) by linarith
  moreover have "actor_id ` set (rt_actors rt1) = actor_id ` set as" using r(2) by (metis list.set_map)
  ultimately show ?thesis by (auto simp: sys.rt_inv_def rt_due_def)
qed

theorem run_makes_progress_witness:
  "\<exists>rt g. test_run (\<lambda>gs. gs) 10 [1177] = Inr (rt, g) \<and> 10 \<le> tm (rt_clock rt) \<and> map actor_id (rt_actors rt) = [1, 2]"
proof -
  obtain rt0 rt g where reg: "foldE (register_actor actor_id) (test_actors [1177]) runtime_init = Inr rt0"
      and r: "runtime_run actor_id (actor_on_tick (\<lambda>gs. gs)) first_due 10 (rt0, generator_init) = Inr (rt, g)"
      and run: "test_run (\<lambda>gs. gs) 10 [1177] = Inr (rt, g)"
    using test_single by (auto simp: test_single_outcome_def test_run_def result_simps split: sum.splits prod.splits)
  have "tm (rt_clock rt0) = 0"
    by (rule foldE_invariant [OF reg, where P = "\<lambda>t. tm (rt_clock t) = 0"])
      (auto simp: runtime_init_def clock_init_def register_actor_def split: if_splits)
  with run_makes_progress [OF first_due_top test_set_up [OF reg] r] run show ?thesis
    by (simp add: test_actors_def test_client_def make_server_def make_client_def)
qed

text \<open>The outcome of the test \<open>RollbackTxDifferentClients\<close>, two clients that write the same key at the
  same time, rests on the order in which the server's \<open>unordered_map\<close> is visited, which C++ leaves
  open: visited last to first, the first client is rolled back and the second commits, as the test
  asserts; visited first to last, it is the other way round. Either way one commits and one is
  rolled back.\<close>

lemma rollback_test_depends_on_order:
  "test_rollback_outcome rev CTX_ROLLED_BACK_BY_SERVER CTX_COMMITTED \<and>
   test_rollback_outcome (\<lambda>gs. gs) CTX_COMMITTED CTX_ROLLED_BACK_BY_SERVER"
proof
  show "test_rollback_outcome rev CTX_ROLLED_BACK_BY_SERVER CTX_COMMITTED" by code_simp
  show "test_rollback_outcome (\<lambda>gs. gs) CTX_COMMITTED CTX_ROLLED_BACK_BY_SERVER" by code_simp
qed

end
