(* ===== verification/Protocol.thy ===== *)
theory Protocol
  imports Network System
begin

text \<open>
  The network under the runtime. A tick of the runtime (\<open>src/tx/runtime/runtime.cpp\<close>) hands out the
  messages of its queue, so what is in flight is the mail of the actors still to be ticked and the
  queue. No tick ever fails, and a transaction its client holds for committed is stored.
\<close>

section \<open>Messages in flight\<close>

definition mail :: "'a runtime \<Rightarrow> int \<Rightarrow> message list" where
  "mail rt i = (case rt_dest rt i of None \<Rightarrow> [] | Some ms \<Rightarrow> ms)"

definition old_mail :: "'a runtime \<Rightarrow> int list \<Rightarrow> message multiset" where
  "old_mail rt ids = mset (concat (map (mail rt) ids))"

definition new_mail :: "'a runtime \<Rightarrow> message multiset" where
  "new_mail rt = mset (map sent_msg (rt_queue rt))"

definition addressed :: "'a runtime \<Rightarrow> bool" where
  "addressed rt \<longleftrightarrow> (\<forall>i. \<forall>m \<in> set (mail rt i). msg_destination m = i)"

lemma mail_with_mail: "i \<in> dom (rt_dest rt) \<Longrightarrow> mail (with_mail sms rt) i = mail_of i sms"
  by (auto simp: mail_def with_mail_def)

lemma addressed_with_mail: "addressed (with_mail sms rt)"
  by (auto simp: addressed_def mail_def with_mail_def mail_of_def split: option.splits)

lemma mail_partition:
  assumes "distinct ids" and "\<forall>sm \<in> set sms. msg_destination (sent_msg sm) \<in> set ids"
  shows "mset (concat (map (\<lambda>i. mail_of i sms) ids)) = mset (map sent_msg sms)"
  using assms
proof (induction ids arbitrary: sms)
  case (Cons i ids)
  let ?rest = "filter (\<lambda>sm. msg_destination (sent_msg sm) \<noteq> i) sms"
  have "mail_of j ?rest = mail_of j sms" if "j \<in> set ids" for j
    using that Cons.prems(1) by (auto simp: mail_of_def intro!: arg_cong [where f = "map sent_msg"] filter_cong)
  then have "mset (concat (map (\<lambda>i. mail_of i sms) ids)) = mset (concat (map (\<lambda>i. mail_of i ?rest) ids))"
    by (metis (no_types, lifting) map_eq_conv)
  also have "\<dots> = mset (map sent_msg ?rest)" using Cons.prems by (intro Cons.IH) auto
  finally have rest: "mset (concat (map (\<lambda>i. mail_of i sms) ids)) = image_mset sent_msg (mset ?rest)" by simp
  have "mset (filter (\<lambda>sm. msg_destination (sent_msg sm) = i) sms) + mset ?rest = mset sms" by simp
  then have "image_mset sent_msg (mset sms) =
      image_mset sent_msg (mset (filter (\<lambda>sm. msg_destination (sent_msg sm) = i) sms)) + image_mset sent_msg (mset ?rest)"
    by (metis image_mset_union)
  then show ?case using rest by (simp add: mail_of_def)
qed simp

text \<open>The mail of an actor that has been ticked is gone, what it sent is in the queue.\<close>

lemma mail_ticked:
  assumes "a \<notin> set ids" and "rt1 = fold runtime_send out (rt\<lparr>rt_dest := (rt_dest rt)(a \<mapsto> []), rt_clock := clock1\<rparr>)"
  shows "old_mail rt1 ids = old_mail rt (a # ids) - mset (mail rt a)" and "new_mail rt1 = new_mail rt + mset out"
    and "addressed rt \<Longrightarrow> addressed rt1"
proof -
  have m: "mail rt1 i = (if i = a then [] else mail rt i)" for i unfolding assms(2) runtime_sends by (simp add: mail_def)
  have "concat (map (mail rt1) ids) = concat (map (mail rt) ids)"
    using assms(1) m by (intro arg_cong [where f = concat] map_cong) auto
  then show "old_mail rt1 ids = old_mail rt (a # ids) - mset (mail rt a)" by (simp add: old_mail_def)
  have "map sent_msg (rt_queue rt1) = map sent_msg (rt_queue rt) @ out"
    unfolding assms(2) runtime_sends by (simp add: stamp_def comp_def)
  then show "new_mail rt1 = new_mail rt + mset out" by (simp add: new_mail_def)
  show "addressed rt1" if "addressed rt" using that m by (simp add: addressed_def)
qed

lemma mail_old: "mset (mail rt a) \<subseteq># old_mail rt (a # ids)"
  by (simp add: old_mail_def)

section \<open>The actors' turns\<close>

definition owned :: "int \<Rightarrow> client \<Rightarrow> bool" where
  "owned srv c \<longleftrightarrow> client_in srv c []"

lemma client_in_owned: "client_in srv c others \<longleftrightarrow> owned srv c \<and> (\<forall>tx \<in> set others. ct_actor_id tx \<noteq> cl_actor_id c)"
  by (auto simp: owned_def client_in_def)

definition client_txs :: "client list \<Rightarrow> client_tx list" where
  "client_txs cs = concat (map cl_transactions cs)"

lemma client_txs_simps [simp]: "client_txs [] = []" "client_txs (c # cs) = cl_transactions c @ client_txs cs"
    "client_txs (cs @ ds) = client_txs cs @ client_txs ds"
  by (simp_all add: client_txs_def)

lemma owned_actor: "owned srv c \<Longrightarrow> tx \<in> set (cl_transactions c) \<Longrightarrow> ct_actor_id tx = cl_actor_id c"
  by (simp add: owned_def client_in_def)

lemma client_txs_actors: "\<forall>c \<in> set cs. owned srv c \<Longrightarrow> tx \<in> set (client_txs cs) \<Longrightarrow> ct_actor_id tx \<in> cl_actor_id ` set cs"
  by (auto simp: client_txs_def dest: owned_actor)

lemma protocol_client_actor:
  assumes n: "network srv mark g (old_mail rt (cl_actor_id c # ids)) (new_mail rt) (pre @ cl_transactions c @ post) stxs"
    and c: "client_in srv c (pre @ post)" and ids: "cl_actor_id c \<notin> set ids" and rt: "addressed rt" and now: "now \<le> tm (rt_clock rt)"
  shows "\<exists>c1 rt1 g1. tick_actor actor_id (actor_on_tick order) (ClientActor c) (rt, g) = Inr (ClientActor c1, rt1, g1) \<and>
    network srv mark g1 (old_mail rt1 ids) (new_mail rt1) (pre @ cl_transactions c1 @ post) stxs \<and> client_in srv c1 (pre @ post) \<and>
    addressed rt1 \<and> cl_actor_id c1 = cl_actor_id c \<and> list_all2 (turn now) (cl_transactions c) (cl_transactions c1) \<and>
    tm (rt_clock rt) \<le> tm (rt_clock rt1)"
proof -
  let ?a = "cl_actor_id c"
  have "\<forall>m \<in> set (mail rt ?a). msg_destination m = ?a" using rt by (simp add: addressed_def)
  from network_client [OF n c mail_old this now] obtain clock1 out c1 g1 where
      r: "client_on_tick (rt_clock rt) (mail rt ?a) (c, g) = Inr (clock1, out, c1, g1)"
        "network srv mark g1 (old_mail rt (?a # ids) - mset (mail rt ?a)) (new_mail rt + mset out) (pre @ cl_transactions c1 @ post) stxs"
        "client_in srv c1 (pre @ post)" "cl_actor_id c1 = ?a" "list_all2 (turn now) (cl_transactions c) (cl_transactions c1)"
    by blast
  define rt1 where "rt1 = fold runtime_send out (rt\<lparr>rt_dest := (rt_dest rt)(?a \<mapsto> []), rt_clock := clock1\<rparr>)"
  have "tick_actor actor_id (actor_on_tick order) (ClientActor c) (rt, g) = Inr (ClientActor c1, rt1, g1)"
    using r(1) by (simp add: tick_actor_def rt1_def mail_def Let_def)
  moreover have "tm (rt_clock rt) \<le> tm (rt_clock rt1)"
    using client_on_tick_keeps [OF r(1)] unfolding rt1_def runtime_sends by simp
  ultimately show ?thesis using r(2-5) mail_ticked [OF ids rt1_def] rt by auto
qed

lemma protocol_client_actors:
  assumes "network srv mark g (old_mail rt (map cl_actor_id cs @ ids)) (new_mail rt) (pre @ client_txs cs @ post) stxs"
    and "\<forall>c \<in> set cs. owned srv c" and "distinct (map cl_actor_id cs @ ids)" and "addressed rt"
    and "\<forall>tx \<in> set (pre @ post). ct_actor_id tx \<notin> cl_actor_id ` set cs" and "now \<le> tm (rt_clock rt)"
  shows "\<exists>cs1 rt1 g1. traverseE (tick_actor actor_id (actor_on_tick order)) (map ClientActor cs) (rt, g) =
      Inr (map ClientActor cs1, rt1, g1) \<and>
    network srv mark g1 (old_mail rt1 ids) (new_mail rt1) (pre @ client_txs cs1 @ post) stxs \<and> (\<forall>c \<in> set cs1. owned srv c) \<and>
    addressed rt1 \<and> map cl_actor_id cs1 = map cl_actor_id cs \<and>
    list_all2 (turn now) (client_txs cs) (client_txs cs1) \<and> tm (rt_clock rt) \<le> tm (rt_clock rt1)"
  using assms
proof (induction cs arbitrary: pre rt g)
  case (Cons c cs)
  let ?rest = "map cl_actor_id cs @ ids"
  have n: "network srv mark g (old_mail rt (cl_actor_id c # ?rest)) (new_mail rt) (pre @ cl_transactions c @ client_txs cs @ post) stxs"
    using Cons.prems(1) by simp
  have new: "cl_actor_id c \<notin> set ?rest" using Cons.prems(3) by simp
  have rest: "\<forall>c \<in> set cs. owned srv c" using Cons.prems(2) by simp
  have "ct_actor_id tx \<noteq> cl_actor_id c" if "tx \<in> set (client_txs cs)" for tx
    using client_txs_actors [OF rest that] new by auto
  then have "client_in srv c (pre @ client_txs cs @ post)"
    using Cons.prems(2,5) unfolding client_in_owned by (simp add: ball_Un)
  from protocol_client_actor [where order = order, OF n this new Cons.prems(4,6)] obtain c1 rt1 g1 where
      a: "tick_actor actor_id (actor_on_tick order) (ClientActor c) (rt, g) = Inr (ClientActor c1, rt1, g1)"
        "network srv mark g1 (old_mail rt1 ?rest) (new_mail rt1) ((pre @ cl_transactions c1) @ client_txs cs @ post) stxs"
        "owned srv c1" "addressed rt1" "cl_actor_id c1 = cl_actor_id c" "list_all2 (turn now) (cl_transactions c) (cl_transactions c1)"
        "tm (rt_clock rt) \<le> tm (rt_clock rt1)"
    by (auto simp: client_in_owned)
  have "\<forall>tx \<in> set ((pre @ cl_transactions c1) @ post). ct_actor_id tx \<notin> cl_actor_id ` set cs"
    using Cons.prems(5) owned_actor [OF a(3)] a(5) new by auto
  moreover have "distinct ?rest" using Cons.prems(3) by simp
  moreover have "now \<le> tm (rt_clock rt1)" using Cons.prems(6) a(7) by simp
  ultimately obtain cs1 rt2 g2 where
      b: "traverseE (tick_actor actor_id (actor_on_tick order)) (map ClientActor cs) (rt1, g1) = Inr (map ClientActor cs1, rt2, g2)"
        "network srv mark g2 (old_mail rt2 ids) (new_mail rt2) ((pre @ cl_transactions c1) @ client_txs cs1 @ post) stxs"
        "\<forall>c \<in> set cs1. owned srv c" "addressed rt2" "map cl_actor_id cs1 = map cl_actor_id cs"
        "list_all2 (turn now) (client_txs cs) (client_txs cs1)"
        "tm (rt_clock rt1) \<le> tm (rt_clock rt2)"
    using Cons.IH [OF a(2) rest _ a(4)] by blast
  show ?case
    by (intro exI [of _ "c1 # cs1"] exI [of _ rt2] exI [of _ g2]) (use a b in \<open>simp del: traverseE.simps add: traverseE_Cons list_all2_appendI\<close>)
qed simp

lemma protocol_server_actor:
  assumes order: "\<forall>gs. mset (order gs) = mset gs"
    and n: "network srv mark g (old_mail rt (srv # ids)) (new_mail rt) txs (sv_transactions s)"
    and s: "server_in srv (tm (rt_clock rt)) s" and ids: "srv \<notin> set ids" and rt: "addressed rt"
  shows "\<exists>s1 rt1 g1. tick_actor actor_id (actor_on_tick order) (ServerActor s) (rt, g) = Inr (ServerActor s1, rt1, g1) \<and>
    network srv mark g1 (old_mail rt1 ids) (new_mail rt1) txs (sv_transactions s1) \<and> server_in srv (tm (rt_clock rt1)) s1 \<and>
    addressed rt1 \<and> tm (rt_clock rt) \<le> tm (rt_clock rt1)"
proof -
  have "\<forall>m \<in> set (mail rt srv). msg_destination m = srv" using rt by (simp add: addressed_def)
  from network_server [OF order n s mail_old this] obtain clock1 out s1 g1 where
      r: "server_on_tick order (rt_clock rt) (mail rt srv) (s, g) = Inr (clock1, out, s1, g1)"
        "network srv mark g1 (old_mail rt (srv # ids) - mset (mail rt srv)) (new_mail rt + mset out) txs (sv_transactions s1)"
        "server_in srv (tm clock1) s1"
    by blast
  define rt1 where "rt1 = fold runtime_send out (rt\<lparr>rt_dest := (rt_dest rt)(srv \<mapsto> []), rt_clock := clock1\<rparr>)"
  have "sv_actor_id s = srv" using s by (simp add: server_in_def)
  then have "tick_actor actor_id (actor_on_tick order) (ServerActor s) (rt, g) = Inr (ServerActor s1, rt1, g1)"
    using r(1) by (simp add: tick_actor_def rt1_def mail_def Let_def)
  moreover have "rt_clock rt1 = clock1" unfolding rt1_def runtime_sends by simp
  moreover have "tm (rt_clock rt) \<le> tm clock1" using server_on_tick_keeps [OF r(1)] by simp
  ultimately show ?thesis using r(2,3) mail_ticked [OF ids rt1_def] rt by auto
qed

section \<open>A tick of the runtime\<close>

text \<open>Between ticks every message is in the queue.\<close>

definition stands :: "int \<Rightarrow> marks \<Rightarrow> actor runtime \<Rightarrow> generator \<Rightarrow> client list \<Rightarrow> server \<Rightarrow> client list \<Rightarrow> bool" where
  "stands srv mark rt g cs1 s cs2 \<longleftrightarrow> rt_actors rt = map ClientActor cs1 @ ServerActor s # map ClientActor cs2 \<and>
     (\<forall>c \<in> set (cs1 @ cs2). owned srv c) \<and> server_in srv (tm (rt_clock rt)) s \<and>
     network srv mark g {#} (new_mail rt) (client_txs (cs1 @ cs2)) (sv_transactions s)"

definition protocol :: "int \<Rightarrow> actor runtime \<Rightarrow> generator \<Rightarrow> bool" where
  "protocol srv rt g \<longleftrightarrow> (\<exists>mark cs1 s cs2. stands srv mark rt g cs1 s cs2)"

lemma server_in_mono: "server_in srv now s \<Longrightarrow> now \<le> now1 \<Longrightarrow> server_in srv now1 s"
  by (auto simp: server_in_def intro: server_inv_mono)

text \<open>The actors in a row, from the mail sorted out to the queue of what they sent.\<close>

lemma protocol_actors:
  assumes order: "\<forall>gs. mset (order gs) = mset gs"
    and n: "network srv mark g (old_mail rt (map cl_actor_id cs1 @ srv # map cl_actor_id cs2)) (new_mail rt)
      (client_txs (cs1 @ cs2)) (sv_transactions s)"
    and cs: "\<forall>c \<in> set (cs1 @ cs2). owned srv c" and s: "server_in srv (tm (rt_clock rt)) s"
    and ids: "distinct (map cl_actor_id cs1 @ srv # map cl_actor_id cs2)" and rt: "addressed rt" and now: "now \<le> tm (rt_clock rt)"
  shows "\<exists>ds1 s1 ds2 rt1 g1. traverseE (tick_actor actor_id (actor_on_tick order))
        (map ClientActor cs1 @ ServerActor s # map ClientActor cs2) (rt, g) =
      Inr (map ClientActor ds1 @ ServerActor s1 # map ClientActor ds2, rt1, g1) \<and>
    network srv mark g1 {#} (new_mail rt1) (client_txs (ds1 @ ds2)) (sv_transactions s1) \<and>
    (\<forall>c \<in> set (ds1 @ ds2). owned srv c) \<and> server_in srv (tm (rt_clock rt1)) s1 \<and>
    list_all2 (turn now) (client_txs (cs1 @ cs2)) (client_txs (ds1 @ ds2))"
proof -
  let ?t = "tick_actor actor_id (actor_on_tick order)"
  have cs1: "\<forall>c \<in> set cs1. owned srv c" and cs2: "\<forall>c \<in> set cs2. owned srv c" using cs by auto
  have apart: "cl_actor_id ` set cs1 \<inter> cl_actor_id ` set cs2 = {}" using ids by auto
  have "ct_actor_id tx \<notin> cl_actor_id ` set cs1" if "tx \<in> set (client_txs cs2)" for tx
    using client_txs_actors [OF cs2 that] apart by auto
  then have "\<forall>tx \<in> set ([] @ client_txs cs2). ct_actor_id tx \<notin> cl_actor_id ` set cs1" by simp
  moreover have "network srv mark g (old_mail rt (map cl_actor_id cs1 @ srv # map cl_actor_id cs2)) (new_mail rt)
      ([] @ client_txs cs1 @ client_txs cs2) (sv_transactions s)" using n by simp
  ultimately obtain ds1 rta ga where
      a: "traverseE ?t (map ClientActor cs1) (rt, g) = Inr (map ClientActor ds1, rta, ga)"
        "network srv mark ga (old_mail rta (srv # map cl_actor_id cs2)) (new_mail rta) (client_txs ds1 @ client_txs cs2) (sv_transactions s)"
        "\<forall>c \<in> set ds1. owned srv c" "addressed rta" "map cl_actor_id ds1 = map cl_actor_id cs1"
        "list_all2 (turn now) (client_txs cs1) (client_txs ds1)" "tm (rt_clock rt) \<le> tm (rt_clock rta)"
    using protocol_client_actors [where order = order, OF _ cs1 ids rt _ now, of mark g "[]" "client_txs cs2"] unfolding append_Nil by blast
  have "srv \<notin> set (map cl_actor_id cs2)" using ids by simp
  from protocol_server_actor [OF order a(2) server_in_mono [OF s a(7)] this a(4)] obtain s1 rtb gb where
      b: "?t (ServerActor s) (rta, ga) = Inr (ServerActor s1, rtb, gb)"
        "network srv mark gb (old_mail rtb (map cl_actor_id cs2)) (new_mail rtb) (client_txs ds1 @ client_txs cs2) (sv_transactions s1)"
        "server_in srv (tm (rt_clock rtb)) s1" "addressed rtb" "tm (rt_clock rta) \<le> tm (rt_clock rtb)"
    by blast
  have ids1: "cl_actor_id ` set ds1 = cl_actor_id ` set cs1" using a(5) by (metis list.set_map)
  have "ct_actor_id tx \<notin> cl_actor_id ` set cs2" if "tx \<in> set (client_txs ds1)" for tx
    using client_txs_actors [OF a(3) that] apart ids1 by auto
  then have "\<forall>tx \<in> set (client_txs ds1 @ []). ct_actor_id tx \<notin> cl_actor_id ` set cs2" by simp
  moreover have "network srv mark gb (old_mail rtb (map cl_actor_id cs2 @ [])) (new_mail rtb)
      (client_txs ds1 @ client_txs cs2 @ []) (sv_transactions s1)"
    using b(2) by simp
  moreover have "distinct (map cl_actor_id cs2 @ [])" using ids by simp
  moreover have "now \<le> tm (rt_clock rtb)" using now a(7) b(5) by simp
  ultimately obtain ds2 rtc gc where
      c: "traverseE ?t (map ClientActor cs2) (rtb, gb) = Inr (map ClientActor ds2, rtc, gc)"
        "network srv mark gc (old_mail rtc []) (new_mail rtc) (client_txs ds1 @ client_txs ds2) (sv_transactions s1)"
        "\<forall>c \<in> set ds2. owned srv c" "list_all2 (turn now) (client_txs cs2) (client_txs ds2)" "tm (rt_clock rtb) \<le> tm (rt_clock rtc)"
    using protocol_client_actors [where order = order, OF _ cs2 _ b(4), of mark gb "[]" "client_txs ds1" "[]"] unfolding append_Nil2 by blast
  have "traverseE ?t (map ClientActor cs1 @ ServerActor s # map ClientActor cs2) (rt, g) =
      Inr (map ClientActor ds1 @ ServerActor s1 # map ClientActor ds2, rtc, gc)"
    using a(1) b(1) c(1) unfolding traverseE_append traverseE_Cons by blast
  moreover have "old_mail rtc [] = {#}" by (simp add: old_mail_def)
  moreover have "\<forall>c \<in> set (ds1 @ ds2). owned srv c" using a(3) c(3) by auto
  ultimately show ?thesis using c(2) server_in_mono [OF b(3) c(5)] list_all2_appendI [OF a(6) c(4)]
    by (intro exI [of _ ds1] exI [of _ s1] exI [of _ ds2] exI [of _ rtc] exI [of _ gc]) simp
qed

text \<open>The mail sorted out: all of the queue, each message with an actor.\<close>

lemma stands_ids:
  assumes "sys.rt_inv rt" and "stands srv mark rt g cs1 s cs2"
  shows "distinct (map cl_actor_id cs1 @ srv # map cl_actor_id cs2)"
    and "dom (rt_dest rt) = set (map cl_actor_id cs1 @ srv # map cl_actor_id cs2)"
proof -
  have "map actor_id (rt_actors rt) = map cl_actor_id cs1 @ srv # map cl_actor_id cs2"
    using assms(2) by (simp add: stands_def server_in_def comp_def)
  then show "distinct (map cl_actor_id cs1 @ srv # map cl_actor_id cs2)"
    and "dom (rt_dest rt) = set (map cl_actor_id cs1 @ srv # map cl_actor_id cs2)"
    using assms(1) unfolding sys.rt_inv_def by (simp_all only: flip: list.set_map)
qed

lemma stands_message:
  assumes inv: "sys.rt_inv rt" and st: "stands srv mark rt g cs1 s cs2" and "sm \<in> set (rt_queue rt)"
  shows "\<exists>tx \<in> set (client_txs (cs1 @ cs2)). begun tx \<and> travels srv tx (sent_msg sm)"
    and "msg_destination (sent_msg sm) \<in> dom (rt_dest rt)"
proof -
  have n: "network srv mark g {#} (new_mail rt) (client_txs (cs1 @ cs2)) (sv_transactions s)"
    and cs: "\<forall>c \<in> set (cs1 @ cs2). owned srv c" using st by (simp_all add: stands_def)
  have "sent_msg sm \<in># {#} + new_mail rt" using assms(3) by (simp add: new_mail_def)
  from network_message [OF n this] obtain tx where tx: "tx \<in> set (client_txs (cs1 @ cs2))" "begun tx" "travels srv tx (sent_msg sm)"
    by blast
  then show "\<exists>tx \<in> set (client_txs (cs1 @ cs2)). begun tx \<and> travels srv tx (sent_msg sm)" by blast
  have "ct_actor_id tx \<in> cl_actor_id ` set (cs1 @ cs2)" by (rule client_txs_actors [OF cs tx(1)])
  then show "msg_destination (sent_msg sm) \<in> dom (rt_dest rt)"
    using tx(3) unfolding stands_ids(2) [OF inv st] by (auto simp: travels_def)
qed

lemma stands_mail:
  assumes inv: "sys.rt_inv rt" and st: "stands srv mark rt g cs1 s cs2" and sms: "mset sms = mset (rt_queue rt)"
  shows "old_mail (with_mail sms rt) (map cl_actor_id cs1 @ srv # map cl_actor_id cs2) = new_mail rt" and "new_mail (with_mail sms rt) = {#}"
proof -
  let ?ids = "map cl_actor_id cs1 @ srv # map cl_actor_id cs2"
  note ids = stands_ids [OF inv st]
  have "\<forall>sm \<in> set sms. msg_destination (sent_msg sm) \<in> set ?ids"
    using stands_message(2) [OF inv st] mset_eq_setD [OF sms] unfolding ids(2) by blast
  from mail_partition [OF ids(1) this] have "mset (concat (map (\<lambda>i. mail_of i sms) ?ids)) = new_mail rt"
    using sms by (simp add: new_mail_def)
  moreover have "map (mail (with_mail sms rt)) ?ids = map (\<lambda>i. mail_of i sms) ?ids"
    using ids(2) mail_with_mail by (intro map_cong) blast+
  ultimately show "old_mail (with_mail sms rt) ?ids = new_mail rt" by (simp only: old_mail_def)
  show "new_mail (with_mail sms rt) = {#}" by (simp add: new_mail_def with_mail_def)
qed

text \<open>A tick returns, each transaction takes its turn, and each conversation has advanced on the state
  the tick found.\<close>

definition marks_at :: "int \<Rightarrow> marks \<Rightarrow> actor runtime \<Rightarrow> client list \<Rightarrow> server \<Rightarrow> client list \<Rightarrow> marks" where
  "marks_at srv mark rt cs1 s cs2 = marks_of srv mark (client_txs (cs1 @ cs2)) (sv_transactions s) (new_mail rt)"

lemma stands_tick:
  assumes order: "\<forall>gs. mset (order gs) = mset gs" and front: "queue_top front" and inv: "sys.rt_inv rt"
    and st: "stands srv mark rt g cs1 s cs2"
  shows "\<exists>rt1 g1 ds1 s1 ds2. runtime_tick actor_id (actor_on_tick order) front (rt, g) = Inr (rt1, g1) \<and> sys.rt_inv rt1 \<and>
    stands srv (marks_at srv mark rt cs1 s cs2) rt1 g1 ds1 s1 ds2 \<and>
    list_all2 (turn (tm (rt_clock rt))) (client_txs (cs1 @ cs2)) (client_txs (ds1 @ ds2))"
proof -
  let ?t = "tick_actor actor_id (actor_on_tick order)"
  let ?mark = "marks_at srv mark rt cs1 s cs2" and ?now = "tm (rt_clock rt)"
  have rt: "rt_actors rt = map ClientActor cs1 @ ServerActor s # map ClientActor cs2"
    and cs: "\<forall>c \<in> set (cs1 @ cs2). owned srv c" and s: "server_in srv ?now s"
    and n: "network srv mark g {#} (new_mail rt) (client_txs (cs1 @ cs2)) (sv_transactions s)"
    using st by (simp_all add: stands_def)
  have due: "rt_due rt" using inv by (simp add: sys.rt_inv_def)
  have marked: "network srv ?mark g (new_mail rt) {#} (client_txs (cs1 @ cs2)) (sv_transactions s)"
    using network_marked [OF n] by (simp add: marks_at_def)
  have run: "\<exists>ds1 s1 ds2 rt4 g1. traverseE ?t (rt_actors rt) (with_mail sms rt, g) =
      Inr (map ClientActor ds1 @ ServerActor s1 # map ClientActor ds2, rt4, g1) \<and>
    network srv ?mark g1 {#} (new_mail rt4) (client_txs (ds1 @ ds2)) (sv_transactions s1) \<and>
    (\<forall>c \<in> set (ds1 @ ds2). owned srv c) \<and> server_in srv (tm (rt_clock rt4)) s1 \<and>
    list_all2 (turn ?now) (client_txs (cs1 @ cs2)) (client_txs (ds1 @ ds2))"
    if sms: "mset sms = mset (rt_queue rt)" for sms
    unfolding rt using marked s stands_mail [OF inv st sms]
    by (intro protocol_actors [OF order _ cs _ stands_ids(1) [OF inv st] addressed_with_mail]) (simp_all add: with_mail_def)
  have "\<exists>rt1 g1. runtime_tick actor_id (actor_on_tick order) front (rt, g) = Inr (rt1, g1)"
    using stands_message(2) [OF inv st] run by (intro runtime_tick_returns [OF front due]) (blast)+
  then obtain rt1 g1 where tick: "runtime_tick actor_id (actor_on_tick order) front (rt, g) = Inr (rt1, g1)" by blast
  obtain sms actors rt4 where t: "mset sms = mset (rt_queue rt)" "traverseE ?t (rt_actors rt) (with_mail sms rt, g) = Inr (actors, rt4, g1)"
      "rt_actors rt1 = actors" "rt_queue rt1 = rt_queue rt4"
      "rt_clock rt1 = (if tm (rt_clock rt4) = rt_timestamp rt4 then snd (clock_next (rt_clock rt4)) else rt_clock rt4)"
    using runtime_tickE [OF front due tick] by metis
  from run [OF t(1)] t(2) obtain ds1 s1 ds2 where d: "actors = map ClientActor ds1 @ ServerActor s1 # map ClientActor ds2"
      "network srv ?mark g1 {#} (new_mail rt4) (client_txs (ds1 @ ds2)) (sv_transactions s1)"
      "\<forall>c \<in> set (ds1 @ ds2). owned srv c" "server_in srv (tm (rt_clock rt4)) s1"
      "list_all2 (turn ?now) (client_txs (cs1 @ cs2)) (client_txs (ds1 @ ds2))"
    by auto
  have "tm (rt_clock rt4) \<le> tm (rt_clock rt1)" using t(5) by (simp add: clock_next_def)
  with d(4) have "server_in srv (tm (rt_clock rt1)) s1" by (rule server_in_mono)
  moreover have "new_mail rt1 = new_mail rt4" using t(4) by (simp add: new_mail_def)
  ultimately have "stands srv ?mark rt1 g1 ds1 s1 ds2" using d(1-3) t(3) by (simp add: stands_def)
  with tick sys.tick_inv [OF front inv tick] d(5) show ?thesis by blast
qed

lemma protocol_ticks:
  assumes "\<forall>gs. mset (order gs) = mset gs" and "queue_top front" and "sys.rt_inv rt" and "protocol srv rt g"
  shows "\<exists>rt1 g1. runtime_ticks actor_id (actor_on_tick order) front n (rt, g) = Inr (rt1, g1) \<and> sys.rt_inv rt1 \<and> protocol srv rt1 g1"
  using assms(3,4)
proof (induction n arbitrary: rt g)
  case (Suc n)
  from Suc.prems(2) obtain mark cs1 s cs2 where "stands srv mark rt g cs1 s cs2" by (auto simp: protocol_def)
  from stands_tick [OF assms(1,2) Suc.prems(1) this] obtain rt1 g1 where
      "runtime_tick actor_id (actor_on_tick order) front (rt, g) = Inr (rt1, g1)" "sys.rt_inv rt1" "protocol srv rt1 g1"
    unfolding protocol_def by blast
  with Suc.IH show ?case by simp
qed simp

text \<open>The system as it is set up: every actor sends under its own identifier.\<close>

fun own_proxy :: "actor \<Rightarrow> bool" where
  "own_proxy (ServerActor s) \<longleftrightarrow> pr_source_actor_id (sv_proxy s) = sv_actor_id s"
| "own_proxy (ClientActor c) \<longleftrightarrow> pr_source_actor_id (cl_proxy c) = cl_actor_id c"

definition proper :: "int \<Rightarrow> actor list \<Rightarrow> actor runtime \<Rightarrow> generator \<Rightarrow> bool" where
  "proper srv as rt g \<longleftrightarrow> set_up srv as rt \<and> (\<forall>a \<in> set as. own_proxy a) \<and> 0 \<le> g_tx_id g"

lemma fresh_txs:
  assumes "fresh_client srv c" and "tx \<in> set (cl_transactions c)"
  shows "ct_inv srv tx \<and> ct_actor_id tx = cl_actor_id c \<and> \<not> begun tx"
proof -
  obtain a specs p where "c = make_client a specs (discovery_single srv) p" using assms(1) by (auto simp: fresh_client_def)
  then show ?thesis using assms(2) by (auto simp: make_client_def make_client_tx_inv begun_def) (simp_all add: make_client_tx_def)
qed

definition no_marks :: "generator \<Rightarrow> marks" where
  "no_marks g = \<lparr>mk_conv = (\<lambda>_. (0, 0, {#})), mk_first = g_msg_id g, mk_count = 0\<rparr>"

lemma proper_stands:
  assumes "proper srv as rt g"
  shows "sys.rt_inv rt \<and> rt_actors rt = as \<and> tm (rt_clock rt) = 0 \<and> rt_queue rt = [] \<and>
    (\<exists>cs1 s cs2. stands srv (no_marks g) rt g cs1 s cs2)"
proof -
  have up: "set_up srv as rt" and own: "\<forall>a \<in> set as. own_proxy a" and g: "0 \<le> g_tx_id g" using assms by (simp_all add: proper_def)
  obtain cs1 ks p cs2 where as: "as = map ClientActor cs1 @ ServerActor (make_server srv ks p) # map ClientActor cs2"
      and cs: "\<forall>c \<in> set (cs1 @ cs2). fresh_client srv c" and run: "foldE (register_actor actor_id) as runtime_init = Inr rt"
    using up by (auto simp: set_up_def)
  have inv: "sys.rt_inv rt" "rt_actors rt = as" using set_up_ok [OF up] by simp_all
  have "(\<lambda>t. rt_queue t = [] \<and> rt_clock t = clock_init) rt"
    by (rule foldE_invariant [OF run]) (auto simp: runtime_init_def register_actor_def split: if_splits)
  then have rt: "rt_queue rt = []" "tm (rt_clock rt) = 0" by (simp_all add: clock_init_def)
  have "distinct (map actor_id as)" using inv by (simp add: sys.rt_inv_def)
  then have away: "cl_actor_id c \<noteq> srv" if "c \<in> set (cs1 @ cs2)" for c
    using that unfolding as by (auto simp: make_server_def)
  have owned: "owned srv c" if c: "c \<in> set (cs1 @ cs2)" for c
  proof -
    have "ClientActor c \<in> set as" using c unfolding as by auto
    with own have "own_proxy (ClientActor c)" by blast
    moreover have "fresh_client srv c" using cs c by blast
    then have "schedule_msgs (cl_retrier c) = []" by (auto simp: fresh_client_def make_client_def retrier_init_def)
    ultimately show ?thesis using away [OF c] fresh_txs [OF \<open>fresh_client srv c\<close>] by (simp add: owned_def client_in_def)
  qed
  let ?s = "make_server srv ks p"
  have "own_proxy (ServerActor ?s)" using own unfolding as by auto
  then have "server_in srv 0 ?s" using make_server_inv [of 0 srv ks p] by (simp add: server_in_def make_server_def)
  moreover have tx: "ct_inv srv tx \<and> ct_actor_id tx \<noteq> srv \<and> \<not> begun tx" if "tx \<in> set (client_txs (cs1 @ cs2))" for tx
  proof -
    obtain c where c: "c \<in> set (cs1 @ cs2)" "tx \<in> set (cl_transactions c)" using \<open>tx \<in> _\<close> by (auto simp: client_txs_def)
    then have "fresh_client srv c" using cs by blast
    from fresh_txs [OF this c(2)] away [OF c(1)] show ?thesis by simp
  qed
  then have "filter begun (client_txs (cs1 @ cs2)) = []" by (simp add: filter_empty_conv)
  with tx have "network srv (no_marks g) g {#} {#} (client_txs (cs1 @ cs2)) (sv_transactions ?s)"
    unfolding network_def in_step_def using g by (simp add: make_server_def no_marks_def)
  ultimately have "stands srv (no_marks g) rt g cs1 ?s cs2"
    unfolding stands_def inv(2) as new_mail_def using owned rt by simp
  with inv rt show ?thesis by blast
qed

text \<open>Every state a run leads to.\<close>

lemma protocol_run:
  assumes "\<forall>gs. mset (order gs) = mset gs" and "queue_top front" and "proper srv as rt g"
  shows "\<exists>rt1 g1. runtime_run actor_id (actor_on_tick order) front n (rt, g) = Inr (rt1, g1) \<and> sys.rt_inv rt1 \<and> protocol srv rt1 g1"
proof -
  have "sys.rt_inv rt" "protocol srv rt g" using proper_stands [OF assms(3)] by (auto simp: protocol_def)
  with protocol_ticks [OF assms(1,2)] show ?thesis unfolding runtime_run_def by blast
qed

lemma protocol_reached:
  assumes "\<forall>gs. mset (order gs) = mset gs" and "queue_top front" and "proper srv as rt g"
    and "runtime_run actor_id (actor_on_tick order) front n (rt, g) = Inr (rt1, g1)"
  obtains mark cs1 s cs2 where "sys.rt_inv rt1" and "stands srv mark rt1 g1 cs1 s cs2"
  using protocol_run [OF assms(1-3), of n] assms(4) that by (auto simp: protocol_def)

section \<open>Properties\<close>

text \<open>C6. No run of the system fails: with one server and any number of clients registered, whatever their
  specifications, whatever the number of ticks, in whatever order the server visits its transactions
  and the queue breaks ties, no exception is thrown, no assertion fails and no container is accessed
  out of its range.\<close>

theorem run_never_fails:
  assumes "\<forall>gs. mset (order gs) = mset gs" and "queue_top front" and "proper srv as rt g"
  shows "\<exists>rt1 g1. runtime_run actor_id (actor_on_tick order) front n (rt, g) = Inr (rt1, g1)"
  using protocol_run [OF assms, of n] by blast

lemma proper_test:
  assumes "foldE (register_actor actor_id) (test_actors values) runtime_init = Inr rt"
  shows "proper 1 (test_actors values) rt generator_init"
proof -
  have "own_proxy a" if "a \<in> set (test_actors values)" for a
    using that by (auto simp: test_actors_def test_client_def make_server_def make_client_def make_proxy_runtime_def)
  then show ?thesis using test_set_up [OF assms] by (simp add: proper_def generator_init_def)
qed

lemma test_registers:
  "\<exists>rt. foldE (register_actor actor_id) (test_actors [1177, 2277]) runtime_init = Inr rt"
  by (simp add: test_actors_def test_client_def make_server_def make_client_def register_actor_def runtime_init_def)

theorem run_never_fails_witness:
  "\<exists>rt rt1 g1. foldE (register_actor actor_id) (test_actors [1177, 2277]) runtime_init = Inr rt \<and>
    runtime_run actor_id (actor_on_tick rev) first_due 1000000 (rt, generator_init) = Inr (rt1, g1)"
proof -
  obtain rt where rt: "foldE (register_actor actor_id) (test_actors [1177, 2277]) runtime_init = Inr rt"
    using test_registers by blast
  have "\<forall>gs. mset (rev gs) = mset gs" by simp
  from run_never_fails [OF this first_due_top proper_test [OF rt], of 1000000] rt show ?thesis by blast
qed

text \<open>The writes of a transaction that the storage holds.\<close>

definition writes_of :: "int \<Rightarrow> storage \<Rightarrow> (int \<times> int \<times> int) set" where
  "writes_of i st = {(key, ts, value). version st key ts = Some \<lparr>tv_txid = i, tv_value = value\<rparr>}"

text \<open>All the keys of the specification, each with a value of the specification, under one timestamp.\<close>

definition all_written :: "tx_spec \<Rightarrow> int \<Rightarrow> (int \<times> int \<times> int) set \<Rightarrow> bool" where
  "all_written spec ts W \<longleftrightarrow> (\<lambda>(key, _, _). key) ` W = fst ` set (spec_pairs spec) \<and>
     (\<forall>(key, t, value) \<in> W. t = ts \<and> (key, value) \<in> set (spec_pairs spec))"

lemma writes_of_transaction:
  assumes "store_reflects st txs"
  shows "writes_of i st = (case txs i of None \<Rightarrow> {}
    | Some s \<Rightarrow> if stx_state s = STX_COMMITTED then {(key, ts, value). ts = stx_commit_ts s \<and> map_of (stx_puts s) key = Some value} else {})"
  using assms by (auto simp: writes_of_def store_reflects_def split: option.splits)

lemma committed_writes:
  assumes "store_reflects st txs" and "txs i = Some s" and "stx_state s = STX_COMMITTED"
    and "mset (stx_puts s) = mset (spec_pairs spec)"
  shows "all_written spec (stx_commit_ts s) (writes_of i st)"
proof -
  have W: "writes_of i st = {(key, ts, value). ts = stx_commit_ts s \<and> map_of (stx_puts s) key = Some value}"
    using writes_of_transaction [OF assms(1), of i] assms(2,3) by simp
  have same: "set (stx_puts s) = set (spec_pairs spec)" using assms(4) by (rule mset_eq_setD)
  have "(\<lambda>(key, _, _). key) ` writes_of i st = dom (map_of (stx_puts s))" unfolding W by force
  then have "(\<lambda>(key, _, _). key) ` writes_of i st = fst ` set (spec_pairs spec)" by (simp add: dom_map_of_conv_image_fst same)
  moreover have "\<forall>(key, t, value) \<in> writes_of i st. t = stx_commit_ts s \<and> (key, value) \<in> set (spec_pairs spec)"
    unfolding W using same by (auto dest: map_of_SomeD)
  ultimately show ?thesis by (simp add: all_written_def)
qed

text \<open>What the moments of a conversation say of the server's puts and of its decision.\<close>

lemma conv_decided:
  assumes "conv srv tx s F"
  shows "(stx_state s = STX_COMMITTED \<longrightarrow> mset (stx_puts s) = mset (spec_pairs (ct_spec tx))) \<and>
    (ct_state tx = CTX_COMMITTED \<longrightarrow> stx_state s = STX_COMMITTED) \<and>
    (ct_state tx = CTX_ROLLED_BACK_BY_SERVER \<longrightarrow> stx_state s = STX_ROLLED_BACK_BY_SERVER)"
  using assms by cases auto

lemma in_step_stored:
  assumes step: "in_step srv mark txs Old New tx" and "begun tx" and st: "store_reflects st txs"
  shows "(writes_of (ct_txid tx) st = {} \<or> (\<exists>ts. all_written (ct_spec tx) ts (writes_of (ct_txid tx) st))) \<and>
    (ct_state tx = CTX_COMMITTED \<longrightarrow> (\<exists>s. txs (ct_txid tx) = Some s \<and> all_written (ct_spec tx) (stx_commit_ts s) (writes_of (ct_txid tx) st))) \<and>
    (ct_state tx = CTX_ROLLED_BACK_BY_SERVER \<longrightarrow> writes_of (ct_txid tx) st = {})"
proof -
  let ?i = "ct_txid tx"
  have c: "conv srv tx (server_side srv txs ?i) (about ?i (Old + New))" using step assms(2) by (simp add: in_step_def)
  show ?thesis
  proof (cases "txs ?i")
    case None
    then have "stx_state (server_side srv txs ?i) = STX_NOT_STARTED" by (simp add: server_side_def make_server_tx_def)
    with conv_decided [OF c] writes_of_transaction [OF st, of ?i] None show ?thesis by auto
  next
    case (Some s)
    note d = conv_decided [OF c, unfolded server_side_def Some option.case]
    show ?thesis
    proof (cases "stx_state s = STX_COMMITTED")
      case True
      with committed_writes [OF st Some True] d Some show ?thesis by auto
    next
      case False
      with writes_of_transaction [OF st, of ?i] d Some show ?thesis by auto
    qed
  qed
qed

lemma committed_as_told:
  assumes "\<forall>gs. mset (order gs) = mset gs" and "queue_top front" and "set_up srv as rt"
    and "runtime_run actor_id (actor_on_tick order) front n (rt, g) = Inr (rt1, g1)"
    and "ServerActor s \<in> set (rt_actors rt1)" and "ClientActor c \<in> set (rt_actors rt1)"
    and "tx \<in> set (cl_transactions c)" and "ct_state tx = CTX_COMMITTED"
  shows "\<exists>stx. sv_transactions s (ct_txid tx) = Some stx \<and> stx_read_ts stx = ct_read_ts tx \<and> stx_commit_ts stx = ct_commit_ts tx"
proof -
  obtain cs1 s1 cs2 where as: "rt_actors rt1 = map ClientActor cs1 @ ServerActor s1 # map ClientActor cs2"
      and cs: "clients_ok srv (view_of s1) (cs1 @ cs2)"
    using system_run [OF assms(1-4)] by (auto simp: system_ok_def)
  have "s = s1" "c \<in> set (cs1 @ cs2)" using assms(5,6) unfolding as by auto
  then have "tx_true (view_of s) tx" using cs assms(7) by (auto simp: clients_ok_def client_ok_def)
  then show ?thesis using assms(8) by (auto simp: tx_true_def view_of_def ct_agrees_def)
qed

text \<open>C4. Transactions are atomic, in every state a run of the system leads to: of each transaction of each
  client the storage holds either nothing or, under one timestamp, a value of the specification for
  every key of the specification and nothing else. A transaction its client counts as committed is
  there, at the commit timestamp the client was told; one it counts as rolled back has left
  nothing.\<close>

theorem transactions_are_atomic:
  assumes "\<forall>gs. mset (order gs) = mset gs" and "queue_top front" and "proper srv as rt g"
    and "runtime_run actor_id (actor_on_tick order) front n (rt, g) = Inr (rt1, g1)"
    and "ServerActor s \<in> set (rt_actors rt1)" and "ClientActor c \<in> set (rt_actors rt1)"
    and "tx \<in> set (cl_transactions c)" and "ct_state tx \<noteq> CTX_NOT_STARTED"
  shows "(writes_of (ct_txid tx) (sv_storage s) = {} \<or> (\<exists>ts. all_written (ct_spec tx) ts (writes_of (ct_txid tx) (sv_storage s)))) \<and>
    (ct_state tx = CTX_COMMITTED \<longrightarrow> all_written (ct_spec tx) (ct_commit_ts tx) (writes_of (ct_txid tx) (sv_storage s))) \<and>
    (ct_state tx = CTX_ROLLED_BACK_BY_SERVER \<longrightarrow> writes_of (ct_txid tx) (sv_storage s) = {})"
proof -
  obtain mark cs1 s1 cs2 where as: "rt_actors rt1 = map ClientActor cs1 @ ServerActor s1 # map ClientActor cs2"
      and s1: "server_in srv (tm (rt_clock rt1)) s1"
      and n: "network srv mark g1 {#} (new_mail rt1) (client_txs (cs1 @ cs2)) (sv_transactions s1)"
    using protocol_reached [OF assms(1-4)] unfolding stands_def by metis
  have s: "s = s1" and c: "c \<in> set (cs1 @ cs2)" using assms(5,6) unfolding as by auto
  then have "tx \<in> set (client_txs (cs1 @ cs2))" using assms(7) by (auto simp: client_txs_def)
  moreover have "store_reflects (sv_storage s) (sv_transactions s)"
    using s1 s by (simp add: server_in_def server_inv_def txs_ok_def)
  moreover have "begun tx" using assms(8) by (simp add: begun_def)
  ultimately have r: "(writes_of (ct_txid tx) (sv_storage s) = {} \<or> (\<exists>ts. all_written (ct_spec tx) ts (writes_of (ct_txid tx) (sv_storage s)))) \<and>
      (ct_state tx = CTX_COMMITTED \<longrightarrow> (\<exists>stx. sv_transactions s (ct_txid tx) = Some stx \<and>
        all_written (ct_spec tx) (stx_commit_ts stx) (writes_of (ct_txid tx) (sv_storage s)))) \<and>
      (ct_state tx = CTX_ROLLED_BACK_BY_SERVER \<longrightarrow> writes_of (ct_txid tx) (sv_storage s) = {})"
    using in_step_stored networkD(2) [OF n] s by blast
  moreover have "stx_commit_ts stx = ct_commit_ts tx"
    if "ct_state tx = CTX_COMMITTED" "sv_transactions s (ct_txid tx) = Some stx" for stx
    using committed_as_told [OF assms(1,2) _ assms(4-7) that(1)] assms(3) that(2) by (auto simp: proper_def)
  ultimately show ?thesis by auto
qed

theorem transactions_are_atomic_witness:
  "\<exists>rt g s c tx. test_run (\<lambda>gs. gs) 10 [1177] = Inr (rt, g) \<and> ServerActor s \<in> set (rt_actors rt) \<and>
    ClientActor c \<in> set (rt_actors rt) \<and> tx \<in> set (cl_transactions c) \<and> ct_state tx = CTX_COMMITTED \<and>
    all_written (ct_spec tx) (ct_commit_ts tx) (writes_of (ct_txid tx) (sv_storage s))"
proof -
  obtain rt0 rt g s c tx where t: "foldE (register_actor actor_id) (test_actors [1177]) runtime_init = Inr rt0"
      "runtime_run actor_id (actor_on_tick (\<lambda>gs. gs)) first_due 10 (rt0, generator_init) = Inr (rt, g)"
      "test_run (\<lambda>gs. gs) 10 [1177] = Inr (rt, g)" "ServerActor s \<in> set (rt_actors rt)" "ClientActor c \<in> set (rt_actors rt)"
      "tx \<in> set (cl_transactions c)" "ct_state tx = CTX_COMMITTED"
    using test_committed by blast
  have "ct_state tx \<noteq> CTX_NOT_STARTED" using t(7) by simp
  from transactions_are_atomic [OF _ first_due_top proper_test [OF t(1)] t(2,4-6) this] t show ?thesis by auto
qed

text \<open>C8. Messages are what their type says, in every state a run of the system leads to: every message the
  runtime holds has the payload of its type, is about a transaction that a client has begun, and is
  a request of this client to the server or a reply of the server to this client; the runtime
  has a mailbox for it.\<close>

theorem messages_are_typed:
  assumes "\<forall>gs. mset (order gs) = mset gs" and "queue_top front" and "proper srv as rt g"
    and "runtime_run actor_id (actor_on_tick order) front n (rt, g) = Inr (rt1, g1)" and "sm \<in> set (rt_queue rt1)"
  shows "typed (sent_msg sm) \<and> msg_destination (sent_msg sm) \<in> dom (rt_dest rt1) \<and>
    (\<exists>c tx. ClientActor c \<in> set (rt_actors rt1) \<and> tx \<in> set (cl_transactions c) \<and> ct_state tx \<noteq> CTX_NOT_STARTED \<and>
      payload_txid (msg_payload (sent_msg sm)) = ct_txid tx \<and>
      (msg_type (sent_msg sm) \<in> {MSG_START, MSG_PUT, MSG_COMMIT} \<and>
         msg_source (sent_msg sm) = cl_actor_id c \<and> msg_destination (sent_msg sm) = srv \<or>
       msg_type (sent_msg sm) \<in> {MSG_START_ACK, MSG_PUT_REPLY, MSG_COMMIT_ACK, MSG_ROLLED_BACK_BY_SERVER} \<and>
         msg_source (sent_msg sm) = srv \<and> msg_destination (sent_msg sm) = cl_actor_id c))"
proof -
  obtain mark cs1 s cs2 where rt: "sys.rt_inv rt1" "stands srv mark rt1 g1 cs1 s cs2"
    using protocol_reached [OF assms(1-4)] by metis
  note m = stands_message [OF rt assms(5)]
  from m(1) obtain c tx where c: "c \<in> set (cs1 @ cs2)" "tx \<in> set (cl_transactions c)" "begun tx" "travels srv tx (sent_msg sm)"
    by (auto simp: client_txs_def)
  have "ClientActor c \<in> set (rt_actors rt1)" "owned srv c" using c(1) rt(2) by (auto simp: stands_def)
  moreover from this have "ct_actor_id tx = cl_actor_id c" using owned_actor c(2) by blast
  ultimately show ?thesis using m(2) c(2-4) unfolding travels_def begun_def by metis
qed

definition test_first_message :: bool where
  "test_first_message = (case test_run (\<lambda>gs. gs) 1 [1177] of Inl _ \<Rightarrow> False | Inr (rt, _) \<Rightarrow>
     map (\<lambda>sm. msg_type (sent_msg sm)) (rt_queue rt) = [MSG_START])"

lemma test_first_message: test_first_message
  by code_simp

theorem messages_are_typed_witness:
  "\<exists>rt g sm. test_run (\<lambda>gs. gs) 1 [1177] = Inr (rt, g) \<and> sm \<in> set (rt_queue rt) \<and> msg_type (sent_msg sm) = MSG_START \<and>
    typed (sent_msg sm) \<and> msg_destination (sent_msg sm) = 1"
proof -
  obtain rt g where run: "test_run (\<lambda>gs. gs) 1 [1177] = Inr (rt, g)"
      and q: "map (\<lambda>sm. msg_type (sent_msg sm)) (rt_queue rt) = [MSG_START]"
    using test_first_message by (auto simp: test_first_message_def split: sum.splits prod.splits)
  from q obtain sm where sm: "sm \<in> set (rt_queue rt)" "msg_type (sent_msg sm) = MSG_START" by fastforce
  obtain rt0 where "foldE (register_actor actor_id) (test_actors [1177]) runtime_init = Inr rt0"
      and r: "runtime_run actor_id (actor_on_tick (\<lambda>gs. gs)) first_due 1 (rt0, generator_init) = Inr (rt, g)"
    using run by (auto simp: test_run_def result_simps)
  then have "proper 1 (test_actors [1177]) rt0 generator_init" by (intro proper_test)
  from messages_are_typed [OF _ first_due_top this r sm(1)] sm run show ?thesis by auto
qed

end
