(* ===== verification/Isolation.thy ===== *)
theory Isolation
  imports Protocol
begin

text \<open>
  What the clients of \<open>src/tx\<close> can rely on: the snapshots and the commit timestamps their transactions
  were told of order every two committed writers of a key. The server's side of it is
  \<open>no_overlap\<close> and \<open>store_reflects\<close> of \<open>Server_Tx\<close>; the conversations of \<open>Protocol\<close> carry it to the clients.
\<close>

section \<open>A committed transaction, at both ends\<close>

lemma committed_at_server:
  assumes "\<forall>gs. mset (order gs) = mset gs" and "queue_top front" and "proper srv as rt g"
    and "runtime_run actor_id (actor_on_tick order) front n (rt, g) = Inr (rt1, g1)"
    and "ClientActor c \<in> set (rt_actors rt1)" and "ServerActor s \<in> set (rt_actors rt1)"
    and "tx \<in> set (cl_transactions c)" and committed: "ct_state tx = CTX_COMMITTED"
  shows "\<exists>stx. sv_transactions s (ct_txid tx) = Some stx \<and> stx_state stx = STX_COMMITTED \<and>
    stx_read_ts stx = ct_read_ts tx \<and> stx_commit_ts stx = ct_commit_ts tx \<and> set (stx_puts stx) = set (spec_pairs (ct_spec tx))"
proof -
  obtain mark cs1 s1 cs2 where as: "rt_actors rt1 = map ClientActor cs1 @ ServerActor s1 # map ClientActor cs2"
      and n: "network srv mark g1 {#} (new_mail rt1) (client_txs (cs1 @ cs2)) (sv_transactions s1)"
    using protocol_reached [OF assms(1-4)] unfolding stands_def by metis
  have s: "s1 = s" and "c \<in> set (cs1 @ cs2)" using assms(5,6) unfolding as by auto
  then have "tx \<in> set (client_txs (cs1 @ cs2))" using assms(7) by (auto simp: client_txs_def)
  moreover have "begun tx" using committed by (simp add: begun_def)
  ultimately have c: "conv srv tx (server_side srv (sv_transactions s) (ct_txid tx)) (about (ct_txid tx) ({#} + new_mail rt1))"
    using networkD(4) [OF n] s by simp
  have "set_up srv as rt" using assms(3) by (simp add: proper_def)
  from committed_as_told [OF assms(1,2) this assms(4,6,5,7) committed] obtain stx where
      stx: "sv_transactions s (ct_txid tx) = Some stx" "stx_read_ts stx = ct_read_ts tx" "stx_commit_ts stx = ct_commit_ts tx"
    by blast
  then have "server_side srv (sv_transactions s) (ct_txid tx) = stx" by (simp add: server_side_def)
  with conv_decided [OF c] committed have "stx_state stx = STX_COMMITTED" "mset (stx_puts stx) = mset (spec_pairs (ct_spec tx))"
    by simp_all
  with stx show ?thesis by (auto dest: mset_eq_setD)
qed

text \<open>Two committed writers of a key have different commit timestamps: the storage keeps one version of a
  key for each timestamp.\<close>

lemma commit_ts_apart:
  assumes "store_reflects st txs" and "txs i = Some a" and "txs j = Some b" and "i \<noteq> j"
    and "stx_state a = STX_COMMITTED" and "stx_state b = STX_COMMITTED"
    and "key \<in> fst ` set (stx_puts a)" and "key \<in> fst ` set (stx_puts b)"
  shows "stx_commit_ts a \<noteq> stx_commit_ts b"
proof
  assume same: "stx_commit_ts a = stx_commit_ts b"
  obtain v w where "map_of (stx_puts a) key = Some v" "map_of (stx_puts b) key = Some w"
    using assms(7,8) by (metis domD dom_map_of_conv_image_fst)
  then have "version st key (stx_commit_ts a) = Some \<lparr>tv_txid = i, tv_value = v\<rparr>"
    "version st key (stx_commit_ts b) = Some \<lparr>tv_txid = j, tv_value = w\<rparr>"
    using assms(1-3,5,6) by (auto simp: store_reflects_def)
  with same assms(4) show False by simp
qed

text \<open>C5. Writers of a key are serialized, as far as their clients can tell, in every state a run of the
  system leads to: two transactions, of one client or of two, that their clients count as committed
  and whose specifications share a key, have different commit timestamps, and the one that
  committed first did so no later than the snapshot of the other: neither overwrote a version it
  could not have read.\<close>

theorem committed_writers_are_serialized:
  assumes "\<forall>gs. mset (order gs) = mset gs" and "queue_top front" and "proper srv as rt g"
    and "runtime_run actor_id (actor_on_tick order) front n (rt, g) = Inr (rt1, g1)"
    and "ClientActor c \<in> set (rt_actors rt1)" and "tx \<in> set (cl_transactions c)"
    and "ClientActor d \<in> set (rt_actors rt1)" and "ty \<in> set (cl_transactions d)"
    and "ct_state tx = CTX_COMMITTED" and "ct_state ty = CTX_COMMITTED" and "ct_txid tx \<noteq> ct_txid ty"
    and "key \<in> cp_key ` set (spec_puts (ct_spec tx))" and "key \<in> cp_key ` set (spec_puts (ct_spec ty))"
  shows "ct_commit_ts tx \<noteq> ct_commit_ts ty \<and>
    (if ct_commit_ts tx < ct_commit_ts ty then ct_commit_ts tx \<le> ct_read_ts ty else ct_commit_ts ty \<le> ct_read_ts tx)"
proof -
  obtain s where server: "ServerActor s \<in> set (rt_actors rt1)" and inv: "server_inv (tm (rt_clock rt1)) s"
    using protocol_reached [OF assms(1-4)] unfolding stands_def server_in_def by (metis in_set_conv_decomp)
  note reached = committed_at_server [OF assms(1-4) _ server]
  obtain a where a: "sv_transactions s (ct_txid tx) = Some a" "stx_state a = STX_COMMITTED"
      "stx_read_ts a = ct_read_ts tx" "stx_commit_ts a = ct_commit_ts tx" "set (stx_puts a) = set (spec_pairs (ct_spec tx))"
    using reached [OF assms(5,6,9)] by blast
  obtain b where b: "sv_transactions s (ct_txid ty) = Some b" "stx_state b = STX_COMMITTED"
      "stx_read_ts b = ct_read_ts ty" "stx_commit_ts b = ct_commit_ts ty" "set (stx_puts b) = set (spec_pairs (ct_spec ty))"
    using reached [OF assms(7,8,10)] by blast
  have ok: "txs_ok (\<lambda>_. tm (rt_clock rt1)) (sv_storage s) (sv_transactions s)" using inv by (simp add: server_inv_def)
  have key: "key \<in> fst ` set (stx_puts a)" "key \<in> fst ` set (stx_puts b)"
    using assms(12,13) by (simp_all add: a(5) b(5) spec_pairs_def image_image)
  have "no_overlap a b" by (rule txs_okD(4) [OF ok a(1) b(1) assms(11)])
  then have "stx_commit_ts a \<le> stx_read_ts b \<or> stx_commit_ts b \<le> stx_read_ts a"
    using key a(2) b(2) by (auto simp: no_overlap_def)
  moreover have "stx_read_ts a \<le> stx_commit_ts a" "stx_read_ts b \<le> stx_commit_ts b"
    using txs_okD(3) [OF ok a(1)] txs_okD(3) [OF ok b(1)] a(2) b(2) by (simp_all add: tx_ok_def)
  moreover have "stx_commit_ts a \<noteq> stx_commit_ts b"
    by (rule commit_ts_apart [OF txs_okD(2) [OF ok] a(1) b(1) assms(11) a(2) b(2) key])
  ultimately show ?thesis unfolding a(3,4) b(3,4) by auto
qed

text \<open>A client whose second transaction starts when the first, a writer of the same key, is committed.\<close>

definition writer_spec :: "int \<Rightarrow> int \<Rightarrow> tx_spec" where
  "writer_spec start value = \<lparr>earliest_start_ts = start, earliest_commit_ts = start, spec_gets = [],
     spec_puts = [\<lparr>cp_earliest_ts = start, cp_key = 17, cp_value = value\<rparr>], spec_action = ACTION_COMMIT\<rparr>"

definition two_writers :: "actor list" where
  "two_writers = [ServerActor (make_server 1 [] (make_proxy_runtime 1)),
     ClientActor (make_client 2 [writer_spec 0 1177, writer_spec 20 2277] (discovery_single 1) (make_proxy_runtime 2))]"

definition two_writers_run :: "(actor runtime \<times> actor runtime \<times> generator) result" where
  "two_writers_run = bindE (foldE (register_actor actor_id) two_writers runtime_init) (\<lambda>rt.
     bindE (runtime_run actor_id (actor_on_tick (\<lambda>gs. gs)) first_due 30 (rt, generator_init)) (\<lambda>(rt1, g1). Inr (rt, rt1, g1)))"

primrec actor_txs :: "actor \<Rightarrow> client_tx list" where
  "actor_txs (ServerActor _) = []"
| "actor_txs (ClientActor c) = cl_transactions c"

definition committed_writer :: "int \<Rightarrow> client_tx \<Rightarrow> bool" where
  "committed_writer i tx \<longleftrightarrow> ct_state tx = CTX_COMMITTED \<and> ct_txid tx = i \<and> 17 \<in> set (map cp_key (spec_puts (ct_spec tx)))"

definition two_writers_commit :: bool where
  "two_writers_commit = (case two_writers_run of Inl _ \<Rightarrow> False | Inr (_, rt, _) \<Rightarrow>
     list_ex (\<lambda>a. list_ex (committed_writer 1001) (actor_txs a)) (rt_actors rt) \<and>
     list_ex (\<lambda>a. list_ex (committed_writer 1002) (actor_txs a)) (rt_actors rt))"

lemma two_writers_commit: two_writers_commit
  by code_simp

lemma actor_txs_client: "tx \<in> set (actor_txs a) \<Longrightarrow> \<exists>c. a = ClientActor c \<and> tx \<in> set (cl_transactions c)"
  by (cases a) simp_all

lemma two_writers_committed:
  "\<exists>rt rt1 g1 c d tx ty. two_writers_run = Inr (rt, rt1, g1) \<and>
    ClientActor c \<in> set (rt_actors rt1) \<and> tx \<in> set (cl_transactions c) \<and> committed_writer 1001 tx \<and>
    ClientActor d \<in> set (rt_actors rt1) \<and> ty \<in> set (cl_transactions d) \<and> committed_writer 1002 ty"
proof -
  obtain rt rt1 g1 where run: "two_writers_run = Inr (rt, rt1, g1)"
      and ex: "list_ex (\<lambda>a. list_ex (committed_writer 1001) (actor_txs a)) (rt_actors rt1)"
        "list_ex (\<lambda>a. list_ex (committed_writer 1002) (actor_txs a)) (rt_actors rt1)"
    using two_writers_commit by (auto simp: two_writers_commit_def split: sum.splits prod.splits)
  have found: "\<exists>c tx. ClientActor c \<in> set (rt_actors rt1) \<and> tx \<in> set (cl_transactions c) \<and> committed_writer i tx"
    if "list_ex (\<lambda>a. list_ex (committed_writer i) (actor_txs a)) (rt_actors rt1)" for i
    using that actor_txs_client unfolding list_ex_iff by blast
  show ?thesis using run found [OF ex(1)] found [OF ex(2)] by simp blast
qed

lemma proper_two_writers:
  assumes "foldE (register_actor actor_id) two_writers runtime_init = Inr rt"
  shows "proper 1 two_writers rt generator_init"
proof -
  let ?c = "make_client 2 [writer_spec 0 1177, writer_spec 20 2277] (discovery_single 1) (make_proxy_runtime 2)"
  have "two_writers = map ClientActor [] @ ServerActor (make_server 1 [] (make_proxy_runtime 1)) # map ClientActor [?c]"
    by (simp add: two_writers_def)
  moreover have "\<forall>c \<in> set ([] @ [?c]). fresh_client 1 c" by (auto simp: fresh_client_def)
  ultimately have "set_up 1 two_writers rt" unfolding set_up_def using assms by blast
  moreover have "\<forall>a \<in> set two_writers. own_proxy a"
    by (simp add: two_writers_def make_server_def make_client_def make_proxy_runtime_def)
  ultimately show ?thesis by (simp add: proper_def generator_init_def)
qed

theorem committed_writers_are_serialized_witness:
  "\<exists>rt rt1 g1 c d tx ty. two_writers_run = Inr (rt, rt1, g1) \<and> ClientActor c \<in> set (rt_actors rt1) \<and>
    tx \<in> set (cl_transactions c) \<and> ClientActor d \<in> set (rt_actors rt1) \<and> ty \<in> set (cl_transactions d) \<and>
    committed_writer 1001 tx \<and> committed_writer 1002 ty \<and> ct_commit_ts tx \<noteq> ct_commit_ts ty \<and>
    (if ct_commit_ts tx < ct_commit_ts ty then ct_commit_ts tx \<le> ct_read_ts ty else ct_commit_ts ty \<le> ct_read_ts tx)"
proof -
  obtain rt rt1 g1 c d tx ty where run: "two_writers_run = Inr (rt, rt1, g1)"
      and c: "ClientActor c \<in> set (rt_actors rt1)" "tx \<in> set (cl_transactions c)" and tx: "committed_writer 1001 tx"
      and d: "ClientActor d \<in> set (rt_actors rt1)" "ty \<in> set (cl_transactions d)" and ty: "committed_writer 1002 ty"
    using two_writers_committed by blast
  have reg: "foldE (register_actor actor_id) two_writers runtime_init = Inr rt"
      and r: "runtime_run actor_id (actor_on_tick (\<lambda>gs. gs)) first_due 30 (rt, generator_init) = Inr (rt1, g1)"
    using run by (auto simp: two_writers_run_def result_simps)
  have st: "ct_state tx = CTX_COMMITTED" "ct_state ty = CTX_COMMITTED" "ct_txid tx \<noteq> ct_txid ty"
      and key: "17 \<in> cp_key ` set (spec_puts (ct_spec tx))" "17 \<in> cp_key ` set (spec_puts (ct_spec ty))"
    using tx ty by (simp_all add: committed_writer_def)
  from committed_writers_are_serialized [OF _ first_due_top proper_two_writers [OF reg] r c d st key] run c d tx ty
  show ?thesis by blast
qed

end
