(* ===== verification/Liveness.thy ===== *)
theory Liveness
  imports Protocol
begin

text \<open>
  Every transaction that is to commit is decided, and how soon. Each tick of the runtime hands out all the
  messages in flight, and a transaction without a message in flight has a step to make as soon as
  its time has come; so each tick moves one of the two ends of each conversation, and there are only
  so many steps to make.
\<close>

section \<open>The steps of a conversation\<close>

definition decided :: "client_tx \<Rightarrow> bool" where
  "decided tx \<longleftrightarrow> ct_state tx = CTX_COMMITTED \<or> ct_state tx = CTX_ROLLED_BACK_BY_SERVER"

text \<open>The time from which on nothing of a specification has to wait, and the ticks it then takes.\<close>

definition ready_ts :: "tx_spec \<Rightarrow> int" where
  "ready_ts spec = foldr max (map cp_earliest_ts (spec_puts spec)) (max 0 (max (earliest_start_ts spec) (earliest_commit_ts spec)))"

definition ticks_needed :: "tx_spec \<Rightarrow> int" where
  "ticks_needed spec = ready_ts spec + 5 + 3 * int (length (spec_puts spec))"

lemma foldr_max_le: "foldr max xs (y::int) \<le> b \<longleftrightarrow> y \<le> b \<and> (\<forall>x \<in> set xs. x \<le> b)"
  by (induction xs) auto

lemma ready_tsD:
  assumes "ready_ts spec \<le> ts"
  shows "earliest_start_ts spec \<le> ts" and "earliest_commit_ts spec \<le> ts"
    and "k < length (spec_puts spec) \<Longrightarrow> cp_earliest_ts (spec_puts spec ! k) \<le> ts" and "0 \<le> ts"
  using assms by (auto simp: ready_ts_def foldr_max_le)

text \<open>The steps of the client are bounded, and the last is the decision.\<close>

lemma table_bounds:
  assumes "participant_mid p R srv tx"
  shows "rm_completed_puts (p_requests p) \<le> ct_next_put tx" and "ct_next_put tx \<le> length (spec_puts (ct_spec tx))"
    and "length (puts_table_status (p_requests p)) = ct_next_put tx"
proof -
  show le: "ct_next_put tx \<le> length (spec_puts (ct_spec tx))" using assms by (simp add: participant_mid_def)
  have "length (rm_puts (p_requests p)) = length (take (ct_next_put tx) (spec_pairs (ct_spec tx)))"
    using assms by (simp add: participant_mid_def)
  then show len: "length (puts_table_status (p_requests p)) = ct_next_put tx"
    using le by (simp add: length_rm_puts spec_pairs_def)
  have "rm_ok (p_requests p)" using assms by (simp add: participant_mid_def)
  then show "rm_completed_puts (p_requests p) \<le> ct_next_put tx" unfolding rm_ok_def len [symmetric] by simp
qed

lemma client_steps_bound:
  assumes "ct_inv srv tx" and "begun tx"
  shows "client_steps tx \<le> 4 + 2 * length (spec_puts (ct_spec tx))"
    and "\<not> decided tx \<Longrightarrow> client_steps tx \<le> 3 + 2 * length (spec_puts (ct_spec tx))"
    and "decided tx \<Longrightarrow> client_steps tx = 4 + 2 * length (spec_puts (ct_spec tx))"
proof -
  have "ct_state tx \<noteq> CTX_NOT_STARTED" using assms(2) by (simp add: begun_def)
  from participantE [OF assms(1) this] obtain p where p: "participant_mid p (\<lambda>_. False) srv tx" "table_of tx = p_requests p"
    by metis
  have all: "rm_completed_puts (p_requests p) = length (spec_puts (ct_spec tx))" if "decided tx"
    using that p(1) by (auto simp: decided_def participant_mid_def)
  note b = table_bounds [OF p(1)]
  show "client_steps tx \<le> 4 + 2 * length (spec_puts (ct_spec tx))"
    using b p(2) by (simp add: client_steps_def split: client_tx_state.splits)
  show "client_steps tx \<le> 3 + 2 * length (spec_puts (ct_spec tx))" if "\<not> decided tx"
    using that b p(2) by (auto simp: client_steps_def decided_def split: client_tx_state.splits)
  show "client_steps tx = 4 + 2 * length (spec_puts (ct_spec tx))" if "decided tx"
    using that all [OF that] b p(2) by (auto simp: client_steps_def decided_def)
qed

lemma decided_stays:
  assumes "ct_inv srv tx" and "ct_inv srv tx1" and "turn now tx tx1" and "begun tx" and "decided tx"
  shows "decided tx1"
proof (rule ccontr)
  assume "\<not> decided tx1"
  with client_steps_bound(2) [OF assms(2)] client_steps_bound(3) [OF assms(1,4,5)] assms(3,4) show False
    by (fastforce simp: turn_def same_tx_def)
qed

text \<open>So are those of the server.\<close>

lemma server_steps_bound:
  assumes c: "conv srv tx s F" and inv: "ct_inv srv tx"
  shows "server_steps s \<le> 2 + length (spec_puts (ct_spec tx))"
proof -
  from participantE [OF inv conv_not_started [OF c]] obtain p where
      p: "participant_mid p (\<lambda>_. False) srv tx" "table_of tx = p_requests p" by metis
  have all: "length (stx_puts s) = length (spec_puts (ct_spec tx))" if "mset (stx_puts s) = mset (spec_pairs (ct_spec tx))"
    using arg_cong [OF that, of size] by (simp add: spec_pairs_def)
  have "length (stx_puts s) \<le> length (spec_puts (ct_spec tx))"
    using c
  proof cases
    case (putting P R)
    have "mset (stx_puts s) + image_mset put_pair P = mset (rm_puts (p_requests p))" using putting p(2) by simp
    from arg_cong [OF this, of size] have "length (stx_puts s) \<le> length (puts_table_status (p_requests p))"
      by (simp add: length_rm_puts)
    with table_bounds [OF p(1)] show ?thesis by simp
  qed (simp_all add: all)
  then show ?thesis by (simp add: server_steps_def split: server_tx_state.splits)
qed

text \<open>With no message in flight, the client has its next step to make.\<close>

lemma silent_due:
  assumes c: "conv srv tx s {#}" and inv: "ct_inv srv tx" and all: "sent_all tx"
    and one: "\<not> repeated (table_of tx)" and undecided: "\<not> decided tx"
    and commit: "spec_action (ct_spec tx) = ACTION_COMMIT" and now: "ready_ts (ct_spec tx) \<le> now"
  shows "due now tx"
proof -
  let ?n = "length (spec_puts (ct_spec tx))"
  from participantE [OF inv conv_not_started [OF c]] obtain p where
      p: "participant_mid p (\<lambda>_. False) srv tx" "table_of tx = p_requests p" by metis
  from c undecided have state: "ct_state tx = CTX_OPEN" "answering (table_of tx) {#} {#}" by (auto elim!: conv_silentE simp: decided_def)
  note b = table_bounds [OF p(1)] and r = ready_tsD [OF now]
  show ?thesis
  proof (cases "ct_next_put tx < ?n")
    case True
    then show ?thesis using state(1) r(3) by (simp add: due_def put_due_def)
  next
    case False
    have ids: "ids_ok (table_of tx)" "waiting (table_of tx) = {}"
      using state(2) one finite_waiting by (auto simp: answering_def mset_set_empty_iff)
    have "rm_ok (table_of tx)" using p by (simp add: participant_mid_def)
    from nothing_waiting [OF ids(1) this one ids(2)] all have "rm_completed_puts (table_of tx) = ct_next_put tx"
      using b(3) p(2) by (simp add: sent_all_def)
    then have "commits_now now tx" using False b(2) r(2) commit by (simp add: commits_now_def)
    then show ?thesis using state(1) by (simp add: due_def)
  qed
qed

section \<open>Every tick is a step\<close>

text \<open>The steps of both ends of a conversation.\<close>

definition steps_of :: "int \<Rightarrow> transactions \<Rightarrow> client_tx \<Rightarrow> nat" where
  "steps_of srv stxs tx = (if begun tx then client_steps tx + server_steps (server_side srv stxs (ct_txid tx)) else 0)"

lemma client_steps_fresh: "\<not> begun tx \<Longrightarrow> client_steps tx = 0"
  by (simp add: begun_def client_steps_def)

lemma steps_bound:
  assumes n: "network srv mark g Old New txs stxs" and tx: "tx \<in> set txs"
  shows "steps_of srv stxs tx \<le> 6 + 3 * length (spec_puts (ct_spec tx))"
    and "\<not> decided tx \<Longrightarrow> steps_of srv stxs tx \<le> 5 + 3 * length (spec_puts (ct_spec tx))"
proof -
  have inv: "ct_inv srv tx" using networkD(2) [OF n tx] by (simp add: in_step_def)
  have v: "begun tx \<Longrightarrow> server_steps (server_side srv stxs (ct_txid tx)) \<le> 2 + length (spec_puts (ct_spec tx))"
    using server_steps_bound [OF networkD(4) [OF n tx] inv] by simp
  note c = client_steps_bound [OF inv]
  show "steps_of srv stxs tx \<le> 6 + 3 * length (spec_puts (ct_spec tx))"
    using c(1) v by (cases "begun tx") (simp_all add: steps_of_def)
  show "steps_of srv stxs tx \<le> 5 + 3 * length (spec_puts (ct_spec tx))" if "\<not> decided tx"
    using c(2) [OF _ that] v by (cases "begun tx") (simp_all add: steps_of_def)
qed

lemma tick_is_step:
  assumes n: "network srv mark g {#} F txs stxs" and n1: "network srv (marks_of srv mark txs stxs F) g1 {#} New txs1 stxs1"
    and tx: "tx \<in> set txs" "tx1 \<in> set txs1" "turn now tx tx1" and undecided: "\<not> decided tx"
    and commit: "spec_action (ct_spec tx) = ACTION_COMMIT" and now: "ready_ts (ct_spec tx) \<le> now"
  shows "steps_of srv stxs tx < steps_of srv stxs1 tx1 \<or> begun tx1 \<and> repeated (table_of tx1)"
proof (cases "begun tx")
  case False
  then have "due now tx" using ready_tsD(1) [OF now] by (simp add: begun_def due_def)
  then have "0 < client_steps tx1" using tx(3) client_steps_fresh [OF False] by (simp add: turn_def)
  moreover from this have "begun tx1" using client_steps_fresh by fastforce
  ultimately show ?thesis using False by (simp add: steps_of_def)
next
  case True
  let ?i = "ct_txid tx"
  let ?s = "server_side srv stxs ?i" and ?s1 = "server_side srv stxs1 ?i"
  have inv: "ct_inv srv tx" and sent: "sent_all tx" using networkD(2) [OF n tx(1)] True by (simp_all add: in_step_def)
  have b1: "begun tx1" and mono: "repeated (table_of tx) \<longrightarrow> repeated (table_of tx1)" using tx(3) True by (simp_all add: turn_def)
  have "?i \<noteq> UNDEFINED_TX_ID" using undefined_begun [OF inv] True by simp
  then have i: "ct_txid tx1 = ?i" using tx(3) by (simp add: turn_def same_tx_def)
  have "distinct (map ct_txid (filter begun txs))" using n by (simp add: network_def)
  from marks_of_begun [OF this tx(1) True] have "advanced (client_steps tx, server_steps ?s, about ?i F) tx1 ?s1 (about ?i {#}) (about ?i New)"
    using networkD(2) [OF n1 tx(2)] b1 i by (simp add: in_step_def)
  then consider "repeated (table_of tx1)" | "client_steps tx + server_steps ?s < client_steps tx1 + server_steps ?s1"
    | "about ?i F = {#}" "server_steps ?s \<le> server_steps ?s1"
    by (fastforce simp: advanced_def about_def)
  then show ?thesis
  proof cases
    case 3
    then have "conv srv tx ?s {#}" using networkD(4) [OF n tx(1) True] by simp
    from silent_due [OF this inv sent _ undecided commit now] tx(3) have "repeated (table_of tx) \<or> client_steps tx < client_steps tx1"
      by (auto simp: turn_def)
    with 3(2) mono True b1 i show ?thesis by (auto simp: steps_of_def)
  qed (use True b1 i in \<open>simp_all add: steps_of_def\<close>)
qed

text \<open>After \<open>k\<close> ticks a transaction that is to commit is decided or has made a step in every tick since it
  was ready, unless two of its puts went out under one identifier.\<close>

definition on_time :: "int \<Rightarrow> nat \<Rightarrow> transactions \<Rightarrow> client_tx \<Rightarrow> bool" where
  "on_time srv k stxs tx \<longleftrightarrow> spec_action (ct_spec tx) = ACTION_COMMIT \<longrightarrow>
     decided tx \<or> begun tx \<and> repeated (table_of tx) \<or> int k \<le> ready_ts (ct_spec tx) + int (steps_of srv stxs tx)"

lemma on_time_tick:
  assumes n: "network srv mark g {#} F txs stxs" and n1: "network srv (marks_of srv mark txs stxs F) g1 {#} New txs1 stxs1"
    and tx: "tx \<in> set txs" "tx1 \<in> set txs1" "turn now tx tx1" and k: "on_time srv k stxs tx" "int k \<le> now"
  shows "on_time srv (Suc k) stxs1 tx1"
  unfolding on_time_def
proof
  have spec: "ct_spec tx1 = ct_spec tx" using tx(3) by (simp add: turn_def same_tx_def)
  assume "spec_action (ct_spec tx1) = ACTION_COMMIT"
  then have commit: "spec_action (ct_spec tx) = ACTION_COMMIT" by (simp add: spec)
  have inv: "ct_inv srv tx" "ct_inv srv tx1" using networkD(2) [OF n tx(1)] networkD(2) [OF n1 tx(2)] by (simp_all add: in_step_def)
  show "decided tx1 \<or> begun tx1 \<and> repeated (table_of tx1) \<or> int (Suc k) \<le> ready_ts (ct_spec tx1) + int (steps_of srv stxs1 tx1)"
  proof (cases "decided tx \<or> begun tx \<and> repeated (table_of tx)")
    case True
    then have b: "begun tx" by (auto simp: decided_def begun_def)
    with True tx(3) decided_stays [OF inv tx(3)] show ?thesis by (auto simp: turn_def)
  next
    case False
    show ?thesis
    proof (cases "ready_ts (ct_spec tx) \<le> now")
      case True
      from tick_is_step [OF n n1 tx _ commit True] False k(1) commit show ?thesis by (auto simp: on_time_def spec)
    next
      case False
      then show ?thesis using k(2) by (simp add: spec)
    qed
  qed
qed

section \<open>The messages there are\<close>

text \<open>Every message was a step, so the steps bound the messages.\<close>

lemma size_about:
  assumes "distinct ids" and "\<forall>m \<in># F. payload_txid (msg_payload m) \<in> set ids"
  shows "size F = sum_list (map (\<lambda>i. size (about i F)) ids)"
  using assms
proof (induction ids arbitrary: F)
  case (Cons i ids)
  let ?F = "filter_mset (\<lambda>m. payload_txid (msg_payload m) \<noteq> i) F"
  have "about j ?F = about j F" if "j \<in> set ids" for j
    using that Cons.prems(1) by (auto simp: about_def filter_filter_mset intro!: filter_mset_cong)
  then have "sum_list (map (\<lambda>j. size (about j ?F)) ids) = sum_list (map (\<lambda>j. size (about j F)) ids)"
    by (intro arg_cong [where f = sum_list] map_cong) simp_all
  moreover have "size ?F = sum_list (map (\<lambda>j. size (about j ?F)) ids)" using Cons.prems by (intro Cons.IH) auto
  moreover have "F = about i F + ?F" unfolding about_def by (rule multiset_partition)
  then have "size F = size (about i F) + size ?F" by (metis size_union)
  ultimately show ?case unfolding list.map sum_list.Cons by linarith
qed simp

definition mail_for :: "message multiset \<Rightarrow> client_tx \<Rightarrow> nat" where
  "mail_for F tx = (if begun tx then size (about (ct_txid tx) F) else 0)"

lemma network_size:
  assumes n: "network srv mark g {#} New txs stxs"
  shows "size New = sum_list (map (mail_for New) txs)"
proof -
  let ?ids = "map ct_txid (filter begun txs)"
  have "distinct ?ids" using n by (simp add: network_def)
  moreover have "\<forall>m \<in># New. payload_txid (msg_payload m) \<in> set ?ids"
  proof
    fix m assume "m \<in># New"
    then have "m \<in># {#} + New" by simp
    from networkD(5) [OF n this] obtain tx where "tx \<in> set txs" "begun tx" "ct_txid tx = payload_txid (msg_payload m)" by blast
    then show "payload_txid (msg_payload m) \<in> set ?ids" by (simp add: image_iff) (metis (no_types))
  qed
  ultimately have "size New = sum_list (map (\<lambda>i. size (about i New)) ?ids)" by (rule size_about)
  also have "\<dots> = sum_list (map (mail_for New) txs)" unfolding mail_for_def sum_list_map_filter' [symmetric] by (simp add: comp_def)
  finally show ?thesis .
qed

lemma sum_list_le2:
  assumes "list_all2 R xs ys" and "\<And>x y. x \<in> set xs \<Longrightarrow> y \<in> set ys \<Longrightarrow> R x y \<Longrightarrow> f x + h y \<le> (g y :: nat)"
  shows "sum_list (map f xs) + sum_list (map h ys) \<le> sum_list (map g ys)"
  using assms
proof (induction rule: list_all2_induct)
  case (Cons x xs y ys)
  then have "f x + h y \<le> g y" "sum_list (map f xs) + sum_list (map h ys) \<le> sum_list (map g ys)" by auto
  then show ?case by simp
qed simp

lemma tick_counts:
  assumes n: "network srv mark g {#} F txs stxs" and n1: "network srv (marks_of srv mark txs stxs F) g1 {#} New txs1 stxs1"
    and turns: "list_all2 (turn now) txs txs1"
  shows "sum_list (map (steps_of srv stxs) txs) + size New \<le> sum_list (map (steps_of srv stxs1) txs1)"
  unfolding network_size [OF n1]
proof (rule sum_list_le2 [OF turns])
  fix tx tx1 assume tx: "tx \<in> set txs" "tx1 \<in> set txs1" "turn now tx tx1"
  let ?s1 = "server_side srv stxs1 (ct_txid tx1)" and ?mark = "mk_conv (marks_of srv mark txs stxs F) (ct_txid tx1)"
  show "steps_of srv stxs tx + mail_for New tx1 \<le> steps_of srv stxs1 tx1"
  proof (cases "begun tx1")
    case True
    have adv: "advanced ?mark tx1 ?s1 {#} (about (ct_txid tx1) New)"
      using networkD(2) [OF n1 tx(2)] True by (simp add: in_step_def about_def)
    show ?thesis
    proof (cases "begun tx")
      case b: True
      have inv: "ct_inv srv tx" using networkD(2) [OF n tx(1)] by (simp add: in_step_def)
      then have i: "ct_txid tx1 = ct_txid tx" using tx(3) b undefined_begun [OF inv] by (simp add: turn_def same_tx_def)
      have "distinct (map ct_txid (filter begun txs))" using n by (simp add: network_def)
      from marks_of_begun [OF this tx(1) b, of srv mark stxs F] adv show ?thesis
        using True b by (simp add: steps_of_def mail_for_def advanced_def i)
    qed (use adv True in \<open>simp add: steps_of_def mail_for_def advanced_def split: prod.splits\<close>)
  next
    case False
    then have "\<not> begun tx" using tx(3) by (auto simp: turn_def)
    with False show ?thesis by (simp add: steps_of_def mail_for_def)
  qed
qed

text \<open>A transaction takes two requests and a request for each put, and a reply to each of them. Its steps,
  at most six and three for each put, bound these messages.\<close>

definition messages_of :: "client_tx list \<Rightarrow> nat" where
  "messages_of txs = sum_list (map (\<lambda>tx. 6 + 3 * length (spec_puts (ct_spec tx))) txs)"

lemma messages_of_turn: "list_all2 (turn now) txs txs1 \<Longrightarrow> messages_of txs1 = messages_of txs"
  by (induction rule: list_all2_induct) (simp_all add: messages_of_def turn_def same_tx_def)

lemma steps_messages:
  assumes n: "network srv mark g Old New txs stxs"
  shows "sum_list (map (steps_of srv stxs) txs) \<le> messages_of txs"
  unfolding messages_of_def using steps_bound(1) [OF n] by (intro sum_list_mono) simp

primrec actor_messages :: "actor \<Rightarrow> nat" where
  "actor_messages (ServerActor _) = 0"
| "actor_messages (ClientActor c) = messages_of (cl_transactions c)"

definition messages_needed :: "actor list \<Rightarrow> nat" where
  "messages_needed as = sum_list (map actor_messages as)"

lemma messages_needed_clients: "sum_list (map (\<lambda>c. messages_of (cl_transactions c)) cs) = messages_of (client_txs cs)"
  by (induction cs) (simp_all add: messages_of_def)

lemma stands_messages:
  assumes "stands srv mark rt g cs1 s cs2"
  shows "messages_needed (rt_actors rt) = messages_of (client_txs (cs1 @ cs2))"
  using assms by (simp add: stands_def messages_needed_def messages_needed_clients comp_def) (simp add: messages_of_def)

section \<open>All ticks\<close>

text \<open>The state after \<open>k\<close> ticks of a system that began with the identifier \<open>b\<close> and may need \<open>M\<close> messages.\<close>

definition going :: "int \<Rightarrow> u32 \<Rightarrow> nat \<Rightarrow> nat \<Rightarrow> actor runtime \<Rightarrow> generator \<Rightarrow> marks \<Rightarrow> client list \<Rightarrow> server \<Rightarrow> client list \<Rightarrow> bool" where
  "going srv b M k rt g mark cs1 s cs2 \<longleftrightarrow> sys.rt_inv rt \<and> stands srv mark rt g cs1 s cs2 \<and> mk_first mark = b \<and>
     int k \<le> tm (rt_clock rt) \<and> messages_of (client_txs (cs1 @ cs2)) = M \<and>
     mk_count mark + size (new_mail rt) \<le> sum_list (map (steps_of srv (sv_transactions s)) (client_txs (cs1 @ cs2))) \<and>
     (\<forall>tx \<in> set (client_txs (cs1 @ cs2)). on_time srv k (sv_transactions s) tx)"

lemma going_tick:
  assumes order: "\<forall>gs. mset (order gs) = mset gs" and front: "queue_top front" and now: "going srv b M k rt g mark cs1 s cs2"
  shows "\<exists>rt1 g1 mark1 ds1 s1 ds2. runtime_tick actor_id (actor_on_tick order) front (rt, g) = Inr (rt1, g1) \<and>
    going srv b M (Suc k) rt1 g1 mark1 ds1 s1 ds2"
proof -
  let ?mark = "marks_at srv mark rt cs1 s cs2" and ?txs = "client_txs (cs1 @ cs2)"
  have inv: "sys.rt_inv rt" and st: "stands srv mark rt g cs1 s cs2" using now by (simp_all add: going_def)
  from stands_tick [OF order front inv st] obtain rt1 g1 ds1 s1 ds2 where
      t: "runtime_tick actor_id (actor_on_tick order) front (rt, g) = Inr (rt1, g1)" "sys.rt_inv rt1"
        "stands srv ?mark rt1 g1 ds1 s1 ds2"
        "list_all2 (turn (tm (rt_clock rt))) ?txs (client_txs (ds1 @ ds2))"
    by blast
  have n: "network srv mark g {#} (new_mail rt) ?txs (sv_transactions s)" using st by (simp add: stands_def)
  have n1: "network srv (marks_of srv mark ?txs (sv_transactions s) (new_mail rt)) g1 {#} (new_mail rt1)
      (client_txs (ds1 @ ds2)) (sv_transactions s1)"
    using t(3) unfolding stands_def marks_at_def by blast
  have "on_time srv (Suc k) (sv_transactions s1) tx1" if tx1: "tx1 \<in> set (client_txs (ds1 @ ds2))" for tx1
  proof -
    from tx1 obtain tx where "tx \<in> set ?txs" "turn (tm (rt_clock rt)) tx tx1"
      using t(4) by (metis in_set_conv_nth list_all2_conv_all_nth)
    with now tx1 show ?thesis by (intro on_time_tick [OF n n1]) (auto simp: going_def)
  qed
  moreover have "mk_first ?mark = b" "mk_count ?mark = mk_count mark + size (new_mail rt)"
    using now by (simp_all add: marks_at_def marks_of_def going_def)
  moreover have "tm (rt_clock rt) < tm (rt_clock rt1)" using sys.tick_inv [OF front inv t(1)] by simp
  moreover have "messages_of (client_txs (ds1 @ ds2)) = M" using messages_of_turn [OF t(4)] now by (simp add: going_def)
  moreover have "mk_count mark + size (new_mail rt) \<le> sum_list (map (steps_of srv (sv_transactions s)) ?txs)" "int k \<le> tm (rt_clock rt)"
    using now by (simp_all add: going_def)
  ultimately have "going srv b M (Suc k) rt1 g1 ?mark ds1 s1 ds2"
    using t(2,3) tick_counts [OF n n1 t(4)] by (simp add: going_def)
  with t(1) show ?thesis by blast
qed

lemma going_ticks:
  assumes order: "\<forall>gs. mset (order gs) = mset gs" and front: "queue_top front" and "going srv b M k rt g mark cs1 s cs2"
  shows "\<exists>rt1 g1 mark1 ds1 s1 ds2. runtime_ticks actor_id (actor_on_tick order) front n (rt, g) = Inr (rt1, g1) \<and>
    going srv b M (k + n) rt1 g1 mark1 ds1 s1 ds2"
  using assms(3)
proof (induction n arbitrary: k rt g mark cs1 s cs2)
  case 0
  then show ?case by auto
next
  case (Suc n)
  from going_tick [OF order front Suc.prems] obtain rt1 g1 mark1 ds1 s1 ds2 where
      "runtime_tick actor_id (actor_on_tick order) front (rt, g) = Inr (rt1, g1)" "going srv b M (Suc k) rt1 g1 mark1 ds1 s1 ds2"
    by blast
  with Suc.IH [of "Suc k"] show ?case by simp
qed

lemma going_run:
  assumes "\<forall>gs. mset (order gs) = mset gs" and "queue_top front" and p: "proper srv as rt g"
    and run: "runtime_run actor_id (actor_on_tick order) front n (rt, g) = Inr (rt1, g1)"
  obtains mark cs1 s cs2 where "going srv (g_msg_id g) (messages_needed as) (nat n) rt1 g1 mark cs1 s cs2"
proof -
  obtain cs1 s cs2 where rt: "sys.rt_inv rt" "stands srv (no_marks g) rt g cs1 s cs2" "tm (rt_clock rt) = 0" "rt_actors rt = as"
      "rt_queue rt = []"
    using proper_stands [OF p] by blast
  have n: "network srv (no_marks g) g {#} (new_mail rt) (client_txs (cs1 @ cs2)) (sv_transactions s)" using rt(2) by (simp add: stands_def)
  have "\<forall>tx \<in> set (client_txs (cs1 @ cs2)). on_time srv 0 (sv_transactions s) tx"
    using ready_tsD(4) [OF order_refl] by (auto simp: on_time_def intro: add_nonneg_nonneg)
  moreover have "size (new_mail rt) = 0" using rt(5) by (simp add: new_mail_def)
  ultimately have "going srv (g_msg_id g) (messages_needed as) 0 rt g (no_marks g) cs1 s cs2"
    using rt stands_messages [OF rt(2)] by (simp add: going_def no_marks_def)
  from going_ticks [OF assms(1,2) this, of "nat n"] run that show ?thesis unfolding runtime_run_def by auto
qed

text \<open>Identifiers are used once as long as there are fewer messages than identifiers.\<close>

lemma going_ids:
  assumes go: "going srv b M k rt g mark cs1 s cs2" and M: "M < 2 ^ 32"
    and tx: "tx \<in> set (client_txs (cs1 @ cs2))" "begun tx"
  shows "\<not> repeated (table_of tx)"
proof -
  have n: "network srv mark g {#} (new_mail rt) (client_txs (cs1 @ cs2)) (sv_transactions s)"
    using go by (simp add: going_def stands_def)
  have "mk_count mark + size (new_mail rt) < 2 ^ 32" using go steps_messages [OF n] M by (simp add: going_def)
  with networkD(9) [OF n tx] show ?thesis by (simp add: fresh_ids_def)
qed

section \<open>Properties\<close>

text \<open>C7. Every transaction that is to commit comes to an end: in a run of more ticks than \<open>ticks_needed\<close> says for
  its specification, which are those until its last earliest time, five and three for each put, it is
  committed or rolled back by the server, in whatever order the server visits its transactions and
  the queue breaks ties and whatever other clients do. The system must be small enough for its messages
  to have distinct 32-bit identifiers: \<open>messages_needed\<close> counts six messages for each transaction and three
  for each put.\<close>

theorem transactions_are_decided:
  assumes "\<forall>gs. mset (order gs) = mset gs" and "queue_top front" and "proper srv as rt g"
    and "runtime_run actor_id (actor_on_tick order) front n (rt, g) = Inr (rt1, g1)" and "messages_needed as < 2 ^ 32"
    and "ClientActor c \<in> set (rt_actors rt1)" and "tx \<in> set (cl_transactions c)"
    and "spec_action (ct_spec tx) = ACTION_COMMIT" and "ticks_needed (ct_spec tx) < n"
  shows "ct_state tx \<in> {CTX_COMMITTED, CTX_ROLLED_BACK_BY_SERVER}"
proof (rule ccontr)
  assume none: "ct_state tx \<notin> {CTX_COMMITTED, CTX_ROLLED_BACK_BY_SERVER}"
  obtain mark cs1 s cs2 where go: "going srv (g_msg_id g) (messages_needed as) (nat n) rt1 g1 mark cs1 s cs2"
    by (rule going_run [OF assms(1-4)])
  have net: "network srv mark g1 {#} (new_mail rt1) (client_txs (cs1 @ cs2)) (sv_transactions s)"
    and as: "rt_actors rt1 = map ClientActor cs1 @ ServerActor s # map ClientActor cs2" using go by (simp_all add: going_def stands_def)
  have "c \<in> set (cs1 @ cs2)" using assms(6) unfolding as by auto
  then have tx: "tx \<in> set (client_txs (cs1 @ cs2))" using assms(7) by (auto simp: client_txs_def)
  have "on_time srv (nat n) (sv_transactions s) tx" using go tx by (simp add: going_def)
  then have "int (nat n) \<le> ready_ts (ct_spec tx) + int (steps_of srv (sv_transactions s) tx)"
    using none assms(8) going_ids [OF go assms(5) tx] by (auto simp: on_time_def decided_def)
  moreover have "steps_of srv (sv_transactions s) tx \<le> 5 + 3 * length (spec_puts (ct_spec tx))"
    using none by (intro steps_bound(2) [OF net tx]) (simp add: decided_def)
  ultimately show False using assms(9) unfolding ticks_needed_def by linarith
qed

definition ten_ticks_needed :: "client_tx \<Rightarrow> bool" where
  "ten_ticks_needed tx \<longleftrightarrow> spec_action (ct_spec tx) = ACTION_COMMIT \<and> ticks_needed (ct_spec tx) = 10"

definition test_ends :: bool where
  "test_ends = (case test_run (\<lambda>gs. gs) 11 [1177] of Inl _ \<Rightarrow> False | Inr (rt, _) \<Rightarrow>
     list_ex (\<lambda>a. case a of ServerActor _ \<Rightarrow> False | ClientActor c \<Rightarrow> list_ex ten_ticks_needed (cl_transactions c)) (rt_actors rt))"

lemma test_ends: test_ends
  by code_simp

theorem transactions_are_decided_witness:
  "\<exists>rt g c tx. test_run (\<lambda>gs. gs) 11 [1177] = Inr (rt, g) \<and> ClientActor c \<in> set (rt_actors rt) \<and>
    tx \<in> set (cl_transactions c) \<and> ct_state tx \<in> {CTX_COMMITTED, CTX_ROLLED_BACK_BY_SERVER}"
proof -
  obtain rt g where run: "test_run (\<lambda>gs. gs) 11 [1177] = Inr (rt, g)"
      and ex: "list_ex (\<lambda>a. case a of ServerActor _ \<Rightarrow> False | ClientActor c \<Rightarrow> list_ex ten_ticks_needed (cl_transactions c)) (rt_actors rt)"
    using test_ends unfolding test_ends_def by (auto split: sum.splits prod.splits)
  from ex obtain a where a: "a \<in> set (rt_actors rt)"
      "case a of ServerActor _ \<Rightarrow> False | ClientActor c \<Rightarrow> list_ex ten_ticks_needed (cl_transactions c)"
    unfolding list_ex_iff by blast
  from a(2) obtain c where "a = ClientActor c" "list_ex ten_ticks_needed (cl_transactions c)" by (cases a) simp_all
  with a obtain tx where c: "ClientActor c \<in> set (rt_actors rt)" "tx \<in> set (cl_transactions c)"
        "spec_action (ct_spec tx) = ACTION_COMMIT" "ticks_needed (ct_spec tx) = 10"
    unfolding list_ex_iff ten_ticks_needed_def by blast
  obtain rt0 where "foldE (register_actor actor_id) (test_actors [1177]) runtime_init = Inr rt0"
      and r: "runtime_run actor_id (actor_on_tick (\<lambda>gs. gs)) first_due 11 (rt0, generator_init) = Inr (rt, g)"
    using run by (auto simp: test_run_def result_simps)
  then have "proper 1 (test_actors [1177]) rt0 generator_init" by (intro proper_test)
  moreover have "messages_needed (test_actors [1177]) < 2 ^ 32"
    by (simp add: messages_needed_def messages_of_def test_actors_def test_client_def make_client_def make_client_tx_def)
  ultimately have "ct_state tx \<in> {CTX_COMMITTED, CTX_ROLLED_BACK_BY_SERVER}"
    using transactions_are_decided [OF _ first_due_top _ r _ c(1-3)] c(4) by simp
  with run c(1,2) show ?thesis by blast
qed

text \<open>C33. The messages of a run are bounded by the system it began with, however long it runs: the generator has
  given out at most \<open>messages_needed\<close> identifiers since the beginning, six for each transaction and three
  for each put, and the runtime holds no more messages than were created.\<close>

theorem messages_are_bounded:
  assumes "\<forall>gs. mset (order gs) = mset gs" and "queue_top front" and "proper srv as rt g"
    and "runtime_run actor_id (actor_on_tick order) front n (rt, g) = Inr (rt1, g1)"
  shows "\<exists>k \<le> messages_needed as. g_msg_id g1 = g_msg_id g + of_nat k \<and> length (rt_queue rt1) \<le> k"
proof -
  obtain mark cs1 s cs2 where go: "going srv (g_msg_id g) (messages_needed as) (nat n) rt1 g1 mark cs1 s cs2"
    by (rule going_run [OF assms])
  have n: "network srv mark g1 {#} (new_mail rt1) (client_txs (cs1 @ cs2)) (sv_transactions s)"
    using go by (simp add: going_def stands_def)
  let ?k = "mk_count mark + size (new_mail rt1)"
  have "?k \<le> messages_needed as" using go steps_messages [OF n] by (simp add: going_def)
  moreover have "g_msg_id g1 = g_msg_id g + of_nat ?k" using networkD(8) [OF n] go by (simp add: going_def)
  moreover have "length (rt_queue rt1) \<le> ?k" by (simp add: new_mail_def)
  ultimately show ?thesis by blast
qed

theorem messages_are_bounded_witness:
  "\<exists>rt g. test_run (\<lambda>gs. gs) 10 [1177] = Inr (rt, g) \<and> (\<exists>k \<le> 9. g_msg_id g = of_nat k \<and> length (rt_queue rt) \<le> k)"
proof -
  obtain rt0 rt g where reg: "foldE (register_actor actor_id) (test_actors [1177]) runtime_init = Inr rt0"
      and r: "runtime_run actor_id (actor_on_tick (\<lambda>gs. gs)) first_due 10 (rt0, generator_init) = Inr (rt, g)"
      and run: "test_run (\<lambda>gs. gs) 10 [1177] = Inr (rt, g)"
    using test_committed by blast
  have "messages_needed (test_actors [1177]) = 9"
    by (simp add: messages_needed_def messages_of_def test_actors_def test_client_def make_client_def make_client_tx_def)
  with messages_are_bounded [OF _ first_due_top proper_test [OF reg] r] run show ?thesis by (simp add: generator_init_def)
qed

end
