(* ===== verification/Message_Text.thy ===== *)
theory Message_Text
  imports Client Server Numerals
begin

text \<open>
  What the program prints: the \<open>operator<<\<close> of \<open>src/tx/msg/\<close>, \<open>src/tx/client/\<close>, \<open>src/tx/server/server_tx.cpp\<close>,
  \<open>src/tx/storage/storage.cpp\<close> and \<open>src/common/log/\<close>, each as the text it appends to its stream. A
  printed message determines the message.
\<close>

section \<open>Messages\<close>

fun message_type_text :: "message_type \<Rightarrow> string" where
  "message_type_text MSG_UNDEFINED = ''MSG_UNDEFINED''"
| "message_type_text MSG_START = ''MSG_START''"
| "message_type_text MSG_START_ACK = ''MSG_START_ACK''"
| "message_type_text MSG_PUT = ''MSG_PUT''"
| "message_type_text MSG_PUT_REPLY = ''MSG_PUT_REPLY''"
| "message_type_text MSG_COMMIT = ''MSG_COMMIT''"
| "message_type_text MSG_COMMIT_ACK = ''MSG_COMMIT_ACK''"
| "message_type_text MSG_ROLLED_BACK_BY_SERVER = ''MSG_ROLLED_BACK_BY_SERVER''"

definition start_text :: "int \<Rightarrow> int \<Rightarrow> string" where
  "start_text txid read_ts = ''MsgStartPayload: txid='' @ int_text txid @ '', read_ts='' @ int_text read_ts"

definition ack_start_text :: "int \<Rightarrow> int \<Rightarrow> string" where
  "ack_start_text txid read_ts = ''MsgAckStartPayload: txid='' @ int_text txid @ '', read_ts='' @ int_text read_ts"

definition put_text :: "int \<Rightarrow> int \<Rightarrow> int \<Rightarrow> string" where
  "put_text txid key value = ''MsgPutPayload: txid='' @ int_text txid @ '', key='' @ int_text key @ '', value='' @ int_text value"

definition put_reply_text :: "int \<Rightarrow> u32 \<Rightarrow> string" where
  "put_reply_text txid mid = ''MsgPutReplyPayload: txid='' @ int_text txid @ '', msg_id='' @ u32_text mid"

definition commit_text :: "int \<Rightarrow> string" where
  "commit_text txid = ''MsgCommitPayload: txid='' @ int_text txid"

definition commit_ack_text :: "int \<Rightarrow> int \<Rightarrow> string" where
  "commit_ack_text txid commit_ts = ''MsgCommitAckPayload: txid='' @ int_text txid @ '', commit_ts='' @ int_text commit_ts"

definition rolled_back_text :: "int \<Rightarrow> int \<Rightarrow> string" where
  "rolled_back_text txid conflict_txid = ''MsgRolledBackByServerPayload: txid='' @ int_text txid @ '', conflict_txid='' @ int_text conflict_txid"

text \<open>\<open>std::visit\<close> over the alternatives.\<close>

fun payload_text :: "msg_payload \<Rightarrow> string" where
  "payload_text (MsgStartPayload txid read_ts) = start_text txid read_ts"
| "payload_text (MsgAckStartPayload txid read_ts) = ack_start_text txid read_ts"
| "payload_text (MsgPutPayload txid key value) = put_text txid key value"
| "payload_text (MsgPutReplyPayload txid mid) = put_reply_text txid mid"
| "payload_text (MsgCommitPayload txid) = commit_text txid"
| "payload_text (MsgCommitAckPayload txid commit_ts) = commit_ack_text txid commit_ts"
| "payload_text (MsgRolledBackByServerPayload txid conflict_txid) = rolled_back_text txid conflict_txid"

lemmas payload_texts = start_text_def ack_start_text_def put_text_def put_reply_text_def commit_text_def
  commit_ack_text_def rolled_back_text_def

definition message_text :: "message \<Rightarrow> string" where
  "message_text m = ''message '' @ ''[type='' @ message_type_text (msg_type m) @ '']'' @
     ''[msg_id='' @ u32_text (msg_id m) @ '']'' @ ''[source='' @ int_text (msg_source m) @ '']'' @
     ''[destination='' @ int_text (msg_destination m) @ '']'' @ '' with payload: '' @ payload_text (msg_payload m)"

definition sent_message_text :: "sent_message \<Rightarrow> string" where
  "sent_message_text sm = ''message [type=SentMessage]'' @ ''[send_ts='' @ int_text (send_timestamp sm) @ '']'' @
     ''[delivery_ts='' @ int_text (delivery_timestamp sm) @ '']'' @ '' includes '' @ message_text (sent_msg sm)"

section \<open>States\<close>

fun server_tx_state_text :: "server_tx_state \<Rightarrow> string" where
  "server_tx_state_text STX_NOT_STARTED = ''NOT_STARTED''"
| "server_tx_state_text STX_OPEN = ''OPEN''"
| "server_tx_state_text STX_COMMITTED = ''COMMITTED''"
| "server_tx_state_text STX_ROLLED_BACK_BY_SERVER = ''ROLLED_BACK_BY_SERVER''"

definition data_put_text :: "int \<times> int \<Rightarrow> string" where
  "data_put_text p = ''DataPut: key='' @ int_text (fst p) @ '', value='' @ int_text (snd p)"

definition tag_value_text :: "tag_value \<Rightarrow> string" where
  "tag_value_text t = ''tag: txid='' @ int_text (tv_txid t) @ '', value='' @ int_text (tv_value t)"

fun client_tx_state_text :: "client_tx_state \<Rightarrow> string" where
  "client_tx_state_text CTX_NOT_STARTED = ''NOT_STARTED''"
| "client_tx_state_text CTX_START_SENT = ''START_SENT''"
| "client_tx_state_text CTX_OPEN = ''OPEN''"
| "client_tx_state_text CTX_COMMIT_SENT = ''COMMIT_SENT''"
| "client_tx_state_text CTX_COMMITTED = ''COMMITTED''"
| "client_tx_state_text CTX_ROLLED_BACK_BY_SERVER = ''ROLLED_BACK_BY_SERVER''"

fun participant_state_text :: "participant_state \<Rightarrow> string" where
  "participant_state_text P_NOT_STARTED = ''NOT_STARTED''"
| "participant_state_text P_START_MSG_SENT = ''START_MSG_SENT''"
| "participant_state_text P_TX_OPEN = ''TX_OPEN''"

definition participant_text :: "tx_participant \<Rightarrow> string" where
  "participant_text p = ''[TxParticipant]'' @ ''[client='' @ int_text (p_client p) @ '']'' @
     ''[server='' @ int_text (p_coordinator p) @ '']'' @ ''[txid='' @ int_text (p_txid p) @ '']'' @
     ''[state='' @ participant_state_text (p_state p) @ '']''"

definition check_none :: "int \<Rightarrow> string" where
  "check_none ts = (if ts = UNDEFINED_TS then ''None'' else int_text ts)"

definition tx_spec_text :: "tx_spec \<Rightarrow> string" where
  "tx_spec_text sp = ''[ClientTxSpec]'' @ ''[earliest_start_ts='' @ check_none (earliest_start_ts sp) @ '']'' @
     ''[earliest_commit_ts='' @ check_none (earliest_commit_ts sp) @ '']''"

definition client_tx_text :: "client_tx \<Rightarrow> string" where
  "client_tx_text tx = ''[ClientTx]'' @ ''[actor_id='' @ int_text (ct_actor_id tx) @ '']'' @ tx_spec_text (ct_spec tx) @
     ''[state='' @ client_tx_state_text (ct_state tx) @ '']'' @ ''[coordinator='' @ int_text (ct_coordinator tx) @ '']''"

definition client_text :: "client \<Rightarrow> string" where
  "client_text c = ''[Client]'' @ ''[actor_id='' @ int_text (cl_actor_id c) @ '']''"

section \<open>The class Log\<close>

datatype log_level = DEBUG | INFO | ERROR

fun log_level_text :: "log_level \<Rightarrow> string" where
  "log_level_text DEBUG = ''['' @ ''DEBUG'' @ '']'' @ [CHR 0x09]"
| "log_level_text INFO = ''['' @ ''INFO'' @ '']'' @ [CHR 0x09]"
| "log_level_text ERROR = ''['' @ ''ERROR'' @ '']'' @ [CHR 0x09]"

text \<open>What has been printed.\<close>

record console =
  std_out :: string
  std_err :: string

definition log_write :: "log_level \<Rightarrow> string \<Rightarrow> console \<Rightarrow> console" where
  "log_write level t c = (if level = ERROR then c\<lparr>std_err := std_err c @ t\<rparr> else c\<lparr>std_out := std_out c @ t\<rparr>)"

text \<open>The life of a \<open>Log\<close>: constructor, the texts given to it, destructor.\<close>

definition log_line :: "log_level \<Rightarrow> string list \<Rightarrow> console \<Rightarrow> console" where
  "log_line level ts c = log_write level [CHR 0x0A] (fold (log_write level) ts (log_write level (log_level_text level) c))"

section \<open>Texts determine what they print\<close>

lemma no_bracket [simp]: "CHR '']'' \<notin> set (int_text i)" "CHR '']'' \<notin> set (u32_text w)"
    "CHR '']'' \<notin> set (message_type_text t)"
  by (rule int_text_no, simp, simp add: u32_text_def nat_text_no, cases t, simp_all)

lemma no_comma [simp]: "CHR '','' \<notin> set (int_text i)" "CHR '','' \<notin> set (u32_text w)"
  by (rule int_text_no, simp, simp add: u32_text_def nat_text_no)

lemma message_type_text_inject [simp]: "message_type_text a = message_type_text b \<longleftrightarrow> a = b"
  by (cases a; cases b) simp_all

lemma payload_text_inject [simp]: "payload_text a = payload_text b \<longleftrightarrow> a = b"
  by (cases a; cases b) (simp_all add: split_at_separator payload_texts)

text \<open>The text of one log line, its level and what was given to it, reaches one stream, \<open>std::cerr\<close>
  for errors and \<open>std::cout\<close> for the rest, followed by a line break, and leaves the other alone.\<close>

lemma log_line_goes_to_one_stream:
  "log_line level ts c =
    (if level = ERROR then c\<lparr>std_err := std_err c @ log_level_text level @ concat ts @ [CHR 0x0A]\<rparr>
     else c\<lparr>std_out := std_out c @ log_level_text level @ concat ts @ [CHR 0x0A]\<rparr>)"
proof -
  have "fold (log_write level) ts c = log_write level (concat ts) c" for c
    by (induction ts arbitrary: c) (simp_all add: log_write_def)
  then show ?thesis by (simp add: log_line_def log_write_def)
qed

section \<open>Properties\<close>

text \<open>C31. A printed message determines the message: two messages are printed alike only if they are
  equal, whatever numbers they carry, and so are messages in flight.\<close>

theorem message_text_inject:
  "(message_text a = message_text b \<longleftrightarrow> a = b) \<and> (sent_message_text s = sent_message_text t \<longleftrightarrow> s = t)"
proof -
  have "message_text a = message_text b \<longleftrightarrow> a = b" for a b
    by (cases a; cases b) (auto simp: message_text_def split_at_separator)
  then show ?thesis
    by (cases s; cases t) (auto simp: sent_message_text_def split_at_separator)
qed

end
