(* ===== verification/Spec2Isabelle.thy ===== *)
theory Spec2Isabelle
  imports Programs Reconnect Random_Numbers Concurrent_Writers Client_Tx_History Isolation Liveness Message_Text
begin

text \<open>
  A verification development for \<open>simple_db\<close>: a paged table store and, independent of it, a
  simulated distributed transaction system with snapshot isolation.

  \<^bold>\<open>The store.\<close> A \<open>Store\<close> (\<open>src/store/store.cpp\<close>) connects names to tables. A \<open>Table\<close>
  (\<open>src/table/table.cpp\<close>) walks over the pages of a \<open>File\<close> (\<open>src/buffer_pool/file.cpp\<close>), which it
  reaches through a buffer pool (\<open>src/buffer_pool/buffer_pool.cpp\<close>, \<open>frame_pool.cpp\<close>) whose frames are
  replaced by a clock cache (\<open>clock_cache.h\<close>); each page is an array of slots
  (\<open>src/table/fixed_table_page.cpp\<close>) that hold marshalled rows (\<open>src/transform/marshal.cpp\<close>).

  \<^item> \<open>Prelude\<close>: results of calls, loops, byte regions.
  \<^item> \<open>Clock_Cache\<close>: the replacement cache; the search for a victim is a partial function. It returns
    exactly when a buffer is unlocked; interface \<open>replacement_cache\<close>.
  \<^item> \<open>Page_File\<close>: files on a device of bounded size, with descriptors; interface \<open>block_device\<close>.
  \<^item> \<open>Frame_Pool\<close>: frames in one byte array over files; pages as seen through the pool are an abstract
    map that acquiring and releasing leave alone and closing writes to disk; interface \<open>page_pool\<close>.
  \<^item> \<open>Marshal\<close>, \<open>Table_Page\<close>: rows as bytes, and a page as a list of slots that the byte-level
    operations refine.
  \<^item> \<open>Table\<close>: a table as a map from row identifiers to rows; the walk of \<open>insert_row\<close> is a partial
    function, shown to end when a frame and a page of room are there; interface \<open>row_store\<close>. It gives what
    a plain list of pages gives, whatever the pool does.
  \<^item> \<open>Store\<close>: connecting, closing and restarting. \<open>Reconnect\<close>: a second connection to a table, which
    reads the file and not the pages the first one has in the pool.
  \<^item> \<open>Programs\<close>: \<open>example/main.cpp\<close>, which aborts at its first row, and \<open>src/db/database.cpp\<close>.

  \<^bold>\<open>The transactions.\<close> Actors exchange messages through a \<open>Runtime\<close> (\<open>src/tx/runtime/\<close>) that owns the
  clock. A \<open>Server\<close> (\<open>src/tx/server/\<close>) keeps the versions of every key in a \<open>Storage\<close>
  (\<open>src/tx/storage/\<close>) and decides transactions by first committer wins; a \<open>Client\<close>
  (\<open>src/tx/client/\<close>) runs transactions along specifications.

  \<^item> \<open>Message\<close>: identifiers, clock, generator, messages and their factories.
  \<^item> \<open>Services\<close>: outbox, proxy, discovery, versioned storage; interface \<open>versioned_store\<close>.
  \<^item> \<open>Server_Tx\<close>, \<open>Server\<close>: one transaction on the server and the actor that routes messages to its
    transactions. Committed transactions that wrote a common key did not overlap, the storage
    is what the committed ones wrote, and every reply is true. \<open>Concurrent_Writers\<close>: of two that ask to commit in
    one tick, the order of visits decides.
  \<^item> \<open>Client_Tx\<close>, \<open>Client_Tx_Runs\<close>, \<open>Client\<close>: one transaction on the client with its participants
    and request tables, and the client actor. \<open>Client_Tx_History\<close> adds the messages a transaction sent and
    received: every put it reports was acknowledged.
  \<^item> \<open>Runtime\<close>: the queue, mailboxes and ticks, for actors of any class; interface \<open>actor_contract\<close>.
  \<^item> \<open>Message_Text\<close>: what is printed and logged.
  \<^item> \<open>System\<close>: one server and any number of clients under the runtime. What clients believe is
    what the server decided; the two system tests of the repository are evaluated.
  \<^item> \<open>Request_Ids\<close>, \<open>Conversation\<close>, \<open>Network\<close>, \<open>Protocol\<close>: the states of the two ends of a transaction and
    the messages in flight between them (the step relation \<open>conv\<close>), in step through every tick of a
    client, of the server and of the runtime. No run fails (no exception, assertion or access out of
    range), every message is typed and has a mailbox, and transactions are atomic. The actors are
    set up as the tests set them up: each sends under its own identifier (\<open>own_proxy\<close>).
  \<^item> \<open>Isolation\<close>: what the server promises of its committed transactions, in terms of what the clients were
    told: two committed writers of a key have different commit timestamps and did not overlap.
  \<^item> \<open>Liveness\<close>: every transaction that is to commit is decided. \<open>Network\<close> marks where each conversation
    stood at the start of a tick; at the end of the tick one of its ends has made a step, and
    \<open>ticks_needed\<close> bounds the steps there are. The steps also bound the messages of a run
    (\<open>messages_needed\<close>). Were there more of them than 32-bit identifiers, two puts of a transaction might get
    the same one (\<open>repeated\<close>), and the client would count a reply less; the theorem asks for fewer.

  Beside these, \<open>Numerals\<close> (printed numbers) and \<open>Random_Numbers\<close> (\<open>src/common/random/generator.cpp\<close>).

  \<^bold>\<open>Conventions.\<close> A C++ object is a record, a method a function from the object (and what it points to)
  to a result: \<open>Inr\<close> if it returns, \<open>Inl\<close> if it throws, fails an assertion or leaves the defined
  part of C++; where a loop may not end the result is an option and \<open>None\<close> says that it does not.
  Numbers that only count up by one (timestamps, transaction identifiers, indexes of containers) are
  unbounded, message identifiers, reference counts, usage counts and stored values have their
  width. What functions log on the way is left out of their models.

  \<^bold>\<open>Bounds.\<close> The loop of \<open>fill_destination_actor_messages\<close> is given as many rounds as the queue has
  messages: each round takes one out (\<open>fill_returns\<close>). Every other loop is structural, or a
  partial function with a theorem that says when it returns. In \<open>ticks_needed\<close>, five steps precede the
  reading of the decision (the client starts, the server opens, the client opens and asks for the commit, the server
  decides) and each put takes three (it is issued, it reaches the server, its reply is read).

  \<^bold>\<open>Parameters.\<close> The order in which an \<open>unordered_map\<close> is visited (\<open>order\<close>), the choice of a priority queue
  between equals (\<open>front\<close>), the initial bytes of a frame pool, the byte an empty struct is copied
  as, the hash functions and the distribution of random numbers are left open by C++ and are arguments of the definitions that use them.

  \<^bold>\<open>Not modelled.\<close> That the operating system hands out the numbers of closed descriptors again; when the last
  owner of a file lets go of it (\<open>close_file\<close> is what happens then). \<open>ConstructFromProtected\<close>; the tests,
  except that the set-ups of \<open>tests/test_full_tx.cpp\<close> serve as inputs.
\<close>

end
